(* ===== verification/Rust_Prelude.thy ===== *)
theory Rust_Prelude
  imports Main "HOL-Library.Word" "HOL-Library.List_Lexorder"
begin

text \<open>
  The vocabulary the component theories share: names for the machine integers the
  code uses, Rust's \<open>Result\<close> with its question-mark operator, panics as a value,
  big-endian and decimal conversions of the standard library, and the contracts
  (locales) that several components implement.
\<close>

section \<open>Machine integers and byte strings\<close>

type_synonym u8 = "8 word"
type_synonym u16 = "16 word"
type_synonym u32 = "32 word"
type_synonym u64 = "64 word"
type_synonym u128 = "128 word"
type_synonym bytes = "u8 list"

named_theorems res_iff \<open>when a step of the result monad succeeds\<close>
named_theorems byte_simps \<open>lengths and inverses of the byte conversions\<close>

section \<open>Results and panics\<close>

text \<open>\<open>e ?\<close> of Rust: an error returns at once, a value goes on.\<close>

definition and_then :: "'e + 'a \<Rightarrow> ('a \<Rightarrow> 'e + 'b) \<Rightarrow> 'e + 'b" where
  "and_then r k = (case r of Inl e \<Rightarrow> Inl e | Inr a \<Rightarrow> k a)"

definition ok_or :: "'a option \<Rightarrow> 'e \<Rightarrow> 'e + 'a" where
  "ok_or m e = (case m of None \<Rightarrow> Inl e | Some a \<Rightarrow> Inr a)"

lemma and_then_simps [simp]:
  "and_then (Inl e) k = Inl e"
  "and_then (Inr a) k = k a"
  by (simp_all add: and_then_def)

lemma ok_or_simps [simp]:
  "ok_or None e = Inl e"
  "ok_or (Some a) e = Inr a"
  by (simp_all add: ok_or_def)

lemma and_then_Inr_iff [res_iff]:
  "and_then r k = Inr b \<longleftrightarrow> (\<exists>a. r = Inr a \<and> k a = Inr b)"
  by (cases r) auto

lemma and_then_Inl_iff [res_iff]:
  "and_then r k = Inl e \<longleftrightarrow> r = Inl e \<or> (\<exists>a. r = Inr a \<and> k a = Inl e)"
  by (cases r) auto

lemma ok_or_Inr_iff [res_iff]: "ok_or m e = Inr a \<longleftrightarrow> m = Some a"
  by (cases m) auto

lemma ok_or_Inl_iff [res_iff]: "ok_or m e = Inl e' \<longleftrightarrow> m = None \<and> e = e'"
  by (cases m) auto

lemma and_then_cong [fundef_cong]:
  "r = r' \<Longrightarrow> (\<And>a. r' = Inr a \<Longrightarrow> k a = k' a) \<Longrightarrow> and_then r k = and_then r' k'"
  by (cases r') auto

text \<open>
  A slice index out of range, or a failed \<open>unwrap\<close>, unwinds the thread. Operations
  that can do so return an \<open>outcome\<close>.
\<close>

datatype 'a outcome = Ret (ret: 'a) | Panic

section \<open>Cursors into a buffer\<close>

text \<open>What is left of a buffer at a cursor, taken apart as the cursor moves.\<close>

lemma drop_eq_Cons:
  "drop pos data = b # xs \<longleftrightarrow> pos < length data \<and> data ! pos = b \<and> drop (Suc pos) data = xs"
  by (metis Cons_nth_drop_Suc drop_all list.distinct(1) list.inject not_le)

lemma drop_appendD:
  "drop pos data = xs @ ys \<Longrightarrow> drop (pos + length xs) data = ys"
  by (metis add.commute append_eq_conv_conj drop_drop)

lemma drop_append_length:
  "drop pos data = xs @ ys \<Longrightarrow> xs @ ys \<noteq> [] \<Longrightarrow> pos + length xs + length ys = length data"
  by (metis add.assoc append_is_Nil_conv drop_all le_add_diff_inverse length_append length_drop nle_le)

lemma drop_drop_length:
  "drop pos data = xs @ drop p data \<Longrightarrow> pos \<le> length data \<Longrightarrow> p \<le> length data \<Longrightarrow> pos + length xs = p"
  by (drule arg_cong [where f = length]) simp

section \<open>Big-endian conversions\<close>

primrec be_nat :: "nat \<Rightarrow> nat \<Rightarrow> bytes" where
  "be_nat 0 x = []"
| "be_nat (Suc k) x = be_nat k (x div 256) @ [of_nat x]"

definition nat_be :: "bytes \<Rightarrow> nat" where
  "nat_be bs = foldl (\<lambda>acc b. acc * 256 + unat b) 0 bs"

abbreviation u16_be :: "u16 \<Rightarrow> bytes" where "u16_be w \<equiv> be_nat 2 (unat w)"
abbreviation u32_be :: "u32 \<Rightarrow> bytes" where "u32_be w \<equiv> be_nat 4 (unat w)"
abbreviation u64_be :: "u64 \<Rightarrow> bytes" where "u64_be w \<equiv> be_nat 8 (unat w)"

abbreviation u128_be :: "u128 \<Rightarrow> bytes" where "u128_be w \<equiv> be_nat 16 (unat w)"

lemma length_be_nat [simp, byte_simps]: "length (be_nat k x) = k"
  by (induction k arbitrary: x) auto

lemma nat_be_snoc [simp]: "nat_be (bs @ [b]) = nat_be bs * 256 + unat b"
  by (simp add: nat_be_def)

lemma nat_be_Nil [simp]: "nat_be [] = 0"
  by (simp add: nat_be_def)

lemma unat_of_nat_u8 [byte_simps]: "unat (of_nat x :: u8) = x mod 256"
  by (simp add: unat_of_nat)

lemma be_nat_eq_Nil [simp]: "be_nat k x = [] \<longleftrightarrow> k = 0"
  using length_be_nat [of k x] by (cases "be_nat k x") auto

lemma nat_be_be_nat: "nat_be (be_nat k x) = x mod 256 ^ k"
proof (induction k arbitrary: x)
  case 0
  then show ?case by simp
next
  case (Suc k)
  have "nat_be (be_nat (Suc k) x) = (x div 256 mod 256 ^ k) * 256 + x mod 256"
    by (simp add: Suc unat_of_nat_u8)
  also have "\<dots> = x mod (256 * 256 ^ k)"
    by (simp add: mod_mult2_eq)
  finally show ?case by simp
qed

lemma nat_be_bound: "nat_be bs < 256 ^ length bs"
proof (induction bs rule: rev_induct)
  case Nil
  then show ?case by simp
next
  case (snoc b bs)
  have "unat b < 256" using unsigned_less [of b, where 'a = nat] by simp
  with snoc show ?case by simp
qed

lemma be_nat_nat_be: "length bs = k \<Longrightarrow> be_nat k (nat_be bs) = bs"
proof (induction k arbitrary: bs)
  case 0
  then show ?case by simp
next
  case (Suc k)
  then obtain cs b where bs: "bs = cs @ [b]" "length cs = k"
    by (metis length_Suc_conv_rev)
  have "unat b < 256" using unsigned_less [of b, where 'a = nat] by simp
  moreover have "(of_nat (nat_be cs * 256 + unat b) :: u8) = b"
    by (simp add: word_unat_eq_iff unat_of_nat_u8 \<open>unat b < 256\<close> del: of_nat_add of_nat_mult)
  ultimately show ?case using Suc.IH [of cs] bs by simp
qed


lemma unat_be_u16 [byte_simps]: "(of_nat (nat_be (u16_be w)) :: u16) = w"
  using unsigned_less [of w, where 'a = nat] by (simp add: nat_be_be_nat word_unat_eq_iff)

lemma unat_be_u32 [byte_simps]: "(of_nat (nat_be (u32_be w)) :: u32) = w"
  using unsigned_less [of w, where 'a = nat] by (simp add: nat_be_be_nat word_unat_eq_iff)

lemma unat_be_u64 [byte_simps]: "(of_nat (nat_be (u64_be w)) :: u64) = w"
  using unsigned_less [of w, where 'a = nat] by (simp add: nat_be_be_nat word_unat_eq_iff)

lemma u16_be_of_nat [byte_simps]:
  "length bs = 2 \<Longrightarrow> u16_be (of_nat (nat_be bs)) = bs"
  using nat_be_bound [of bs] be_nat_nat_be [of bs 2]
  by (simp add: unat_of_nat)

lemma u32_be_of_nat [byte_simps]:
  "length bs = 4 \<Longrightarrow> u32_be (of_nat (nat_be bs)) = bs"
  using nat_be_bound [of bs] be_nat_nat_be [of bs 4]
  by (simp add: unat_of_nat)

lemma unat_be_u128 [byte_simps]: "(of_nat (nat_be (u128_be w)) :: u128) = w"
  using unsigned_less [of w, where 'a = nat] by (simp add: nat_be_be_nat word_unat_eq_iff)

text \<open>\<open>as_chunks\<close>: the whole chunks of a slice, what is left over being dropped.\<close>

function chunks :: "nat \<Rightarrow> 'a list \<Rightarrow> 'a list list" where
  "chunks n bs = (if n = 0 \<or> length bs < n then [] else take n bs # chunks n (drop n bs))"
  by pat_completeness auto
termination
  by (relation "measure (\<lambda>(n, bs). length bs)") auto

declare chunks.simps [simp del]

lemma chunks_concat:
  "0 < n \<Longrightarrow> list_all (\<lambda>x. length x = n) xs \<Longrightarrow> chunks n (concat xs) = xs"
proof (induction xs)
  case Nil
  then show ?case by (subst chunks.simps) simp
next
  case (Cons x xs)
  then show ?case by (subst chunks.simps) auto
qed

lemma chunks_length: "0 < n \<Longrightarrow> list_all (\<lambda>x. length x = n) (chunks n bs) \<and> length (chunks n bs) = length bs div n"
proof (induction n bs rule: chunks.induct)
  case (1 n bs)
  show ?case
  proof (cases "length bs < n")
    case True
    then show ?thesis by (subst (1 2) chunks.simps) simp
  next
    case False
    with 1 have "list_all (\<lambda>x. length x = n) (chunks n (drop n bs)) \<and> length (chunks n (drop n bs)) = (length bs - n) div n"
      by simp
    with False 1 show ?thesis by (subst (1 2) chunks.simps) (simp add: le_div_geq)
  qed
qed

section \<open>Network addresses\<close>

datatype ip_addr = IpV4 u32 | IpV6 u128

definition octets :: "ip_addr \<Rightarrow> bytes" where
  "octets ip = (case ip of IpV4 a \<Rightarrow> u32_be a | IpV6 a \<Rightarrow> u128_be a)"

datatype socket_addr = SocketAddr (addr_ip: ip_addr) (addr_port: u16)

definition is_ipv6 :: "socket_addr \<Rightarrow> bool" where
  "is_ipv6 a = (case addr_ip a of IpV4 _ \<Rightarrow> False | IpV6 _ \<Rightarrow> True)"

section \<open>Byte strings\<close>

definition lit :: "string \<Rightarrow> bytes" where
  "lit s = map (\<lambda>c. of_nat (of_char c)) s"

lemma lit_inject [simp]: "lit s = lit t \<longleftrightarrow> s = t"
proof
  have inj: "inj (\<lambda>c. of_nat (of_char c) :: u8)"
  proof (rule injI)
    fix a b :: char assume "(of_nat (of_char a) :: u8) = of_nat (of_char b)"
    moreover have "of_char c < (256::nat)" for c :: char by simp
    ultimately have "(of_char a :: nat) = of_char b" by (metis unat_of_nat_u8 mod_less)
    then show "a = b" by simp
  qed
  assume "lit s = lit t"
  then show "s = t" using inj by (simp add: lit_def inj_map_eq_map)
qed simp

section \<open>Decimal digits\<close>

text \<open>
  \<open>to_string\<close> of an unsigned integer, and the value of a string of ASCII digits
  (what \<open>str::parse\<close> computes before its range check).
\<close>

fun show_nat :: "nat \<Rightarrow> bytes" where
  "show_nat n = (if n < 10 then [48 + of_nat n] else show_nat (n div 10) @ [48 + of_nat (n mod 10)])"

declare show_nat.simps [simp del]

definition is_digit :: "u8 \<Rightarrow> bool" where
  "is_digit b \<longleftrightarrow> 48 \<le> b \<and> b \<le> 57"

definition dec_val :: "bytes \<Rightarrow> nat" where
  "dec_val bs = foldl (\<lambda>acc b. acc * 10 + (unat b - 48)) 0 bs"

text \<open>No leading zero, except in the single digit itself.\<close>

definition canonical_digits :: "bytes \<Rightarrow> bool" where
  "canonical_digits bs \<longleftrightarrow> bs \<noteq> [] \<and> list_all is_digit bs \<and> (length bs > 1 \<longrightarrow> hd bs \<noteq> 48)"

lemma is_digit_unat: "is_digit b \<longleftrightarrow> 48 \<le> unat b \<and> unat b \<le> 57"
  by (simp add: is_digit_def word_le_nat_alt)

lemma unat_digit [simp]: "d < 10 \<Longrightarrow> unat (48 + of_nat d :: u8) = 48 + d"
  by (simp add: unat_word_ariths unat_of_nat)

lemma dec_val_snoc [simp]: "dec_val (bs @ [b]) = dec_val bs * 10 + (unat b - 48)"
  by (simp add: dec_val_def)

lemma dec_val_Nil [simp]: "dec_val [] = 0"
  by (simp add: dec_val_def)

lemma dec_val_show_nat [simp]: "dec_val (show_nat n) = n"
proof (induction n rule: show_nat.induct)
  case (1 n)
  show ?case
  proof (cases "n < 10")
    case True
    then show ?thesis by (subst show_nat.simps) (simp add: dec_val_def)
  next
    case False
    with 1 show ?thesis by (subst show_nat.simps) simp
  qed
qed

lemma show_nat_nonempty [simp]: "show_nat n \<noteq> []"
  by (subst show_nat.simps) simp

lemma show_nat_digits [simp]: "list_all is_digit (show_nat n)"
proof (induction n rule: show_nat.induct)
  case (1 n)
  show ?case
  proof (cases "n < 10")
    case True
    then show ?thesis by (subst show_nat.simps) (simp add: is_digit_unat)
  next
    case False
    then have "is_digit (48 + of_nat (n mod 10))" by (simp add: is_digit_unat del: of_nat_mod)
    with False 1 show ?thesis by (subst show_nat.simps) simp
  qed
qed

lemma hd_show_nat: "0 < n \<Longrightarrow> hd (show_nat n) \<noteq> 48"
proof (induction n rule: show_nat.induct)
  case (1 n)
  show ?case
  proof (cases "n < 10")
    case True
    with "1.prems" show ?thesis
      by (subst show_nat.simps) (simp add: word_unat_eq_iff unat_digit del: of_nat_add)
  next
    case False
    with 1 have "hd (show_nat (n div 10)) \<noteq> 48" by simp
    with False show ?thesis by (subst show_nat.simps) simp
  qed
qed

lemma show_nat_canonical [simp]: "canonical_digits (show_nat n)"
proof (cases "n = 0")
  case True
  then show ?thesis
    by (simp add: canonical_digits_def show_nat.simps [of 0] is_digit_unat)
next
  case False
  then show ?thesis by (simp add: canonical_digits_def hd_show_nat)
qed

lemma digit_of_unat: "is_digit b \<Longrightarrow> 48 + of_nat (unat b - 48) = b"
  by (simp add: is_digit_unat word_unat_eq_iff)

lemma dec_val_pos:
  "list_all is_digit bs \<Longrightarrow> bs \<noteq> [] \<Longrightarrow> hd bs \<noteq> 48 \<Longrightarrow> 0 < dec_val bs"
proof (induction bs rule: rev_induct)
  case Nil
  then show ?case by simp
next
  case (snoc b bs)
  show ?case
  proof (cases "bs = []")
    case True
    with snoc.prems have "unat b \<noteq> 48" by (simp add: word_unat_eq_iff)
    with True snoc.prems show ?thesis by (simp add: is_digit_unat dec_val_def)
  next
    case False
    with snoc show ?thesis by simp
  qed
qed

lemma show_nat_dec_val: "canonical_digits bs \<Longrightarrow> show_nat (dec_val bs) = bs"
proof (induction bs rule: rev_induct)
  case Nil
  then show ?case by (simp add: canonical_digits_def)
next
  case (snoc b bs)
  from snoc.prems have b: "is_digit b" by (simp add: canonical_digits_def)
  then have d: "unat b - 48 < 10" unfolding is_digit_unat by linarith
  show ?case
  proof (cases "bs = []")
    case True
    with d b show ?thesis
      by (subst show_nat.simps) (simp add: digit_of_unat dec_val_def)
  next
    case False
    with snoc.prems have c: "canonical_digits bs" and "hd bs \<noteq> 48"
      by (auto simp: canonical_digits_def)
    then have "0 < dec_val bs" using dec_val_pos by (simp add: canonical_digits_def)
    then have "\<not> dec_val (bs @ [b]) < 10" by simp
    moreover have "dec_val (bs @ [b]) div 10 = dec_val bs" "dec_val (bs @ [b]) mod 10 = unat b - 48"
      using d by simp_all
    ultimately show ?thesis
      using snoc.IH [OF c] digit_of_unat [OF b] by (subst show_nat.simps) simp
  qed
qed

section \<open>Text\<close>

text \<open>\<open>std::str::from_utf8\<close>: the well-formed byte sequences of the Unicode standard.\<close>

definition utf8_cont :: "u8 \<Rightarrow> bool" where
  "utf8_cont b \<longleftrightarrow> 128 \<le> b \<and> b \<le> 191"

fun valid_utf8 :: "bytes \<Rightarrow> bool" where
  "valid_utf8 [] = True"
| "valid_utf8 (b # bs) =
     (if b < 128 then valid_utf8 bs
      else if 194 \<le> b \<and> b \<le> 223 then
        (case bs of c1 # r \<Rightarrow> utf8_cont c1 \<and> valid_utf8 r | _ \<Rightarrow> False)
      else if 224 \<le> b \<and> b \<le> 239 then
        (case bs of c1 # c2 # r \<Rightarrow>
           utf8_cont c1 \<and> (b = 224 \<longrightarrow> 160 \<le> c1) \<and> (b = 237 \<longrightarrow> c1 \<le> 159) \<and> utf8_cont c2 \<and> valid_utf8 r
         | _ \<Rightarrow> False)
      else if 240 \<le> b \<and> b \<le> 244 then
        (case bs of c1 # c2 # c3 # r \<Rightarrow>
           utf8_cont c1 \<and> (b = 240 \<longrightarrow> 144 \<le> c1) \<and> (b = 244 \<longrightarrow> c1 \<le> 143)
           \<and> utf8_cont c2 \<and> utf8_cont c3 \<and> valid_utf8 r
         | _ \<Rightarrow> False)
      else False)"

lemma valid_utf8_ascii: "list_all (\<lambda>b. b < 128) bs \<Longrightarrow> valid_utf8 bs"
  by (induction bs) auto

text \<open>
  \<open>str::parse::<i64>\<close>: an optional sign, at least one digit, and a value that fits.
  \<open>i64::to_string\<close> writes the sign of a negative number only.
\<close>

definition i64_range :: "int \<Rightarrow> bool" where
  "i64_range i \<longleftrightarrow> - (2 ^ 63) \<le> i \<and> i < 2 ^ 63"

definition parse_i64 :: "bytes \<Rightarrow> int option" where
  "parse_i64 s =
     (case s of [] \<Rightarrow> None
      | c # cs \<Rightarrow>
          let ds = (if c = 45 \<or> c = 43 then cs else s);
              v = (if c = 45 then - int (dec_val ds) else int (dec_val ds))
          in if ds = [] \<or> \<not> list_all is_digit ds then None
             else if i64_range v then Some v else None)"

definition show_int :: "int \<Rightarrow> bytes" where
  "show_int i = (if i < 0 then 45 # show_nat (nat (- i)) else show_nat (nat i))"

section \<open>Contracts shared by the components\<close>

text \<open>
  A codec: what is encoded is read back. Bencode, the uTP packet format and the
  compact address lists promise this.
\<close>

locale codec =
  fixes encode :: "'a \<Rightarrow> 'b" and decode :: "'b \<Rightarrow> 'e + 'a" and wf :: "'a \<Rightarrow> bool"
  assumes decode_encode: "wf x \<Longrightarrow> decode (encode x) = Inr x"
begin

lemma encode_inj: "wf x \<Longrightarrow> wf y \<Longrightarrow> encode x = encode y \<Longrightarrow> x = y"
  using decode_encode by (metis Inr_inject)

end

text \<open>A canonical codec also accepts nothing but encodings.\<close>

locale canonical_codec = codec +
  fixes ok :: "'b \<Rightarrow> bool"
  assumes encode_decode: "ok b \<Longrightarrow> decode b = Inr x \<Longrightarrow> wf x \<and> encode x = b"
begin

lemma decode_iff: "ok b \<Longrightarrow> decode b = Inr x \<longleftrightarrow> wf x \<and> encode x = b"
  using decode_encode encode_decode by blast

lemma decode_inj: "ok b \<Longrightarrow> ok b' \<Longrightarrow> decode b = Inr x \<Longrightarrow> decode b' = Inr x \<Longrightarrow> b = b'"
  using encode_decode by metis

end

text \<open>
  A self-delimiting codec reads one value off the front of a stream and leaves the
  rest; reading repeatedly recovers a whole sequence.
\<close>

primrec read_many :: "('b list \<Rightarrow> 'e + ('a \<times> 'b list)) \<Rightarrow> nat \<Rightarrow> 'b list \<Rightarrow> 'e + ('a list \<times> 'b list)" where
  "read_many rd 0 bs = Inr ([], bs)"
| "read_many rd (Suc n) bs =
     and_then (rd bs) (\<lambda>(x, bs'). and_then (read_many rd n bs') (\<lambda>(xs, bs''). Inr (x # xs, bs'')))"

locale framed_codec =
  fixes encode :: "'a \<Rightarrow> 'b list" and read :: "'b list \<Rightarrow> 'e + ('a \<times> 'b list)" and wf :: "'a \<Rightarrow> bool"
  assumes read_encode: "wf x \<Longrightarrow> read (encode x @ rest) = Inr (x, rest)"
begin

lemma read_many_encode:
  "list_all wf xs \<Longrightarrow> read_many read (length xs) (concat (map encode xs) @ rest) = Inr (xs, rest)"
proof (induction xs)
  case Nil
  then show ?case by simp
next
  case (Cons x xs)
  then show ?case by (simp add: read_encode)
qed

lemma prefix_free:
  assumes "wf x" "wf y" and eq: "encode x @ r = encode y @ r'"
  shows "x = y \<and> r = r'"
proof -
  have "Inr (x, r) = read (encode x @ r)" by (simp only: read_encode [OF assms(1)])
  also have "\<dots> = Inr (y, r')" by (simp only: eq read_encode [OF assms(2)])
  finally show ?thesis by simp
qed

end

text \<open>
  A component behind a lock: whatever the interleaving of its callers, the state is
  the result of some sequence of whole operations.
\<close>

locale machine =
  fixes step :: "'op \<Rightarrow> 's \<Rightarrow> 's" and inv :: "'s \<Rightarrow> bool"
  assumes inv_step: "inv s \<Longrightarrow> inv (step op s)"
begin

lemma inv_run: "inv s \<Longrightarrow> inv (fold step ops s)"
  by (induction ops arbitrary: s) (auto intro: inv_step)

end

text \<open>A machine in which some part of the state only grows.\<close>

locale growing_machine = machine +
  fixes part :: "'s \<Rightarrow> 'x set"
  assumes part_step: "inv s \<Longrightarrow> part s \<subseteq> part (step op s)"
begin

lemma part_run: "inv s \<Longrightarrow> part s \<subseteq> part (fold step ops s)"
proof (induction ops arbitrary: s)
  case Nil
  then show ?case by simp
next
  case (Cons op ops)
  from Cons.prems have "part s \<subseteq> part (step op s)" by (rule part_step)
  also have "\<dots> \<subseteq> part (fold step ops (step op s))"
    using Cons.prems by (intro Cons.IH inv_step)
  finally show ?case by simp
qed

end

end
