(* ===== verification/Bencode.thy ===== *)
theory Bencode
  imports Rust_Prelude
begin

text \<open>
  The bencode codec of \<^verbatim>\<open>src/src/bencode.rs\<close>: the value type, the recursive decoder
  with its depth limit and its strict and lenient modes, and the encoder. The decoder's
  cursor is threaded through explicitly; its nesting counter is an argument, since
  \<open>decode_value\<close> restores it before it returns. A \<open>BTreeMap\<close> is the list of its
  entries in iteration (key) order.

  Results: the decoder always ends (the termination proof below), the encoder's output
  is read back in either mode, strict decoding accepts encodings and nothing else, and
  lenient decoding extends strict decoding.
\<close>

section \<open>Values\<close>

datatype bencode =
    BInt int
  | BBytes bytes
  | BList "bencode list"
  | BDict "(bytes \<times> bencode) list"

definition as_bytes :: "bencode \<Rightarrow> bytes option" where
  "as_bytes v = (case v of BBytes b \<Rightarrow> Some b | _ \<Rightarrow> None)"

definition as_int :: "bencode \<Rightarrow> int option" where
  "as_int v = (case v of BInt i \<Rightarrow> Some i | _ \<Rightarrow> None)"

definition as_list :: "bencode \<Rightarrow> bencode list option" where
  "as_list v = (case v of BList l \<Rightarrow> Some l | _ \<Rightarrow> None)"

definition as_dict :: "bencode \<Rightarrow> (bytes \<times> bencode) list option" where
  "as_dict v = (case v of BDict d \<Rightarrow> Some d | _ \<Rightarrow> None)"

definition get :: "bytes \<Rightarrow> bencode \<Rightarrow> bencode option" where
  "get key v = (case as_dict v of None \<Rightarrow> None | Some d \<Rightarrow> map_of d key)"

definition as_str :: "bencode \<Rightarrow> bytes option" where
  "as_str v = (case as_bytes v of None \<Rightarrow> None | Some b \<Rightarrow> if valid_utf8 b then Some b else None)"

section \<open>The decoder\<close>

datatype decode_error =
    TooDeep
  | UnexpectedEof
  | InvalidDigit u8
  | InvalidTag u8
  | LeadingZero
  | LengthMismatch nat nat
  | TrailingGarbage nat
  | NonUtf8Int
  | UnsortedOrDuplicateKey

record decoder =
  dc_data :: bytes
  dc_pos :: nat
  dc_strict :: bool
  dc_depth :: nat

definition MAX_DEPTH :: nat where "MAX_DEPTH = 100"

definition decoder_new :: "bytes \<Rightarrow> decoder" where
  "decoder_new data = \<lparr>dc_data = data, dc_pos = 0, dc_strict = True, dc_depth = 0\<rparr>"

definition decoder_new_lenient :: "bytes \<Rightarrow> decoder" where
  "decoder_new_lenient data = \<lparr>dc_data = data, dc_pos = 0, dc_strict = False, dc_depth = 0\<rparr>"

definition peek :: "bytes \<Rightarrow> nat \<Rightarrow> decode_error + u8" where
  "peek data pos = (if pos < length data then Inr (data ! pos) else Inl UnexpectedEof)"

definition advance :: "bytes \<Rightarrow> nat \<Rightarrow> nat \<Rightarrow> decode_error + (bytes \<times> nat)" where
  "advance data pos n =
     (if 2 ^ 64 \<le> pos + n then Inl UnexpectedEof
      else if length data < pos + n then Inl (LengthMismatch n (length data - pos))
      else Inr (take n (drop pos data), pos + n))"

text \<open>The digit loop of \<open>parse_signed_until\<close>: the position of the terminator.\<close>

function scan_digits :: "bytes \<Rightarrow> u8 \<Rightarrow> nat \<Rightarrow> decode_error + nat" where
  "scan_digits data terminator pos =
     and_then (peek data pos) (\<lambda>b.
       if b = terminator then Inr pos
       else if \<not> is_digit b then Inl (InvalidDigit b)
       else scan_digits data terminator (pos + 1))"
  by pat_completeness auto
termination
  by (relation "measure (\<lambda>(data, t, pos). length data - pos)")
     (auto simp: peek_def split: if_splits)

declare scan_digits.simps [simp del]

definition parse_signed_until :: "bytes \<Rightarrow> u8 \<Rightarrow> nat \<Rightarrow> decode_error + (int \<times> nat)" where
  "parse_signed_until data terminator start =
     and_then (peek data start) (\<lambda>b.
       let negative = (b = 45);
           digits_start = (if negative then start + 1 else start)
       in and_then (scan_digits data terminator digits_start) (\<lambda>pos.
            let digits = take (pos - digits_start) (drop digits_start data);
                s = take (pos - start) (drop start data)
            in if digits = [] then Inl (InvalidDigit terminator)
               else if 1 < length digits \<and> hd digits = 48 then Inl LeadingZero
               else if digits = [48] \<and> negative then Inl LeadingZero
               else if \<not> valid_utf8 s then Inl NonUtf8Int
               else and_then (ok_or (parse_i64 s) (InvalidDigit terminator)) (\<lambda>i. Inr (i, pos + 1))))"

definition decode_int :: "bytes \<Rightarrow> nat \<Rightarrow> decode_error + (int \<times> nat)" where
  "decode_int data pos = parse_signed_until data 101 (pos + 1)"

definition decode_bytes :: "bytes \<Rightarrow> nat \<Rightarrow> decode_error + (bytes \<times> nat)" where
  "decode_bytes data pos =
     and_then (parse_signed_until data 58 pos) (\<lambda>(len, p).
       if len < 0 then Inl (InvalidDigit 58) else advance data p (nat len))"

text \<open>\<open>map.entry(key).or_insert(value)\<close> on a \<open>BTreeMap\<close>.\<close>

fun or_insert :: "bytes \<Rightarrow> 'v \<Rightarrow> (bytes \<times> 'v) list \<Rightarrow> (bytes \<times> 'v) list" where
  "or_insert k v [] = [(k, v)]"
| "or_insert k v ((k', v') # m) =
     (if k < k' then (k, v) # (k', v') # m
      else if k = k' then (k', v') # m
      else (k', v') # or_insert k v m)"

text \<open>The strict-mode test on a dictionary key against the one before it.\<close>

definition out_of_order :: "bool \<Rightarrow> bytes option \<Rightarrow> bytes \<Rightarrow> bool" where
  "out_of_order strict last_key key \<longleftrightarrow>
     strict \<and> (case last_key of None \<Rightarrow> False | Some prev \<Rightarrow> key \<le> prev)"

definition next_key :: "bool \<Rightarrow> bytes option \<Rightarrow> bytes \<Rightarrow> bytes option" where
  "next_key strict last_key key = (if strict then Some key else last_key)"

function decode_value :: "bytes \<Rightarrow> bool \<Rightarrow> nat \<Rightarrow> nat \<Rightarrow> decode_error + (bencode \<times> nat)"
  and decode_list :: "bytes \<Rightarrow> bool \<Rightarrow> nat \<Rightarrow> nat \<Rightarrow> bencode list \<Rightarrow> decode_error + (bencode list \<times> nat)"
  and decode_dict :: "bytes \<Rightarrow> bool \<Rightarrow> nat \<Rightarrow> nat \<Rightarrow> (bytes \<times> bencode) list \<Rightarrow> bytes option
        \<Rightarrow> decode_error + ((bytes \<times> bencode) list \<times> nat)"
where
  "decode_value data strict depth pos =
     and_then (peek data pos) (\<lambda>tag.
       if tag = 108 \<or> tag = 100 then
         (if MAX_DEPTH \<le> depth then Inl TooDeep
          else if tag = 108
            then and_then (decode_list data strict (depth + 1) (pos + 1) []) (\<lambda>(xs, p). Inr (BList xs, p))
            else and_then (decode_dict data strict (depth + 1) (pos + 1) [] None) (\<lambda>(m, p). Inr (BDict m, p)))
       else if tag = 105 then and_then (decode_int data pos) (\<lambda>(i, p). Inr (BInt i, p))
       else if is_digit tag then and_then (decode_bytes data pos) (\<lambda>(b, p). Inr (BBytes b, p))
       else Inl (InvalidTag tag))"
| "decode_list data strict depth pos items =
     and_then (peek data pos) (\<lambda>b.
       if b = 101 then Inr (items, pos + 1)
       else and_then (decode_value data strict depth pos) (\<lambda>(v, p).
              decode_list data strict depth p (items @ [v])))"
| "decode_dict data strict depth pos entries last_key =
     and_then (peek data pos) (\<lambda>b.
       if b = 101 then Inr (entries, pos + 1)
       else and_then (decode_bytes data pos) (\<lambda>(key, p).
              if out_of_order strict last_key key then Inl UnsortedOrDuplicateKey
              else and_then (decode_value data strict depth p) (\<lambda>(v, p').
                     decode_dict data strict depth p' (or_insert key v entries)
                       (next_key strict last_key key))))"
  by pat_completeness auto

lemma peek_Inr [res_iff]: "peek data pos = Inr b \<longleftrightarrow> pos < length data \<and> b = data ! pos"
  by (auto simp: peek_def)

lemma scan_digits_bound:
  "scan_digits data t pos = Inr p \<Longrightarrow> pos \<le> p \<and> p < length data"
proof (induction data t pos rule: scan_digits.induct)
  case (1 data t pos)
  from "1.prems" have "pos < length data"
    by (subst (asm) scan_digits.simps) (auto simp: res_iff)
  with 1 show ?case
    by (subst (asm) (2) scan_digits.simps) (fastforce simp: res_iff split: if_splits)
qed

lemma parse_signed_until_bound:
  "parse_signed_until data t pos = Inr (i, p) \<Longrightarrow> pos < p \<and> p \<le> length data"
  by (auto simp: parse_signed_until_def Let_def res_iff split: if_splits dest!: scan_digits_bound)

lemma decode_int_bound: "decode_int data pos = Inr (i, p) \<Longrightarrow> pos < p \<and> p \<le> length data"
  by (auto simp: decode_int_def dest!: parse_signed_until_bound)

lemma decode_bytes_bound: "decode_bytes data pos = Inr (b, p) \<Longrightarrow> pos < p \<and> p \<le> length data"
  by (auto simp: decode_bytes_def advance_def res_iff split: if_splits dest!: parse_signed_until_bound)

lemmas leaf_bounds = parse_signed_until_bound decode_int_bound decode_bytes_bound


text \<open>
  A call that returns has moved the cursor forward and kept it inside the buffer. This
  holds wherever the functions are defined, and it is what makes the container loops end.
\<close>

lemma decode_progress_dom:
  "decode_value_decode_list_decode_dict_dom (Inl (data, strict, depth, pos)) \<Longrightarrow>
     decode_value data strict depth pos = Inr (v, p) \<Longrightarrow> pos < p \<and> p \<le> length data"
  "decode_value_decode_list_decode_dict_dom (Inr (Inl (data, strict, depth, pos, items))) \<Longrightarrow>
     decode_list data strict depth pos items = Inr (xs, p) \<Longrightarrow> pos < p \<and> p \<le> length data"
  "decode_value_decode_list_decode_dict_dom (Inr (Inr (data, strict, depth, pos, entries, last_key))) \<Longrightarrow>
     decode_dict data strict depth pos entries last_key = Inr (m, p) \<Longrightarrow> pos < p \<and> p \<le> length data"
proof (induction data strict depth pos and data strict depth pos items
       and data strict depth pos entries last_key
       arbitrary: v p and xs p and m p
       rule: decode_value_decode_list_decode_dict.pinduct)
  case (1 data strict depth pos)
  then show ?case
    by (fastforce simp: decode_value.psimps res_iff split: if_splits dest!: leaf_bounds)
next
  case (2 data strict depth pos items)
  note eq = decode_list.psimps [OF "2.hyps"]
  show ?case
  proof (cases "data ! pos = 101")
    case True
    with "2.prems" show ?thesis by (auto simp: eq res_iff)
  next
    case False
    with "2.prems" obtain v q where
      v: "decode_value data strict depth pos = Inr (v, q)" and pk: "peek data pos = Inr (data ! pos)"
      and r: "decode_list data strict depth q (items @ [v]) = Inr (xs, p)"
      by (auto simp: eq res_iff)
    from "2.IH"(1) [OF pk False v] "2.IH"(2) [OF pk False v refl r] show ?thesis by simp
  qed
next
  case (3 data strict depth pos entries last_key)
  note eq = decode_dict.psimps [OF "3.hyps"]
  show ?case
  proof (cases "data ! pos = 101")
    case True
    with "3.prems" show ?thesis by (auto simp: eq res_iff)
  next
    case False
    with "3.prems" obtain key q v r where
      k: "decode_bytes data pos = Inr (key, q)" and pk: "peek data pos = Inr (data ! pos)"
      and o: "\<not> out_of_order strict last_key key"
      and v: "decode_value data strict depth q = Inr (v, r)"
      and rest: "decode_dict data strict depth r (or_insert key v entries)
                   (next_key strict last_key key) = Inr (m, p)"
      by (auto simp: eq res_iff split: if_splits)
    from decode_bytes_bound [OF k] "3.IH"(1) [OF pk False k refl o v]
      "3.IH"(2) [OF pk False k refl o v refl rest]
    show ?thesis by simp
  qed
qed

lemma decode_total: "All decode_value_decode_list_decode_dict_dom"
proof (relation "measure (\<lambda>x. case x of
    Inl (data, strict, depth, pos) \<Rightarrow> 2 * (length data - pos)
  | Inr (Inl (data, strict, depth, pos, items)) \<Rightarrow> 2 * (length data - pos) + 1
  | Inr (Inr (data, strict, depth, pos, entries, last_key)) \<Rightarrow> 2 * (length data - pos) + 1)",
  goal_cases)
  case (5 data strict depth pos items b x v p)
  then have "pos < p" using decode_progress_dom(1) by metis
  with 5 show ?case by (auto simp: res_iff)
next
  case (6 data strict depth pos entries last_key b x key p)
  then have "pos < p" using decode_bytes_bound by metis
  with 6 show ?case by (auto simp: res_iff)
next
  case (7 data strict depth pos entries last_key b x key p y v p')
  then have "pos < p" "p < p'" using decode_bytes_bound decode_progress_dom(1) by metis+
  with 7 show ?case by (auto simp: res_iff)
qed (auto simp: res_iff)

termination decode_value
  by (rule decode_total)

lemma decode_value_bound: "decode_value data strict depth pos = Inr (v, p) \<Longrightarrow> pos < p \<and> p \<le> length data"
  by (rule decode_progress_dom(1) [OF decode_total [rule_format]])

declare decode_value.simps [simp del] decode_list.simps [simp del] decode_dict.simps [simp del]

definition decode_top_level :: "decoder \<Rightarrow> decode_error + bencode" where
  "decode_top_level d =
     and_then (decode_value (dc_data d) (dc_strict d) (dc_depth d) (dc_pos d)) (\<lambda>(v, p).
       if p \<noteq> length (dc_data d) then Inl (TrailingGarbage p) else Inr v)"

definition decode_value_with_span :: "decoder \<Rightarrow> decode_error + ((bencode \<times> (nat \<times> nat)) \<times> decoder)" where
  "decode_value_with_span d =
     and_then (decode_value (dc_data d) (dc_strict d) (dc_depth d) (dc_pos d)) (\<lambda>(v, p).
       Inr ((v, (dc_pos d, p)), d\<lparr>dc_pos := p\<rparr>))"

definition decode :: "bytes \<Rightarrow> decode_error + bencode" where
  "decode data = decode_top_level (decoder_new data)"

definition decode_lenient :: "bytes \<Rightarrow> decode_error + bencode" where
  "decode_lenient data = decode_top_level (decoder_new_lenient data)"

section \<open>The encoder\<close>

definition put_bytes :: "bytes \<Rightarrow> bytes \<Rightarrow> bytes" where
  "put_bytes b out = ((out @ show_nat (length b)) @ [58]) @ b"

fun encode_into :: "bencode \<Rightarrow> bytes \<Rightarrow> bytes" where
  "encode_into (BInt i) out = ((out @ [105]) @ show_int i) @ [101]"
| "encode_into (BBytes b) out = put_bytes b out"
| "encode_into (BList items) out = fold encode_into items (out @ [108]) @ [101]"
| "encode_into (BDict m) out =
     fold (\<lambda>(k, v) o1. encode_into v (put_bytes k o1)) m (out @ [100]) @ [101]"

definition encode :: "bencode \<Rightarrow> bytes" where
  "encode v = encode_into v []"

definition enc_bytes :: "bytes \<Rightarrow> bytes" where
  "enc_bytes b = show_nat (length b) @ 58 # b"

definition enc_entry :: "bytes \<times> bencode \<Rightarrow> bytes" where
  "enc_entry kv = enc_bytes (fst kv) @ encode (snd kv)"

lemma enc_entry_pair [simp]: "enc_entry (k, v) = enc_bytes k @ encode v"
  by (simp add: enc_entry_def)

lemma put_bytes_append: "put_bytes b out = out @ enc_bytes b"
  by (simp add: put_bytes_def enc_bytes_def)

lemma fold_append: "(\<And>x o1. x \<in> set xs \<Longrightarrow> f x o1 = o1 @ g x) \<Longrightarrow> fold f xs out = out @ concat (map g xs)"
  by (induction xs arbitrary: out) simp_all

lemma encode_into_append: "encode_into v out = out @ encode v"
proof (induction v arbitrary: out)
  case (BInt i)
  show ?case by (simp add: encode_def)
next
  case (BBytes b)
  show ?case by (simp add: encode_def put_bytes_append)
next
  case (BList xs)
  have "fold encode_into xs o1 = o1 @ concat (map encode xs)" for o1
    using BList by (rule fold_append)
  then show ?case by (simp add: encode_def)
next
  case (BDict m)
  have "fold (\<lambda>(k, v) o1. encode_into v (put_bytes k o1)) m o1 = o1 @ concat (map enc_entry m)" for o1
    by (rule fold_append) (auto simp: enc_entry_def put_bytes_append BDict split: prod.splits)
  then show ?case by (simp add: encode_def)
qed

lemma encode_simps:
  "encode (BInt i) = 105 # show_int i @ [101]"
  "encode (BBytes b) = enc_bytes b"
  "encode (BList xs) = 108 # concat (map encode xs) @ [101]"
  "encode (BDict m) = 100 # concat (map enc_entry m) @ [101]"
proof -
  show "encode (BInt i) = 105 # show_int i @ [101]" "encode (BBytes b) = enc_bytes b"
    by (simp_all add: encode_def put_bytes_append)
  have "fold encode_into xs o1 = o1 @ concat (map encode xs)" for o1
    by (rule fold_append) (rule encode_into_append)
  then show "encode (BList xs) = 108 # concat (map encode xs) @ [101]"
    by (simp add: encode_def)
  have "fold (\<lambda>(k, v) o1. encode_into v (put_bytes k o1)) m o1 = o1 @ concat (map enc_entry m)" for o1
    by (rule fold_append) (auto simp: enc_entry_def put_bytes_append encode_into_append split: prod.splits)
  then show "encode (BDict m) = 100 # concat (map enc_entry m) @ [101]"
    by (simp add: encode_def)
qed

section \<open>Reading numbers and byte strings back\<close>

lemma scan_digits_at:
  "drop pos data = ds @ t # rest \<Longrightarrow> list_all is_digit ds \<Longrightarrow> \<not> is_digit t \<Longrightarrow>
     scan_digits data t pos = Inr (pos + length ds)"
proof (induction ds arbitrary: pos)
  case Nil
  then show ?case by (subst scan_digits.simps) (simp add: peek_def drop_eq_Cons)
next
  case (Cons d ds)
  then have "d \<noteq> t" by auto
  moreover from Cons.prems have "drop (Suc pos) data = ds @ t # rest" by (simp add: drop_eq_Cons)
  ultimately show ?case
    using Cons by (subst scan_digits.simps) (simp add: peek_def drop_eq_Cons)
qed

lemma scan_digits_Inr:
  "scan_digits data t pos = Inr p \<Longrightarrow>
     \<exists>ds. drop pos data = ds @ t # drop (Suc p) data \<and> list_all is_digit ds \<and> p = pos + length ds"
proof (induction data t pos rule: scan_digits.induct)
  case (1 data t pos)
  from "1.prems" have pos: "peek data pos = Inr (data ! pos)" and lt: "pos < length data"
    by (subst (asm) scan_digits.simps, auto simp: res_iff)+
  have d: "drop pos data = data ! pos # drop (Suc pos) data"
    using lt by (simp add: Cons_nth_drop_Suc)
  show ?case
  proof (cases "data ! pos = t")
    case True
    with "1.prems" pos have "p = pos" by (subst (asm) scan_digits.simps) simp
    with True d show ?thesis by (intro exI [of _ "[]"]) simp
  next
    case False
    with "1.prems" pos have g: "is_digit (data ! pos)" and r: "scan_digits data t (pos + 1) = Inr p"
      by (subst (asm) scan_digits.simps, simp split: if_splits)+
    from "1.IH" [OF pos False _ r] g obtain ds where
      "drop (pos + 1) data = ds @ t # drop (Suc p) data" "list_all is_digit ds" "p = pos + 1 + length ds"
      by auto
    with g d show ?thesis by (intro exI [of _ "data ! pos # ds"]) simp
  qed
qed

lemma digit_lt_128: "is_digit b \<Longrightarrow> b < 128"
  by (simp add: is_digit_unat word_less_nat_alt)

lemma digits_valid_utf8: "list_all is_digit ds \<Longrightarrow> valid_utf8 ds"
  by (rule valid_utf8_ascii) (auto simp: list_all_iff digit_lt_128)

lemma not_digits [simp]:
  "\<not> is_digit 45" "\<not> is_digit 43" "\<not> is_digit 101" "\<not> is_digit 58"
  "\<not> is_digit 108" "\<not> is_digit 100" "\<not> is_digit 105"
  by (simp_all add: is_digit_def)

lemma digits_no_sign:
  "list_all is_digit ds \<Longrightarrow> ds \<noteq> [] \<Longrightarrow> hd ds \<noteq> 45 \<and> hd ds \<noteq> 43"
  by (cases ds) auto

lemma parse_i64_digits:
  "list_all is_digit ds \<Longrightarrow> ds \<noteq> [] \<Longrightarrow>
     parse_i64 ds = (if i64_range (int (dec_val ds)) then Some (int (dec_val ds)) else None)"
  using digits_no_sign [of ds] by (cases ds) (auto simp: parse_i64_def Let_def)

lemma parse_i64_minus:
  "list_all is_digit ds \<Longrightarrow> ds \<noteq> [] \<Longrightarrow>
     parse_i64 (45 # ds) = (if i64_range (- int (dec_val ds)) then Some (- int (dec_val ds)) else None)"
  by (auto simp: parse_i64_def Let_def)


lemma parse_signed_until_at:
  assumes d: "drop pos data = show_int i @ t # rest" and r: "i64_range i" and t: "\<not> is_digit t"
  shows "parse_signed_until data t pos = Inr (i, pos + length (show_int i) + 1)"
proof (cases "i < 0")
  case True
  let ?ds = "show_nat (nat (- i))"
  have s: "show_int i = 45 # ?ds" using True by (simp add: show_int_def)
  have pk: "peek data pos = Inr 45" and d1: "drop (Suc pos) data = ?ds @ t # rest"
    using d by (simp_all add: s peek_def drop_eq_Cons)
  have sc: "scan_digits data t (pos + 1) = Inr (pos + 1 + length ?ds)"
    using scan_digits_at [of "pos + 1" data ?ds t rest] d1 t by simp
  have z: "?ds \<noteq> [48]"
  proof
    assume "?ds = [48]"
    then have "nat (- i) = 0" using dec_val_show_nat [of "nat (- i)"] by (simp add: dec_val_def)
    with True show False by simp
  qed
  have c: "canonical_digits ?ds" by simp
  have "\<not> length data \<le> Suc pos" using d1 by (metis append_is_Nil_conv drop_all list.distinct(1))
  moreover have "valid_utf8 (45 # ?ds)" by (simp add: digits_valid_utf8)
  ultimately show ?thesis using pk sc d d1 z c r True
    by (simp add: parse_signed_until_def Let_def s canonical_digits_def parse_i64_minus)
next
  case False
  let ?ds = "show_nat (nat i)"
  have s: "show_int i = ?ds" using False by (simp add: show_int_def)
  have sc: "scan_digits data t pos = Inr (pos + length ?ds)"
    using scan_digits_at [of pos data ?ds t rest] d t s by simp
  have c: "canonical_digits ?ds" by simp
  obtain x xs where x: "?ds = x # xs" by (cases ?ds) auto
  then have pk: "peek data pos = Inr x" using d by (simp add: s peek_def drop_eq_Cons)
  have "x \<noteq> 45" using digits_no_sign [of ?ds] show_nat_digits [of "nat i"] x by simp
  moreover have "valid_utf8 ?ds" by (simp add: digits_valid_utf8)
  moreover have "\<not> length data \<le> pos" using pk by (simp add: peek_Inr)
  ultimately show ?thesis
    using pk sc d c r False
    by (simp add: parse_signed_until_def Let_def s canonical_digits_def parse_i64_digits)
qed

lemma parse_signed_until_Inr:
  assumes p: "parse_signed_until data t pos = Inr (i, p)" and t: "\<not> is_digit t" "t \<noteq> 45"
  shows "drop pos data = show_int i @ t # drop p data \<and> i64_range i"
proof (cases "data ! pos = 45")
  case True
  with p have pk: "peek data pos = Inr 45" by (auto simp: parse_signed_until_def Let_def res_iff)
  with p obtain q where sc: "scan_digits data t (pos + 1) = Inr q"
    by (auto simp: parse_signed_until_def Let_def res_iff)
  from scan_digits_Inr [OF sc] obtain ds where
    d1: "drop (pos + 1) data = ds @ t # drop (Suc q) data" and ds: "list_all is_digit ds"
    and q: "q = pos + 1 + length ds" by blast
  have d: "drop pos data = 45 # ds @ t # drop (Suc q) data"
    using pk d1 by (auto simp: drop_eq_Cons peek_Inr)
  from p pk sc d d1 q have ne: "ds \<noteq> []" "\<not> (1 < length ds \<and> hd ds = 48)" "ds \<noteq> [48]"
    and pi: "parse_i64 (45 # ds) = Some i" and pq: "p = q + 1"
    by (auto simp: parse_signed_until_def Let_def res_iff split: if_splits)
  from ne ds have c: "canonical_digits ds" by (auto simp: canonical_digits_def)
  from ne have "hd ds \<noteq> 48" by (cases ds; cases "tl ds") auto
  with ne ds have "0 < dec_val ds" by (intro dec_val_pos) auto
  with pi ne ds c have "show_int i = 45 # ds" "i64_range i"
    by (auto simp: parse_i64_minus show_int_def show_nat_dec_val split: if_splits)
  with d pq show ?thesis by simp
next
  case False
  with p have pk: "peek data pos = Inr (data ! pos)" by (auto simp: parse_signed_until_def res_iff)
  with p False obtain q where sc: "scan_digits data t pos = Inr q"
    by (auto simp: parse_signed_until_def Let_def res_iff)
  from scan_digits_Inr [OF sc] obtain ds where
    d: "drop pos data = ds @ t # drop (Suc q) data" and ds: "list_all is_digit ds"
    and q: "q = pos + length ds" by blast
  from p pk sc d q False have ne: "ds \<noteq> []" "\<not> (1 < length ds \<and> hd ds = 48)"
    and pi: "parse_i64 ds = Some i" and pq: "p = q + 1"
    by (auto simp: parse_signed_until_def Let_def res_iff split: if_splits)
  from ne ds have c: "canonical_digits ds" by (auto simp: canonical_digits_def)
  with pi ne ds have "show_int i = ds" "i64_range i"
    by (auto simp: parse_i64_digits show_int_def show_nat_dec_val split: if_splits)
  with d pq show ?thesis by simp
qed

lemma decode_bytes_at:
  assumes d: "drop pos data = enc_bytes b @ rest" and len: "length data < 2 ^ 63"
  shows "decode_bytes data pos = Inr (b, pos + length (enc_bytes b))"
proof -
  have l: "pos + length (enc_bytes b) + length rest = length data"
    using d by (intro drop_append_length) (simp_all add: enc_bytes_def)
  then have b: "length b < 2 ^ 63" using len by (simp add: enc_bytes_def)
  let ?n = "length (show_nat (length b))"
  have d': "drop pos data = show_int (int (length b)) @ 58 # b @ rest"
    using d by (simp add: show_int_def enc_bytes_def)
  have "parse_signed_until data 58 pos = Inr (int (length b), pos + ?n + 1)"
    using parse_signed_until_at [OF d'] b by (simp add: i64_range_def show_int_def)
  moreover have "drop (pos + ?n + 1) data = b @ rest"
    using drop_appendD [of pos data "show_nat (length b) @ [58]" "b @ rest"] d by (simp add: enc_bytes_def)
  ultimately show ?thesis
    using l len by (simp add: decode_bytes_def advance_def enc_bytes_def)
qed

lemma decode_bytes_Inr:
  assumes "decode_bytes data pos = Inr (b, p)"
  shows "drop pos data = enc_bytes b @ drop p data \<and> p \<le> length data"
proof -
  from assms obtain i q where s: "parse_signed_until data 58 pos = Inr (i, q)" and "0 \<le> i"
    and a: "advance data q (nat i) = Inr (b, p)"
    by (auto simp: decode_bytes_def res_iff split: if_splits)
  from parse_signed_until_Inr [OF s] have "drop pos data = show_int i @ 58 # drop q data"
    by simp
  moreover from a have "length b = nat i" "drop q data = b @ drop p data" "p \<le> length data"
    by (auto simp: advance_def split: if_splits) (metis add.commute append_take_drop_id drop_drop)
  ultimately show ?thesis using \<open>0 \<le> i\<close> by (simp add: enc_bytes_def show_int_def)
qed


section \<open>Well-formed values\<close>

text \<open>
  What a Rust \<open>Bencode\<close> value is by construction (64-bit integers, a map's keys in
  strictly ascending order), and how deeply its containers may nest.
\<close>

definition sorted_keys :: "(bytes \<times> 'v) list \<Rightarrow> bool" where
  "sorted_keys m \<longleftrightarrow> sorted_wrt (<) (map fst m)"

fun wf_bencode :: "bencode \<Rightarrow> bool" where
  "wf_bencode (BInt i) \<longleftrightarrow> i64_range i"
| "wf_bencode (BBytes b) \<longleftrightarrow> True"
| "wf_bencode (BList xs) \<longleftrightarrow> list_all wf_bencode xs"
| "wf_bencode (BDict m) \<longleftrightarrow> sorted_keys m \<and> list_all (\<lambda>(k, v). wf_bencode v) m"

fun fits :: "nat \<Rightarrow> bencode \<Rightarrow> bool" where
  "fits n (BInt i) \<longleftrightarrow> True"
| "fits n (BBytes b) \<longleftrightarrow> True"
| "fits 0 (BList xs) \<longleftrightarrow> False"
| "fits (Suc n) (BList xs) \<longleftrightarrow> list_all (fits n) xs"
| "fits 0 (BDict m) \<longleftrightarrow> False"
| "fits (Suc n) (BDict m) \<longleftrightarrow> list_all (\<lambda>(k, v). fits n v) m"

definition wire_ok :: "bencode \<Rightarrow> bool" where
  "wire_ok v \<longleftrightarrow> wf_bencode v \<and> fits MAX_DEPTH v \<and> length (encode v) < 2 ^ 63"

abbreviation slice_ok :: "bytes \<Rightarrow> bool" where
  "slice_ok b \<equiv> length b < 2 ^ 63"

lemma sorted_keys_simps [simp]:
  "sorted_keys []"
  "sorted_keys ((k, v) # m) \<longleftrightarrow> (\<forall>k' \<in> fst ` set m. k < k') \<and> sorted_keys m"
  by (auto simp: sorted_keys_def)

lemma sorted_keys_append:
  "sorted_keys (m @ m') \<longleftrightarrow> sorted_keys m \<and> sorted_keys m' \<and>
     (\<forall>k \<in> fst ` set m. \<forall>k' \<in> fst ` set m'. k < k')"
  by (auto simp: sorted_keys_def sorted_wrt_append)

lemma set_or_insert: "fst ` set (or_insert k v m) = insert k (fst ` set m)"
  by (induction k v m rule: or_insert.induct) auto

lemma sorted_or_insert: "sorted_keys m \<Longrightarrow> sorted_keys (or_insert k v m)"
proof (induction k v m rule: or_insert.induct)
  case (2 k v k' v' m)
  then show ?case using set_or_insert [of k v m] by auto
qed simp

lemma or_insert_snoc: "(\<forall>k' \<in> fst ` set m. k' < k) \<Longrightarrow> or_insert k v m = m @ [(k, v)]"
  by (induction k v m rule: or_insert.induct) auto

lemma or_insert_values: "set (or_insert k v m) \<subseteq> insert (k, v) (set m)"
  by (induction k v m rule: or_insert.induct) auto

lemma map_of_or_insert:
  "sorted_keys m \<Longrightarrow>
     map_of (or_insert k v m) = (\<lambda>x. if x = k \<and> map_of m k = None then Some v else map_of m x)"
proof (induction k v m rule: or_insert.induct)
  case (2 k v k' v' m)
  have "map_of m k = None" if "k < k'"
    using that 2(2) by (auto simp: map_of_eq_None_iff)
  with 2 show ?case by (auto simp: fun_eq_iff)
qed auto

lemma encode_head: "\<exists>b bs. encode v = b # bs \<and> b \<noteq> 101"
proof (cases v)
  case (BBytes b)
  obtain d ds where d: "show_nat (length b) = d # ds" by (cases "show_nat (length b)") auto
  then have "is_digit d" using show_nat_digits [of "length b"] by simp
  then have "d \<noteq> 101" by auto
  with d BBytes show ?thesis by (simp add: encode_simps enc_bytes_def)
qed (simp_all add: encode_simps)

lemma enc_bytes_head: "\<exists>d ds. enc_bytes b = d # ds \<and> is_digit d"
proof -
  obtain d ds where d: "show_nat (length b) = d # ds" by (cases "show_nat (length b)") auto
  then show ?thesis using show_nat_digits [of "length b"] by (simp add: enc_bytes_def)
qed

section \<open>Decoding what was encoded\<close>

lemma decode_list_at:
  assumes "\<And>x pos rest. x \<in> set xs \<Longrightarrow> drop pos data = encode x @ rest \<Longrightarrow>
             decode_value data strict depth pos = Inr (x, pos + length (encode x))"
    and "drop pos data = concat (map encode xs) @ 101 # rest"
  shows "decode_list data strict depth pos items =
           Inr (items @ xs, pos + length (concat (map encode xs)) + 1)"
  using assms
proof (induction xs arbitrary: pos items)
  case Nil
  then show ?case by (subst decode_list.simps) (simp add: peek_def drop_eq_Cons)
next
  case (Cons x xs)
  from Cons.prems(2) have d: "drop pos data = encode x @ concat (map encode xs) @ 101 # rest" by simp
  obtain b bs where b: "encode x = b # bs" "b \<noteq> 101" using encode_head by blast
  then have pk: "peek data pos = Inr b" using d by (simp add: peek_def drop_eq_Cons)
  have v: "decode_value data strict depth pos = Inr (x, pos + length (encode x))"
    using Cons.prems(1) d by simp
  have r: "decode_list data strict depth (pos + length (encode x)) (items @ [x]) =
      Inr ((items @ [x]) @ xs, pos + length (encode x) + length (concat (map encode xs)) + 1)"
    using Cons.prems(1) drop_appendD [OF d] by (intro Cons.IH) auto
  show ?case using pk b v r by (subst decode_list.simps) simp
qed

lemma decode_dict_at:
  assumes "\<And>k v pos rest. (k, v) \<in> set m \<Longrightarrow> drop pos data = encode v @ rest \<Longrightarrow>
             decode_value data strict depth pos = Inr (v, pos + length (encode v))"
    and "drop pos data = concat (map enc_entry m) @ 101 # rest" and "slice_ok data"
    and "\<And>key v m' m''. m = m' @ (key, v) # m'' \<Longrightarrow>
           \<not> out_of_order strict (fold (\<lambda>(k, v) l. next_key strict l k) m' last_key) key"
  shows "decode_dict data strict depth pos entries last_key =
           Inr (fold (\<lambda>(k, v) e. or_insert k v e) m entries, pos + length (concat (map enc_entry m)) + 1)"
  using assms
proof (induction m arbitrary: pos entries last_key)
  case Nil
  then show ?case by (subst decode_dict.simps) (simp add: peek_def drop_eq_Cons)
next
  case (Cons kv m)
  obtain k v where kv: "kv = (k, v)" by (cases kv)
  from Cons.prems(2) kv have d: "drop pos data = enc_bytes k @ encode v @ concat (map enc_entry m) @ 101 # rest"
    by simp
  obtain b bs where b: "enc_bytes k = b # bs" "is_digit b" using enc_bytes_head by blast
  then have pk: "peek data pos = Inr b" and b101: "b \<noteq> 101"
    using d by (auto simp: peek_def drop_eq_Cons)
  note key = decode_bytes_at [OF d Cons.prems(3)]
  from drop_appendD [OF d] have d1:
    "drop (pos + length (enc_bytes k)) data = encode v @ concat (map enc_entry m) @ 101 # rest" .
  have v: "decode_value data strict depth (pos + length (enc_bytes k)) =
      Inr (v, pos + length (enc_bytes k) + length (encode v))"
    by (rule Cons.prems(1) [of k, OF _ d1]) (simp add: kv)
  have o: "\<not> out_of_order strict last_key k" using Cons.prems(4) [of "[]" k v m] kv by simp
  have r: "decode_dict data strict depth (pos + length (enc_bytes k) + length (encode v))
        (or_insert k v entries) (next_key strict last_key k) =
      Inr (fold (\<lambda>(k, v) e. or_insert k v e) m (or_insert k v entries),
        pos + length (enc_bytes k) + length (encode v) + length (concat (map enc_entry m)) + 1)"
  proof (rule Cons.IH)
    show "drop (pos + length (enc_bytes k) + length (encode v)) data = concat (map enc_entry m) @ 101 # rest"
      using drop_appendD [OF d1] .
    show "\<not> out_of_order strict (fold (\<lambda>(k, v) l. next_key strict l k) m' (next_key strict last_key k)) key"
      if "m = m' @ (key, w) # m''" for key w m' m''
      using Cons.prems(4) [of "kv # m'" key w m''] that kv by simp
  qed (use Cons.prems in auto)
  show ?case using pk b101 key o v r kv
    by (subst decode_dict.simps) simp
qed


text \<open>In a strictly sorted map the order check never fires and every key is new.\<close>

lemma fold_next_key_strict:
  "fold (\<lambda>(k, v) l. next_key True l k) m l = (if m = [] then l else Some (fst (last m)))"
  by (induction m arbitrary: l) (auto simp: next_key_def split: prod.splits)

lemma sorted_not_out_of_order:
  assumes "sorted_keys m" and "m = m' @ (key, v) # m''"
  shows "\<not> out_of_order strict (fold (\<lambda>(k, v) l. next_key strict l k) m' None) key"
proof (cases "strict \<and> m' \<noteq> []")
  case True
  then have "fst (last m') \<in> fst ` set m'" by simp
  with assms have "fst (last m') < key" by (auto simp: sorted_keys_append)
  with True show ?thesis by (simp add: out_of_order_def fold_next_key_strict)
next
  case False
  then show ?thesis by (auto simp: out_of_order_def)
qed

lemma fold_or_insert_sorted:
  "sorted_keys (e @ m) \<Longrightarrow> fold (\<lambda>(k, v) e. or_insert k v e) m e = e @ m"
proof (induction m arbitrary: e)
  case (Cons kv m)
  obtain k v where kv: "kv = (k, v)" by (cases kv)
  with Cons.prems have "or_insert k v e = e @ [(k, v)]"
    by (intro or_insert_snoc) (auto simp: sorted_keys_append)
  with Cons.IH [of "e @ [(k, v)]"] Cons.prems kv show ?case by simp
qed simp

lemma decode_value_at:
  "drop pos data = encode v @ rest \<Longrightarrow> wf_bencode v \<Longrightarrow> fits n v \<Longrightarrow> depth + n = MAX_DEPTH \<Longrightarrow>
     slice_ok data \<Longrightarrow> decode_value data strict depth pos = Inr (v, pos + length (encode v))"
proof (induction v arbitrary: pos rest n depth)
  case (BInt i)
  then have d: "drop (Suc pos) data = show_int i @ 101 # rest" and pk: "peek data pos = Inr 105"
    by (simp_all add: encode_simps drop_eq_Cons peek_def)
  have "decode_int data pos = Inr (i, pos + length (show_int i) + 2)"
    using parse_signed_until_at [OF d] BInt.prems by (simp add: decode_int_def)
  with pk show ?case by (subst decode_value.simps) (simp add: encode_simps)
next
  case (BBytes b)
  then have d: "drop pos data = enc_bytes b @ rest" by (simp add: encode_simps)
  obtain x xs where x: "enc_bytes b = x # xs" "is_digit x" using enc_bytes_head by blast
  then have pk: "peek data pos = Inr x" and t: "x \<noteq> 108" "x \<noteq> 100" "x \<noteq> 105"
    using d by (auto simp: peek_def drop_eq_Cons)
  from decode_bytes_at [OF d] BBytes.prems pk t x show ?case
    by (subst decode_value.simps) (simp add: encode_simps)
next
  case (BList xs)
  from BList.prems obtain n' where n: "n = Suc n'" by (cases n) auto
  have d: "drop (Suc pos) data = concat (map encode xs) @ 101 # rest" and pk: "peek data pos = Inr 108"
    using BList.prems(1) by (simp_all add: encode_simps drop_eq_Cons peek_def)
  have "decode_value data strict (Suc depth) p = Inr (x, p + length (encode x))"
    if "x \<in> set xs" "drop p data = encode x @ r" for x p r
    using that BList.prems n by (intro BList.IH [where n = n' and rest = r]) (auto simp: list_all_iff)
  then have "decode_list data strict (Suc depth) (Suc pos) [] =
      Inr (xs, Suc pos + length (concat (map encode xs)) + 1)"
    using decode_list_at [OF _ d] by simp
  with pk BList.prems(4) n show ?case by (subst decode_value.simps) (simp add: encode_simps)
next
  case (BDict m)
  from BDict.prems obtain n' where n: "n = Suc n'" by (cases n) auto
  have d: "drop (Suc pos) data = concat (map enc_entry m) @ 101 # rest" and pk: "peek data pos = Inr 100"
    using BDict.prems(1) by (simp_all add: encode_simps drop_eq_Cons peek_def)
  have v: "decode_value data strict (Suc depth) p = Inr (x, p + length (encode x))"
    if "(k, x) \<in> set m" "drop p data = encode x @ r" for k x p r
    using BDict.IH [of "(k, x)" x p r n' "Suc depth"] that BDict.prems n by (auto simp: list_all_iff)
  have sk: "sorted_keys m" using BDict.prems(2) by simp
  have "decode_dict data strict (Suc depth) (Suc pos) [] None =
      Inr (fold (\<lambda>(k, v) e. or_insert k v e) m [], Suc pos + length (concat (map enc_entry m)) + 1)"
    by (rule decode_dict_at [OF _ d BDict.prems(5)])
       (erule (1) v, erule sorted_not_out_of_order [OF sk])
  then have "decode_dict data strict (Suc depth) (Suc pos) [] None =
      Inr (m, Suc pos + length (concat (map enc_entry m)) + 1)"
    using fold_or_insert_sorted [of "[]" m] sk by simp
  with pk BDict.prems(4) n show ?case by (subst decode_value.simps) (simp add: encode_simps)
qed

lemma decode_top_level_encode:
  assumes "wire_ok v"
  shows "decode (encode v) = Inr v" "decode_lenient (encode v) = Inr v"
proof -
  have "decode_value (encode v) strict 0 0 = Inr (v, length (encode v))" for strict
    using decode_value_at [of 0 "encode v" v "[]" MAX_DEPTH 0 strict] assms by (simp add: wire_ok_def)
  then show "decode (encode v) = Inr v" "decode_lenient (encode v) = Inr v"
    by (simp_all add: decode_def decode_lenient_def decode_top_level_def decoder_new_def decoder_new_lenient_def)
qed


section \<open>What a successful decode says about the input\<close>

text \<open>
  The size of a map's encoding, the order of its keys and the strict-mode cursor: the
  state of the dictionary loop.
\<close>

definition dict_size :: "(bytes \<times> bencode) list \<Rightarrow> nat" where
  "dict_size m = length (concat (map enc_entry m))"

definition good :: "nat \<Rightarrow> bencode \<Rightarrow> bool" where
  "good depth v \<longleftrightarrow> wf_bencode v \<and> fits (MAX_DEPTH - depth) v"

definition dict_inv :: "bool \<Rightarrow> nat \<Rightarrow> (bytes \<times> bencode) list \<Rightarrow> bytes option \<Rightarrow> bool" where
  "dict_inv strict depth m l \<longleftrightarrow> sorted_keys m \<and> (\<forall>kv \<in> set m. good depth (snd kv)) \<and>
     (strict \<longrightarrow> l = (if m = [] then None else Some (fst (last m))))"

lemma dict_size_simps [simp]:
  "dict_size [] = 0"
  "dict_size (kv # m) = length (enc_entry kv) + dict_size m"
  by (simp_all add: dict_size_def)

lemma dict_size_or_insert: "dict_size (or_insert k v m) \<le> length (enc_entry (k, v)) + dict_size m"
  by (induction k v m rule: or_insert.induct) auto

lemma sorted_keys_last: "sorted_keys m \<Longrightarrow> k \<in> fst ` set m \<Longrightarrow> k \<le> fst (last m)"
  by (induction m rule: rev_induct) (auto simp: sorted_keys_append less_imp_le)

lemma dict_inv_step:
  assumes "dict_inv strict depth m l" and "\<not> out_of_order strict l k" and "good depth v"
  shows "dict_inv strict depth (or_insert k v m) (next_key strict l k)"
    and "strict \<Longrightarrow> or_insert k v m = m @ [(k, v)]"
proof -
  show app: "or_insert k v m = m @ [(k, v)]" if strict
  proof (rule or_insert_snoc, rule ballI)
    fix k' assume k': "k' \<in> fst ` set m"
    then have "k' \<le> fst (last m)" using assms(1) by (intro sorted_keys_last) (auto simp: dict_inv_def)
    moreover have "m \<noteq> []" using k' by auto
    then have "fst (last m) < k" using assms(1,2) that by (auto simp: dict_inv_def out_of_order_def)
    ultimately show "k' < k" by simp
  qed
  have "sorted_keys (or_insert k v m)" using assms(1) by (simp add: dict_inv_def sorted_or_insert)
  moreover have "\<forall>kv \<in> set (or_insert k v m). good depth (snd kv)"
    using assms(1,3) or_insert_values [of k v m] by (fastforce simp: dict_inv_def)
  ultimately show "dict_inv strict depth (or_insert k v m) (next_key strict l k)"
    using app by (auto simp: dict_inv_def next_key_def)
qed

lemma peek_cons: "peek data pos = Inr b \<Longrightarrow> drop pos data = b # drop (Suc pos) data"
  by (simp add: peek_Inr Cons_nth_drop_Suc)

lemma good_leaf [simp]: "good depth (BBytes b)" "good depth (BInt i) \<longleftrightarrow> i64_range i"
  by (simp_all add: good_def)

lemma depth_below: "depth < MAX_DEPTH \<Longrightarrow> MAX_DEPTH - depth = Suc (MAX_DEPTH - Suc depth)"
  by simp

lemma good_list: "depth < MAX_DEPTH \<Longrightarrow> \<forall>x \<in> set xs. good (Suc depth) x \<Longrightarrow> good depth (BList xs)"
  unfolding good_def by (subst depth_below) (auto simp: list_all_iff)

lemma good_dict:
  "depth < MAX_DEPTH \<Longrightarrow> \<forall>kv \<in> set m. good (Suc depth) (snd kv) \<Longrightarrow> sorted_keys m \<Longrightarrow> good depth (BDict m)"
  unfolding good_def by (subst depth_below) (auto simp: list_all_iff)

lemma decode_sound:
  "decode_value data strict depth pos = Inr (v, p) \<Longrightarrow>
     good depth v \<and> pos + length (encode v) \<le> p \<and> (strict \<longrightarrow> drop pos data = encode v @ drop p data)"
  "decode_list data strict depth pos items = Inr (xs, p) \<Longrightarrow>
     \<exists>ys. xs = items @ ys \<and> (\<forall>y \<in> set ys. good depth y) \<and> pos + length (concat (map encode ys)) + 1 \<le> p \<and>
       (strict \<longrightarrow> drop pos data = concat (map encode ys) @ 101 # drop p data)"
  "decode_dict data strict depth pos entries last_key = Inr (m, p) \<Longrightarrow>
     dict_inv strict depth entries last_key \<Longrightarrow>
     (\<forall>kv \<in> set m. good depth (snd kv)) \<and> sorted_keys m \<and> pos + dict_size m + 1 \<le> p + dict_size entries \<and>
       (strict \<longrightarrow> (\<exists>ys. m = entries @ ys \<and> drop pos data = concat (map enc_entry ys) @ 101 # drop p data))"
proof (induction data strict depth pos and data strict depth pos items
       and data strict depth pos entries last_key
       arbitrary: v p and xs p and m p
       rule: decode_value_decode_list_decode_dict.induct)
  case (1 data strict depth pos)
  let ?b = "data ! pos"
  from "1.prems" have pk: "peek data pos = Inr ?b"
    by (subst (asm) decode_value.simps) (auto simp: res_iff)
  note pd = peek_cons [OF pk]
  consider (list) "?b = 108" | (dict) "?b = 100" | (int) "?b = 105" | (str) "is_digit ?b"
    using "1.prems" pk by (subst (asm) decode_value.simps) (auto split: if_splits)
  then show ?case
  proof cases
    case list
    with "1.prems" pk obtain xs where deep: "\<not> MAX_DEPTH \<le> depth" and v: "v = BList xs"
      and l: "decode_list data strict (depth + 1) (pos + 1) [] = Inr (xs, p)"
      by (subst (asm) decode_value.simps) (auto simp: res_iff split: if_splits)
    from "1.IH"(1) [OF pk _ deep list l] list show ?thesis
      using deep pd by (auto simp: v encode_simps intro!: good_list)
  next
    case dict
    with "1.prems" pk obtain m where deep: "\<not> MAX_DEPTH \<le> depth" and v: "v = BDict m"
      and l: "decode_dict data strict (depth + 1) (pos + 1) [] None = Inr (m, p)"
      by (subst (asm) decode_value.simps) (auto simp: res_iff split: if_splits)
    from "1.IH"(2) [OF pk _ deep _ l] dict show ?thesis
      using deep pd by (auto simp: v encode_simps dict_inv_def dict_size_def intro!: good_dict)
  next
    case int
    with "1.prems" pk obtain i where v: "v = BInt i" and i: "parse_signed_until data 101 (pos + 1) = Inr (i, p)"
      by (subst (asm) decode_value.simps) (auto simp: decode_int_def res_iff)
    from parse_signed_until_Inr [OF i] parse_signed_until_bound [OF i] show ?thesis
      using int pd drop_drop_length [of "pos + 1" data "show_int i @ [101]" p]
      by (auto simp: v encode_simps)
  next
    case str
    then have "?b \<noteq> 108" "?b \<noteq> 100" "?b \<noteq> 105" by auto
    with str "1.prems" pk obtain b where v: "v = BBytes b" and b: "decode_bytes data pos = Inr (b, p)"
      by (subst (asm) decode_value.simps) (auto simp: res_iff)
    from decode_bytes_Inr [OF b] decode_bytes_bound [OF b] show ?thesis
      using drop_drop_length [of pos data "enc_bytes b" p] by (simp add: v encode_simps)
  qed
next
  case (2 data strict depth pos items)
  from "2.prems" have pk: "peek data pos = Inr (data ! pos)"
    by (subst (asm) decode_list.simps) (auto simp: res_iff)
  show ?case
  proof (cases "data ! pos = 101")
    case True
    with "2.prems" pk peek_cons [OF pk] show ?thesis
      by (subst (asm) decode_list.simps) auto
  next
    case False
    with "2.prems" pk obtain v q where v: "decode_value data strict depth pos = Inr (v, q)"
      and r: "decode_list data strict depth q (items @ [v]) = Inr (xs, p)"
      by (subst (asm) decode_list.simps) (auto simp: res_iff)
    from "2.IH"(2) [OF pk False v refl r] obtain ys where "xs = (items @ [v]) @ ys"
      "\<forall>y \<in> set ys. good depth y" "q + length (concat (map encode ys)) + 1 \<le> p"
      "strict \<longrightarrow> drop q data = concat (map encode ys) @ 101 # drop p data" by blast
    with "2.IH"(1) [OF pk False v] show ?thesis by (intro exI [of _ "v # ys"]) auto
  qed
next
  case (3 data strict depth pos entries last_key)
  from "3.prems" have pk: "peek data pos = Inr (data ! pos)"
    by (subst (asm) decode_dict.simps) (auto simp: res_iff)
  show ?case
  proof (cases "data ! pos = 101")
    case True
    with "3.prems" pk peek_cons [OF pk] show ?thesis
      by (subst (asm) decode_dict.simps) (auto simp: dict_inv_def)
  next
    case False
    with "3.prems"(1) pk obtain key q v r where k: "decode_bytes data pos = Inr (key, q)"
      and o: "\<not> out_of_order strict last_key key"
      and v: "decode_value data strict depth q = Inr (v, r)"
      and rest: "decode_dict data strict depth r (or_insert key v entries)
                   (next_key strict last_key key) = Inr (m, p)"
      by (subst (asm) decode_dict.simps) (auto simp: res_iff split: if_splits)
    from "3.IH"(1) [OF pk False k refl o v] have gv: "good depth v" "q + length (encode v) \<le> r"
      "strict \<longrightarrow> drop q data = encode v @ drop r data" by auto
    note st = dict_inv_step [OF "3.prems"(2) o gv(1)]
    from decode_bytes_Inr [OF k] decode_bytes_bound [OF k] have kd:
      "drop pos data = enc_bytes key @ drop q data" "pos + length (enc_bytes key) \<le> q"
      using drop_drop_length [of pos data "enc_bytes key" q] by auto
    from "3.IH"(2) [OF pk False k refl o v refl rest st(1)] st(2) kd gv(2,3)
      dict_size_or_insert [of key v entries]
    show ?thesis by (auto simp: dict_size_def)
  qed
qed


section \<open>The codec's contracts\<close>

lemma decode_Inr_iff:
  "decode data = Inr v \<longleftrightarrow> decode_value data True 0 0 = Inr (v, length data)"
  "decode_lenient data = Inr v \<longleftrightarrow> decode_value data False 0 0 = Inr (v, length data)"
  by (auto simp: decode_def decode_lenient_def decode_top_level_def decoder_new_def
      decoder_new_lenient_def res_iff split: if_splits)

interpretation strict_bencode: canonical_codec encode decode wire_ok "\<lambda>b. slice_ok b"
proof
  show "decode (encode v) = Inr v" if "wire_ok v" for v
    using that by (rule decode_top_level_encode)
  show "wire_ok v \<and> encode v = data" if "slice_ok data" "decode data = Inr v" for data v
    using decode_sound(1) [of data True 0 0 v "length data"] that
    by (auto simp: decode_Inr_iff wire_ok_def good_def)
qed

interpretation lenient_bencode: codec encode decode_lenient wire_ok
  by standard (rule decode_top_level_encode)

lemma lenient_wire_ok:
  assumes "slice_ok data" and "decode_lenient data = Inr v"
  shows "wire_ok v \<and> length (encode v) \<le> length data"
  using decode_sound(1) [of data False 0 0 v "length data"] assms
  by (auto simp: decode_Inr_iff wire_ok_def good_def)

lemma nested_too_deep:
  "drop pos data = replicate (Suc n) 108 @ rest \<Longrightarrow> depth + n = MAX_DEPTH \<Longrightarrow>
     decode_value data strict depth pos = Inl TooDeep"
proof (induction n arbitrary: depth pos)
  case 0
  then show ?case by (subst decode_value.simps) (simp add: peek_def drop_eq_Cons)
next
  case (Suc n)
  from Suc.prems(1) have d: "drop (Suc pos) data = replicate (Suc n) 108 @ rest" and pk: "peek data pos = Inr 108"
    by (simp_all add: peek_def drop_eq_Cons)
  have "decode_value data strict (Suc depth) (Suc pos) = Inl TooDeep"
    using Suc.IH [OF d] Suc.prems(2) by simp
  moreover have "peek data (Suc pos) = Inr 108"
    using d by (simp add: peek_def drop_eq_Cons)
  ultimately have "decode_list data strict (Suc depth) (Suc pos) [] = Inl TooDeep"
    by (subst decode_list.simps) simp
  with pk Suc.prems(2) show ?case by (subst decode_value.simps) simp
qed

lemma first_occurrence:
  "sorted_keys e \<Longrightarrow> sorted_keys (fold (\<lambda>(k, v) e. or_insert k v e) kvs e) \<and>
     map_of (fold (\<lambda>(k, v) e. or_insert k v e) kvs e) key =
       (case map_of e key of Some v \<Rightarrow> Some v | None \<Rightarrow> map_of kvs key)"
proof (induction kvs arbitrary: e)
  case Nil
  then show ?case by (simp split: option.split)
next
  case (Cons kv kvs)
  obtain k v where kv: "kv = (k, v)" by (cases kv)
  from Cons.prems have "sorted_keys (or_insert k v e)" by (rule sorted_or_insert)
  from Cons.IH [OF this] map_of_or_insert [OF Cons.prems, of k v] kv show ?case
    by (auto split: option.splits)
qed

section \<open>Properties\<close>

text \<open>C3: Encoding a value and decoding the bytes gives the value back, in strict and in
  lenient mode, for every value that Rust's types and the depth limit admit.\<close>

theorem bencode_roundtrip:
  assumes "wire_ok v"
  shows "decode (encode v) = Inr v \<and> decode_lenient (encode v) = Inr v"
  using strict_bencode.decode_encode [OF assms] lenient_bencode.decode_encode [OF assms] by simp

text \<open>C21: Strict decoding is canonical: it accepts exactly the encodings of well-formed
  values, so re-encoding a strictly decoded buffer gives the same bytes.\<close>

theorem bencode_strict_canonical:
  assumes "slice_ok data"
  shows "decode data = Inr v \<longleftrightarrow> wire_ok v \<and> encode v = data"
  using assms by (rule strict_bencode.decode_iff)

text \<open>Lenient decoding extends strict decoding, and what it returns is canonical:
  re-encoded, it is no longer than the input and strict decoding reads it back.\<close>

theorem bencode_lenient_extends:
  assumes "slice_ok data"
  shows "(decode data = Inr v \<longrightarrow> decode_lenient data = Inr v) \<and>
    (decode_lenient data = Inr w \<longrightarrow> length (encode w) \<le> length data \<and> decode (encode w) = Inr w)"
proof (intro conjI impI)
  show "decode_lenient data = Inr v" if "decode data = Inr v"
  proof -
    from that have "wire_ok v" "encode v = data" using strict_bencode.decode_iff [OF assms, of v] by simp_all
    with lenient_bencode.decode_encode [of v] show ?thesis by simp
  qed
  assume w: "decode_lenient data = Inr w"
  from lenient_wire_ok [OF assms w] have ok: "wire_ok w" "length (encode w) \<le> length data" by simp_all
  then show "length (encode w) \<le> length data" by simp
  from ok(1) show "decode (encode w) = Inr w" by (rule strict_bencode.decode_encode)
qed

text \<open>Lenient decoding of a dictionary whose entries come in any order, with duplicate
  keys, returns a dictionary that maps each key to the first value given for it.\<close>

theorem bencode_lenient_first_wins:
  assumes "slice_ok (100 # concat (map enc_entry kvs) @ [101])"
    and "\<forall>(k, v) \<in> set kvs. wf_bencode v \<and> fits 99 v"
  shows "\<exists>d. decode_lenient (100 # concat (map enc_entry kvs) @ [101]) = Inr d \<and>
    (\<forall>key. get key d = map_of kvs key)"
proof -
  let ?data = "100 # concat (map enc_entry kvs) @ [101]"
  let ?m = "fold (\<lambda>(k, v) e. or_insert k v e) kvs []"
  have "decode_dict ?data False 1 1 [] None = Inr (?m, 1 + length (concat (map enc_entry kvs)) + 1)"
  proof (rule decode_dict_at [OF _ _ assms(1)])
    show "drop 1 ?data = concat (map enc_entry kvs) @ 101 # []" by simp
    show "decode_value ?data False 1 pos = Inr (v, pos + length (encode v))"
      if "(k, v) \<in> set kvs" "drop pos ?data = encode v @ rest" for k v pos rest
      using that assms by (intro decode_value_at [where n = 99]) (auto simp: MAX_DEPTH_def)
  qed (simp add: out_of_order_def)
  then have "decode_lenient ?data = Inr (BDict ?m)"
    by (simp add: decode_Inr_iff, subst decode_value.simps) (simp add: peek_def MAX_DEPTH_def)
  moreover have "get key (BDict ?m) = map_of kvs key" for key
    using first_occurrence [of "[]" kvs key] by (simp add: get_def as_dict_def)
  ultimately show ?thesis by blast
qed

text \<open>The span reported with a strictly decoded value delimits exactly the bytes the
  value encodes to, and the cursor is left at its end. This is what lets the info
  dictionary be hashed from the bytes of the file.\<close>

theorem bencode_span_is_encoding:
  assumes "decode_value_with_span d = Inr ((v, (a, b)), d')" and "dc_strict d"
  shows "a = dc_pos d \<and> d' = d\<lparr>dc_pos := b\<rparr> \<and> take (b - a) (drop a (dc_data d)) = encode v"
proof -
  from assms have v: "decode_value (dc_data d) True (dc_depth d) a = Inr (v, b)"
    and s: "a = dc_pos d" "d' = d\<lparr>dc_pos := b\<rparr>"
    by (auto simp: decode_value_with_span_def res_iff)
  from decode_sound(1) [OF v] have dr: "drop a (dc_data d) = encode v @ drop b (dc_data d)" by simp
  from decode_sound(1) [OF v] have ab: "a + length (encode v) \<le> b" by simp
  have "take (b - a) (drop a (dc_data d)) = encode v"
  proof (cases "b \<le> length (dc_data d)")
    case True
    with ab drop_drop_length [OF dr] have "b - a = length (encode v)" by simp
    with dr show ?thesis by simp
  next
    case False
    with ab dr show ?thesis by simp
  qed
  with s show ?thesis by simp
qed

text \<open>Nesting is bounded: a buffer that opens more than \<open>MAX_DEPTH\<close> lists is refused with
  \<open>TooDeep\<close> in both modes, whatever follows, so recursion depth cannot be driven by input.\<close>

theorem bencode_depth_bounded:
  assumes "MAX_DEPTH < n"
  shows "decode (replicate n 108 @ rest) = Inl TooDeep \<and> decode_lenient (replicate n 108 @ rest) = Inl TooDeep"
proof -
  have "replicate n 108 @ rest = replicate (Suc MAX_DEPTH) 108 @ replicate (n - Suc MAX_DEPTH) (108 :: u8) @ rest"
    using assms by (simp add: replicate_add [symmetric] del: replicate_Suc flip: append_assoc)
  then have "decode_value (replicate n 108 @ rest) strict 0 0 = Inl TooDeep" for strict
    using nested_too_deep [of 0 "replicate n 108 @ rest" MAX_DEPTH _ 0] by simp
  then show ?thesis
    by (simp add: decode_def decode_lenient_def decode_top_level_def decoder_new_def decoder_new_lenient_def)
qed

section \<open>Witnesses\<close>

lemma fits_numeral [simp]:
  "fits (numeral k) (BList xs) = list_all (fits (pred_numeral k)) xs"
  "fits (numeral k) (BDict m) = list_all (\<lambda>(k', v). fits (pred_numeral k) v) m"
  by (simp_all add: numeral_eq_Suc)

lemmas bencode_eval = wire_ok_def encode_simps enc_bytes_def show_int_def show_nat.simps
  MAX_DEPTH_def i64_range_def sorted_keys_def

definition sample_dict :: bencode where
  "sample_dict = BDict [([97], BInt 1), ([98], BList [BInt (-2), BBytes [120]])]"

lemma sample_dict_ok: "wire_ok sample_dict"
  by (simp add: bencode_eval sample_dict_def)

lemma sample_dict_bytes:
  "encode sample_dict = [100, 49, 58, 97, 105, 49, 101, 49, 58, 98, 108, 105, 45, 50, 101, 49, 58, 120, 101, 101]"
  by (simp add: bencode_eval sample_dict_def)

theorem bencode_roundtrip_witness:
  "wire_ok sample_dict \<and> decode (encode sample_dict) = Inr sample_dict"
  using bencode_roundtrip [OF sample_dict_ok] sample_dict_ok by simp

theorem bencode_strict_canonical_witness:
  "slice_ok (encode sample_dict) \<and> decode (encode sample_dict) = Inr sample_dict"
  using bencode_strict_canonical [of "encode sample_dict" sample_dict] sample_dict_ok
  by (simp add: wire_ok_def)

theorem bencode_lenient_extends_witness:
  "slice_ok (encode sample_dict) \<and> decode_lenient (encode sample_dict) = Inr sample_dict"
  using bencode_lenient_extends [of "encode sample_dict" sample_dict sample_dict]
    strict_bencode.decode_encode [OF sample_dict_ok] sample_dict_ok
  by (simp add: wire_ok_def)

theorem bencode_lenient_first_wins_witness:
  "\<exists>d. decode_lenient (100 # concat (map enc_entry [([98], BInt 1), ([97], BInt 2), ([98], BInt 3)]) @ [101]) = Inr d
     \<and> get [98] d = Some (BInt 1)"
proof -
  let ?kvs = "[([98], BInt 1), ([97], BInt 2), ([98], BInt 3)] :: (bytes \<times> bencode) list"
  have "slice_ok (100 # concat (map enc_entry ?kvs) @ [101])" by (simp add: bencode_eval)
  moreover have "\<forall>(k, v) \<in> set ?kvs. wf_bencode v \<and> fits 99 v" by (simp add: i64_range_def)
  ultimately obtain d where "decode_lenient (100 # concat (map enc_entry ?kvs) @ [101]) = Inr d"
    "\<forall>key. get key d = map_of ?kvs key"
    using bencode_lenient_first_wins [of ?kvs] by blast
  then show ?thesis by auto
qed

theorem bencode_span_is_encoding_witness:
  "\<exists>d'. decode_value_with_span (decoder_new (encode sample_dict)) = Inr ((sample_dict, (0, 20)), d') \<and>
     take 20 (drop 0 (encode sample_dict)) = encode sample_dict"
proof -
  have "decode_value (encode sample_dict) True 0 0 = Inr (sample_dict, 20)"
    using strict_bencode.decode_encode [OF sample_dict_ok] by (simp add: decode_Inr_iff sample_dict_bytes)
  then have s: "decode_value_with_span (decoder_new (encode sample_dict)) =
      Inr ((sample_dict, (0, 20)), (decoder_new (encode sample_dict))\<lparr>dc_pos := 20\<rparr>)"
    by (simp add: decode_value_with_span_def decoder_new_def)
  from bencode_span_is_encoding [OF this] s show ?thesis by (simp add: decoder_new_def)
qed

theorem bencode_depth_bounded_witness:
  "MAX_DEPTH < 101 \<and> decode (replicate 101 108 @ [101]) = Inl TooDeep"
  using bencode_depth_bounded [of 101 "[101]"] by (simp add: MAX_DEPTH_def)

end
