(* ===== verification/Wire.thy ===== *)
theory Wire
  imports Rust_Prelude
begin

text \<open>
  The peer wire formats: bounds-checked reads (\<^verbatim>\<open>src/src/bytes.rs\<close>), the handshake
  (\<^verbatim>\<open>src/src/peer/handshake.rs\<close>), the length-prefixed messages
  (\<^verbatim>\<open>src/src/peer/message.rs\<close>) and the holepunch payload
  (\<^verbatim>\<open>src/src/peer/holepunch.rs\<close>). A reader is the list of bytes still to come;
  running out of them is the I/O error \<open>read_exact\<close> reports.

  Results: every message that fits the length cap is read back and the stream is left at
  the next message; a length prefix over the cap is refused before the body is read; the
  handshake is a canonical codec on buffers of its length.
\<close>

section \<open>Bounds-checked reads\<close>

definition array_at :: "nat \<Rightarrow> bytes \<Rightarrow> nat \<Rightarrow> bytes option" where
  "array_at n buf pos =
     (if 2 ^ 64 \<le> pos + n then None
      else if pos + n \<le> length buf then Some (take n (drop pos buf)) else None)"

definition be_u16 :: "bytes \<Rightarrow> nat \<Rightarrow> u16 option" where
  "be_u16 buf pos = map_option (\<lambda>b. of_nat (nat_be b)) (array_at 2 buf pos)"

definition be_u32 :: "bytes \<Rightarrow> nat \<Rightarrow> u32 option" where
  "be_u32 buf pos = map_option (\<lambda>b. of_nat (nat_be b)) (array_at 4 buf pos)"

definition be_u64 :: "bytes \<Rightarrow> nat \<Rightarrow> u64 option" where
  "be_u64 buf pos = map_option (\<lambda>b. of_nat (nat_be b)) (array_at 8 buf pos)"

lemma be_u32_hit:
  "pos + 4 < 2 ^ 64 \<Longrightarrow> drop pos buf = u32_be w @ rest \<Longrightarrow> be_u32 buf pos = Some w"
  using drop_append_length [of pos buf "u32_be w" rest]
  by (auto simp: be_u32_def array_at_def byte_simps)

lemma be_u32_None: "length buf < pos + 4 \<Longrightarrow> be_u32 buf pos = None"
  by (simp add: be_u32_def array_at_def)

section \<open>Messages\<close>

record hash_request =
  hr_root :: bytes
  hr_base_layer :: u32
  hr_index :: u32
  hr_length :: u32
  hr_proof_layers :: u32

datatype message =
    KeepAlive
  | Choke
  | Unchoke
  | Interested
  | NotInterested
  | Have u32
  | Bitfield bytes
  | Request u32 u32 u32
  | Piece u32 u32 bytes
  | Cancel u32 u32 u32
  | Port u16
  | Suggest u32
  | HaveAll
  | HaveNone
  | RejectRequest u32 u32 u32
  | AllowedFast u32
  | Extended u8 bytes
  | HashRequest hash_request
  | Hashes hash_request "bytes list"
  | HashReject hash_request

datatype wire_error =
    WireIo
  | MessageTooLarge u32
  | UnknownMessageId u8
  | Truncated nat nat

definition MAX_MESSAGE_LEN :: u32 where "MAX_MESSAGE_LEN = 1048576"

definition HASH_REQUEST_LEN :: nat where "HASH_REQUEST_LEN = 48"

definition hash_request_write :: "hash_request \<Rightarrow> bytes" where
  "hash_request_write r =
     hr_root r @ concat (map (\<lambda>n. u32_be n) [hr_base_layer r, hr_index r, hr_length r, hr_proof_layers r])"

definition read_u32 :: "bytes \<Rightarrow> nat \<Rightarrow> wire_error + u32" where
  "read_u32 payload offset = ok_or (be_u32 payload offset) (Truncated (min (offset + 4) (2 ^ 64 - 1)) (length payload))"

definition hash_request_read :: "bytes \<Rightarrow> wire_error + hash_request" where
  "hash_request_read payload =
     (if length payload < HASH_REQUEST_LEN then Inl (Truncated HASH_REQUEST_LEN (length payload))
      else and_then (read_u32 payload 32) (\<lambda>base.
           and_then (read_u32 payload 36) (\<lambda>index.
           and_then (read_u32 payload 40) (\<lambda>len.
           and_then (read_u32 payload 44) (\<lambda>proof.
             Inr \<lparr>hr_root = take 32 payload, hr_base_layer = base, hr_index = index,
                  hr_length = len, hr_proof_layers = proof\<rparr>)))))"

fun message_id :: "message \<Rightarrow> u8 option" where
  "message_id KeepAlive = None"
| "message_id Choke = Some 0"
| "message_id Unchoke = Some 1"
| "message_id Interested = Some 2"
| "message_id NotInterested = Some 3"
| "message_id (Have _) = Some 4"
| "message_id (Bitfield _) = Some 5"
| "message_id (Request _ _ _) = Some 6"
| "message_id (Piece _ _ _) = Some 7"
| "message_id (Cancel _ _ _) = Some 8"
| "message_id (Port _) = Some 9"
| "message_id (Suggest _) = Some 13"
| "message_id HaveAll = Some 14"
| "message_id HaveNone = Some 15"
| "message_id (RejectRequest _ _ _) = Some 16"
| "message_id (AllowedFast _) = Some 17"
| "message_id (Extended _ _) = Some 20"
| "message_id (HashRequest _) = Some 21"
| "message_id (Hashes _ _) = Some 22"
| "message_id (HashReject _) = Some 23"

fun message_payload :: "message \<Rightarrow> bytes" where
  "message_payload (Have i) = u32_be i"
| "message_payload (Suggest i) = u32_be i"
| "message_payload (AllowedFast i) = u32_be i"
| "message_payload (Bitfield bits) = bits"
| "message_payload (Request i b l) = u32_be i @ u32_be b @ u32_be l"
| "message_payload (Cancel i b l) = u32_be i @ u32_be b @ u32_be l"
| "message_payload (RejectRequest i b l) = u32_be i @ u32_be b @ u32_be l"
| "message_payload (Piece i b block) = u32_be i @ u32_be b @ block"
| "message_payload (Port p) = u16_be p"
| "message_payload (Extended i body) = i # body"
| "message_payload (HashRequest r) = hash_request_write r"
| "message_payload (HashReject r) = hash_request_write r"
| "message_payload (Hashes r hs) = hash_request_write r @ concat hs"
| "message_payload _ = []"

definition to_bytes :: "message \<Rightarrow> bytes" where
  "to_bytes m =
     (case message_id m of
        None \<Rightarrow> u32_be 0
      | Some i \<Rightarrow>
          let payload = message_payload m; len = 1 + of_nat (length payload) :: u32
          in u32_be len @ [i] @ payload)"

definition read_exact :: "nat \<Rightarrow> bytes \<Rightarrow> wire_error + (bytes \<times> bytes)" where
  "read_exact n input = (if n \<le> length input then Inr (take n input, drop n input) else Inl WireIo)"

definition read_triple :: "(u32 \<Rightarrow> u32 \<Rightarrow> u32 \<Rightarrow> message) \<Rightarrow> bytes \<Rightarrow> wire_error + message" where
  "read_triple mk payload =
     and_then (read_u32 payload 0) (\<lambda>i.
     and_then (read_u32 payload 4) (\<lambda>b.
     and_then (read_u32 payload 8) (\<lambda>l. Inr (mk i b l))))"

definition parse_body :: "u8 \<Rightarrow> bytes \<Rightarrow> wire_error + message" where
  "parse_body i payload =
     (if i = 0 then Inr Choke
      else if i = 1 then Inr Unchoke
      else if i = 2 then Inr Interested
      else if i = 3 then Inr NotInterested
      else if i = 4 then and_then (read_u32 payload 0) (\<lambda>n. Inr (Have n))
      else if i = 5 then Inr (Bitfield payload)
      else if i = 6 then read_triple Request payload
      else if i = 7 then
        (if length payload < 8 then Inl (Truncated 8 (length payload))
         else and_then (read_u32 payload 0) (\<lambda>n.
              and_then (read_u32 payload 4) (\<lambda>b. Inr (Piece n b (drop 8 payload)))))
      else if i = 8 then read_triple Cancel payload
      else if i = 13 then and_then (read_u32 payload 0) (\<lambda>n. Inr (Suggest n))
      else if i = 14 then Inr HaveAll
      else if i = 15 then Inr HaveNone
      else if i = 16 then read_triple RejectRequest payload
      else if i = 17 then and_then (read_u32 payload 0) (\<lambda>n. Inr (AllowedFast n))
      else if i = 9 then
        (if length payload < 2 then Inl (Truncated 2 (length payload))
         else Inr (Port (of_nat (nat_be (take 2 payload)))))
      else if i = 21 then and_then (hash_request_read payload) (\<lambda>r. Inr (HashRequest r))
      else if i = 23 then and_then (hash_request_read payload) (\<lambda>r. Inr (HashReject r))
      else if i = 22 then
        and_then (hash_request_read payload) (\<lambda>r.
          let rest = drop HASH_REQUEST_LEN payload
          in if length rest mod 32 \<noteq> 0
             then Inl (Truncated (HASH_REQUEST_LEN + (length rest + 31) div 32 * 32) (length payload))
             else Inr (Hashes r (chunks 32 rest)))
      else if i = 20 then
        (case payload of [] \<Rightarrow> Inl (Truncated 1 0) | e # body \<Rightarrow> Inr (Extended e body))
      else Inl (UnknownMessageId i))"

definition read_from :: "bytes \<Rightarrow> wire_error + (message \<times> bytes)" where
  "read_from input =
     and_then (read_exact 4 input) (\<lambda>(len_buf, input1).
       let len = of_nat (nat_be len_buf) :: u32
       in if len = 0 then Inr (KeepAlive, input1)
          else if MAX_MESSAGE_LEN < len then Inl (MessageTooLarge len)
          else and_then (read_exact (unat len) input1) (\<lambda>(body, input2).
                 and_then (parse_body (hd body) (tl body)) (\<lambda>m. Inr (m, input2))))"


section \<open>The stream contract\<close>

definition hash_request_ok :: "hash_request \<Rightarrow> bool" where
  "hash_request_ok r \<longleftrightarrow> length (hr_root r) = 32"

fun fields_ok :: "message \<Rightarrow> bool" where
  "fields_ok (HashRequest r) \<longleftrightarrow> hash_request_ok r"
| "fields_ok (HashReject r) \<longleftrightarrow> hash_request_ok r"
| "fields_ok (Hashes r hs) \<longleftrightarrow> hash_request_ok r \<and> list_all (\<lambda>h. length h = 32) hs"
| "fields_ok _ \<longleftrightarrow> True"

text \<open>Arrays have their length, and the frame is within the cap.\<close>

definition message_ok :: "message \<Rightarrow> bool" where
  "message_ok m \<longleftrightarrow> fields_ok m \<and> length (message_payload m) < unat MAX_MESSAGE_LEN"

lemma read_u32_at:
  "drop off payload = u32_be w @ rest \<Longrightarrow> off + 4 < 2 ^ 64 \<Longrightarrow> read_u32 payload off = Inr w"
  by (simp add: read_u32_def be_u32_hit)

lemma read_triple_payload:
  "read_triple mk (u32_be i @ u32_be b @ u32_be l) = Inr (mk i b l)"
  unfolding read_triple_def
  by (simp add: read_u32_at [of 0 _ i "u32_be b @ u32_be l"] read_u32_at [of 4 _ b "u32_be l"]
      read_u32_at [of 8 _ l "[]"])

lemma length_hash_request_write: "hash_request_ok r \<Longrightarrow> length (hash_request_write r) = 48"
  by (simp add: hash_request_write_def hash_request_ok_def)

lemma hash_request_read_write:
  assumes "hash_request_ok r"
  shows "hash_request_read (hash_request_write r @ rest) = Inr r"
proof -
  let ?p = "hash_request_write r @ rest"
  have p: "?p = hr_root r @ u32_be (hr_base_layer r) @ u32_be (hr_index r) @ u32_be (hr_length r)
      @ u32_be (hr_proof_layers r) @ rest" by (simp add: hash_request_write_def)
  have "read_u32 ?p 32 = Inr (hr_base_layer r)" "read_u32 ?p 36 = Inr (hr_index r)"
    "read_u32 ?p 40 = Inr (hr_length r)" "read_u32 ?p 44 = Inr (hr_proof_layers r)"
    using assms unfolding p by (auto intro!: read_u32_at simp: hash_request_ok_def)
  moreover have "\<not> length ?p < HASH_REQUEST_LEN" "take 32 ?p = hr_root r"
    using assms by (simp_all add: HASH_REQUEST_LEN_def length_hash_request_write)
      (simp add: hash_request_write_def hash_request_ok_def)
  ultimately show ?thesis by (simp add: hash_request_read_def)
qed

lemma parse_body_payload:
  assumes "message_id m = Some i" and "fields_ok m"
  shows "parse_body i (message_payload m) = Inr m"
proof -
  have one: "read_u32 (u32_be n) 0 = Inr n" for n
    by (rule read_u32_at [where rest = "[]"]) simp_all
  have two: "read_u32 (u32_be n @ u32_be b @ block) 0 = Inr n" "read_u32 (u32_be n @ u32_be b @ block) 4 = Inr b" for n b block
    by (rule read_u32_at; simp)+
  have hr: "hash_request_read (hash_request_write r) = Inr r" if "hash_request_ok r" for r
    using hash_request_read_write [OF that, of "[]"] by simp
  from assms show ?thesis
  proof (cases m)
    case (Hashes r hs)
    with assms have ok: "hash_request_ok r" and hs: "list_all (\<lambda>h. length h = 32) hs" by auto
    have "length (concat hs) mod 32 = 0" using hs by (induction hs) auto
    with Hashes assms ok hs show ?thesis
      by (simp add: parse_body_def hash_request_read_write length_hash_request_write HASH_REQUEST_LEN_def
          chunks_concat)
  qed (auto simp: parse_body_def one two hr read_triple_payload byte_simps)
qed

lemma frame_length:
  "n < unat MAX_MESSAGE_LEN \<Longrightarrow> unat (1 + of_nat n :: u32) = n + 1"
  by (simp add: MAX_MESSAGE_LEN_def unat_word_ariths unat_of_nat)

lemma read_from_to_bytes:
  assumes "message_ok m"
  shows "read_from (to_bytes m @ rest) = Inr (m, rest)"
proof (cases "message_id m")
  case None
  then have "m = KeepAlive" by (cases m) auto
  then show ?thesis
    using unat_be_u32 [of 0] by (simp add: to_bytes_def read_from_def read_exact_def)
next
  case (Some i)
  let ?p = "message_payload m" and ?len = "1 + of_nat (length (message_payload m)) :: u32"
  from assms have n: "length ?p < unat MAX_MESSAGE_LEN" by (simp add: message_ok_def)
  note len = frame_length [OF n]
  then have "?len \<noteq> 0" and "\<not> MAX_MESSAGE_LEN < ?len"
    using n by (auto simp: word_less_nat_alt word_unat_eq_iff simp del: unat_eq_zero)
  moreover have "parse_body i ?p = Inr m"
    using parse_body_payload [OF Some] assms by (simp add: message_ok_def)
  moreover have "to_bytes m @ rest = u32_be ?len @ (i # ?p) @ rest"
    using Some by (simp add: to_bytes_def Let_def)
  moreover have "(of_nat (nat_be (be_nat 4 (Suc (length ?p)))) :: u32) = ?len"
    using unat_be_u32 [of ?len] len by simp
  ultimately show ?thesis
    using len by (simp add: read_from_def read_exact_def Let_def)
qed

interpretation peer_wire: framed_codec to_bytes read_from message_ok
  by standard (rule read_from_to_bytes)


section \<open>The handshake\<close>

text \<open>The bytes of the protocol name, and the positions and masks of the two feature bits.\<close>

definition PSTR :: bytes where
  "PSTR = [66, 105, 116, 84, 111, 114, 114, 101, 110, 116, 32, 112, 114, 111, 116, 111, 99, 111, 108]"

definition HANDSHAKE_LEN :: nat where "HANDSHAKE_LEN = 68"

record handshake =
  hs_reserved :: bytes
  hs_info_hash :: bytes
  hs_peer_id :: bytes

datatype handshake_error = TooShort | BadPstrLen u8 | BadPstr

unbundle bit_operations_syntax

definition handshake_new :: "bytes \<Rightarrow> bytes \<Rightarrow> bool \<Rightarrow> handshake" where
  "handshake_new info_hash peer_id support_extensions =
     (let reserved = replicate 8 0;
          reserved = (if support_extensions then reserved[5 := reserved ! 5 OR 16] else reserved)
      in \<lparr>hs_reserved = reserved, hs_info_hash = info_hash, hs_peer_id = peer_id\<rparr>)"

definition with_fast :: "bool \<Rightarrow> handshake \<Rightarrow> handshake" where
  "with_fast fast h =
     (if fast then h\<lparr>hs_reserved := (hs_reserved h)[7 := hs_reserved h ! 7 OR 4]\<rparr>
      else h\<lparr>hs_reserved := (hs_reserved h)[7 := hs_reserved h ! 7 AND NOT 4]\<rparr>)"

definition supports_fast :: "handshake \<Rightarrow> bool" where
  "supports_fast h \<longleftrightarrow> hs_reserved h ! 7 AND 4 \<noteq> 0"

definition supports_extensions_bit :: "handshake \<Rightarrow> bool" where
  "supports_extensions_bit h \<longleftrightarrow> hs_reserved h ! 5 AND 16 \<noteq> 0"

definition handshake_to_bytes :: "handshake \<Rightarrow> bytes" where
  "handshake_to_bytes h = [19] @ PSTR @ hs_reserved h @ hs_info_hash h @ hs_peer_id h"

definition handshake_from_bytes :: "bytes \<Rightarrow> handshake_error + handshake" where
  "handshake_from_bytes buf =
     (if length buf < HANDSHAKE_LEN then Inl TooShort
      else if buf ! 0 \<noteq> 19 then Inl (BadPstrLen (buf ! 0))
      else if take 19 (drop 1 buf) \<noteq> PSTR then Inl BadPstr
      else Inr \<lparr>hs_reserved = take 8 (drop 20 buf), hs_info_hash = take 20 (drop 28 buf),
                hs_peer_id = take 20 (drop 48 buf)\<rparr>)"

definition handshake_ok :: "handshake \<Rightarrow> bool" where
  "handshake_ok h \<longleftrightarrow> length (hs_reserved h) = 8 \<and> length (hs_info_hash h) = 20 \<and> length (hs_peer_id h) = 20"

lemma length_PSTR [simp]: "length PSTR = 19"
  by (simp add: PSTR_def)

lemma length_handshake_to_bytes: "handshake_ok h \<Longrightarrow> length (handshake_to_bytes h) = HANDSHAKE_LEN"
  by (simp add: handshake_to_bytes_def handshake_ok_def HANDSHAKE_LEN_def)

lemma handshake_from_to:
  "handshake_ok h \<Longrightarrow> handshake_from_bytes (handshake_to_bytes h @ rest) = Inr h"
  by (simp add: handshake_from_bytes_def handshake_to_bytes_def handshake_ok_def HANDSHAKE_LEN_def)

lemma handshake_to_from:
  assumes "handshake_from_bytes buf = Inr h"
  shows "handshake_ok h \<and> handshake_to_bytes h = take HANDSHAKE_LEN buf"
proof -
  from assms have len: "68 \<le> length buf" and b0: "buf ! 0 = 19" and ps: "take 19 (drop 1 buf) = PSTR"
    and h: "h = \<lparr>hs_reserved = take 8 (drop 20 buf), hs_info_hash = take 20 (drop 28 buf),
                hs_peer_id = take 20 (drop 48 buf)\<rparr>"
    by (auto simp: handshake_from_bytes_def HANDSHAKE_LEN_def split: if_splits)
  have split: "take (n + k) xs = take n xs @ take k (drop n xs)" for n k and xs :: bytes
    by (rule take_add)
  have "take 68 buf = take 1 buf @ take 19 (drop 1 buf) @ take 8 (drop 20 buf) @ take 20 (drop 28 buf) @ take 20 (drop 48 buf)"
    using split [of 1 67 buf] split [of 19 48 "drop 1 buf"] split [of 8 40 "drop 20 buf"] split [of 20 20 "drop 28 buf"]
    by simp
  moreover have "take 1 buf = [19]" using b0 len by (cases buf) auto
  ultimately show ?thesis
    using len ps by (simp add: h handshake_ok_def handshake_to_bytes_def HANDSHAKE_LEN_def)
qed

interpretation handshake_codec: canonical_codec handshake_to_bytes handshake_from_bytes handshake_ok
  "\<lambda>b. length b = HANDSHAKE_LEN"
proof
  show "handshake_from_bytes (handshake_to_bytes h) = Inr h" if "handshake_ok h" for h
    using handshake_from_to [OF that, of "[]"] by simp
  show "handshake_ok h \<and> handshake_to_bytes h = b"
    if "length b = HANDSHAKE_LEN" "handshake_from_bytes b = Inr h" for b h
    using handshake_to_from [OF that(2)] that(1) by simp
qed

lemma mask_bit:
  "(x OR 4) AND 4 \<noteq> (0 :: u8)" "(x AND NOT 4) AND 4 = (0 :: u8)"
  "(x OR 16) AND 16 \<noteq> (0 :: u8)"
proof -
  show "(x AND NOT 4) AND 4 = (0 :: u8)"
    by (simp add: and.assoc)
  have "(x OR 4) AND 4 = (4 :: u8)" "(x OR 16) AND 16 = (16 :: u8)"
    by (simp_all add: bit.conj_disj_distrib2 or.commute bit_eq_iff bit_simps)
  then show "(x OR 4) AND 4 \<noteq> (0 :: u8)" "(x OR 16) AND 16 \<noteq> (0 :: u8)" by simp_all
qed


section \<open>Holepunch payloads\<close>

datatype error_code = NoSuchPeer | NotConnected | NoSupport | NoSelf

datatype holepunch_message =
    HpRendezvous socket_addr
  | HpConnect socket_addr
  | HpError socket_addr error_code

datatype holepunch_error =
    HpTooShort
  | UnknownMessageType u8
  | UnknownAddressType u8
  | UnknownErrorCode u32

fun error_code_to_u32 :: "error_code \<Rightarrow> u32" where
  "error_code_to_u32 NoSuchPeer = 1"
| "error_code_to_u32 NotConnected = 2"
| "error_code_to_u32 NoSupport = 3"
| "error_code_to_u32 NoSelf = 4"

definition error_code_from_u32 :: "u32 \<Rightarrow> error_code option" where
  "error_code_from_u32 n =
     (if n = 1 then Some NoSuchPeer else if n = 2 then Some NotConnected
      else if n = 3 then Some NoSupport else if n = 4 then Some NoSelf else None)"

fun holepunch_fields :: "holepunch_message \<Rightarrow> u8 \<times> socket_addr \<times> u32" where
  "holepunch_fields (HpRendezvous target) = (0, target, 0)"
| "holepunch_fields (HpConnect endpoint) = (1, endpoint, 0)"
| "holepunch_fields (HpError target code) = (2, target, error_code_to_u32 code)"

definition holepunch_encode :: "holepunch_message \<Rightarrow> bytes" where
  "holepunch_encode m =
     (case holepunch_fields m of (msg_type, addr, err_code) \<Rightarrow>
        [msg_type]
        @ (case addr_ip addr of IpV4 a \<Rightarrow> 0 # octets (IpV4 a) | IpV6 a \<Rightarrow> 1 # octets (IpV6 a))
        @ u16_be (addr_port addr) @ u32_be err_code)"

definition holepunch_decode :: "bytes \<Rightarrow> holepunch_error + holepunch_message" where
  "holepunch_decode payload =
     (if length payload < 2 then Inl HpTooShort
      else
        let msg_type = payload ! 0; addr_type = payload ! 1 in
        and_then (if addr_type = 0 then Inr 4 else if addr_type = 1 then Inr 16
                  else Inl (UnknownAddressType addr_type)) (\<lambda>addr_len :: nat.
          if length payload < 2 + addr_len + 2 + 4 then Inl HpTooShort
          else
            let addr_bytes = take addr_len (drop 2 payload);
                ip = (if addr_type = 0 then IpV4 (of_nat (nat_be addr_bytes))
                      else IpV6 (of_nat (nat_be addr_bytes)));
                port_at = 2 + addr_len;
                port = of_nat (nat_be (take 2 (drop port_at payload)));
                err_at = port_at + 2;
                err_code = of_nat (nat_be (take 4 (drop err_at payload)));
                endpoint = SocketAddr ip port
            in if msg_type = 0 then Inr (HpRendezvous endpoint)
               else if msg_type = 1 then Inr (HpConnect endpoint)
               else if msg_type = 2 then
                 and_then (ok_or (error_code_from_u32 err_code) (UnknownErrorCode err_code))
                   (\<lambda>code. Inr (HpError endpoint code))
               else Inl (UnknownMessageType msg_type)))"

lemma error_code_roundtrip: "error_code_from_u32 (error_code_to_u32 c) = Some c"
  by (cases c) (simp_all add: error_code_from_u32_def)

interpretation holepunch: codec holepunch_encode holepunch_decode "\<lambda>_. True"
proof
  fix m
  obtain ip port where a: "fst (snd (holepunch_fields m)) = SocketAddr ip port"
    by (cases "fst (snd (holepunch_fields m))") auto
  show "holepunch_decode (holepunch_encode m) = Inr m"
  proof (cases m)
    case (HpRendezvous t)
    with a show ?thesis
      by (cases ip) (simp_all add: holepunch_encode_def holepunch_decode_def octets_def byte_simps)
  next
    case (HpConnect t)
    with a show ?thesis
      by (cases ip) (simp_all add: holepunch_encode_def holepunch_decode_def octets_def byte_simps)
  next
    case (HpError t c)
    with a show ?thesis
      by (cases ip) (simp_all add: holepunch_encode_def holepunch_decode_def octets_def byte_simps
          error_code_roundtrip)
  qed
qed

section \<open>Properties\<close>


text \<open>C37: The length prefix governs a read: over the cap, the message is refused before any
  of the body is looked at; otherwise a successful read has consumed exactly the prefix and
  the announced number of bytes, at most \<open>MAX_MESSAGE_LEN\<close> of them.\<close>

theorem read_from_framing:
  "(MAX_MESSAGE_LEN < len \<longrightarrow> read_from (u32_be len @ input) = Inl (MessageTooLarge len)) \<and>
   (read_from (u32_be len @ input) = Inr (m, rest) \<longrightarrow>
      len \<le> MAX_MESSAGE_LEN \<and> unat len \<le> length input \<and> rest = drop (unat len) input)"
proof -
  have pre: "read_exact 4 (u32_be len @ input) = Inr (u32_be len, input)"
    by (simp add: read_exact_def)
  show ?thesis
  proof (intro conjI impI)
    show "read_from (u32_be len @ input) = Inl (MessageTooLarge len)" if "MAX_MESSAGE_LEN < len"
      using that pre by (auto simp: read_from_def Let_def unat_be_u32)
    assume r: "read_from (u32_be len @ input) = Inr (m, rest)"
    with pre have "len \<le> MAX_MESSAGE_LEN \<and> (len = 0 \<and> rest = input \<or>
        (\<exists>body. read_exact (unat len) input = Inr (body, rest)))"
      by (auto simp: read_from_def Let_def unat_be_u32 res_iff split: if_splits)
    then show "len \<le> MAX_MESSAGE_LEN" "unat len \<le> length input" "rest = drop (unat len) input"
      by (auto simp: read_exact_def split: if_splits)
  qed
qed

text \<open>C39: On a buffer of exactly the handshake's length, parsing and printing are inverse:
  a buffer parses to a handshake just when it is what that handshake prints.\<close>

theorem handshake_canonical:
  assumes "length buf = HANDSHAKE_LEN"
  shows "handshake_from_bytes buf = Inr h \<longleftrightarrow> handshake_ok h \<and> handshake_to_bytes h = buf"
  using assms by (rule handshake_codec.decode_iff)

text \<open>What a peer advertises in a handshake arrives: the two feature bits and the info
  hash read off the wire are the ones the sender chose.\<close>

theorem handshake_features_arrive:
  assumes "length ih = 20" and "length pid = 20"
  shows "\<exists>h. handshake_from_bytes (handshake_to_bytes (with_fast fast (handshake_new ih pid ext)) @ rest) = Inr h
    \<and> supports_fast h = fast \<and> supports_extensions_bit h = ext \<and> hs_info_hash h = ih \<and> hs_peer_id h = pid"
proof -
  let ?h = "with_fast fast (handshake_new ih pid ext)"
  have "handshake_ok ?h"
    using assms by (simp add: handshake_ok_def with_fast_def handshake_new_def Let_def)
  moreover have "supports_fast ?h = fast" "supports_extensions_bit ?h = ext"
    by (cases fast; cases ext; simp add: supports_fast_def supports_extensions_bit_def with_fast_def handshake_new_def Let_def mask_bit)+
  moreover have "hs_info_hash ?h = ih" "hs_peer_id ?h = pid"
    by (simp_all add: with_fast_def handshake_new_def Let_def)
  ultimately show ?thesis using handshake_from_to [of ?h rest] by blast
qed

text \<open>Every holepunch message is read back from its payload, for both address families
  and every error code.\<close>

theorem holepunch_roundtrip: "holepunch_decode (holepunch_encode m) = Inr m"
  by (rule holepunch.decode_encode) simp

section \<open>Witnesses\<close>


theorem read_from_framing_witness:
  "MAX_MESSAGE_LEN < 1048577 \<and> read_from (u32_be 1048577 @ [20]) = Inl (MessageTooLarge 1048577)"
  using read_from_framing [of 1048577 "[20]"] by (simp add: MAX_MESSAGE_LEN_def)

theorem handshake_canonical_witness:
  "length (handshake_to_bytes (handshake_new (replicate 20 1) (replicate 20 2) True)) = HANDSHAKE_LEN \<and>
   handshake_from_bytes (handshake_to_bytes (handshake_new (replicate 20 1) (replicate 20 2) True))
     = Inr (handshake_new (replicate 20 1) (replicate 20 2) True)"
proof -
  let ?h = "handshake_new (replicate 20 1) (replicate 20 2) True"
  have ok: "handshake_ok ?h" by (simp add: handshake_ok_def handshake_new_def Let_def)
  note len = length_handshake_to_bytes [OF ok]
  from handshake_canonical [OF len, of ?h] ok len show ?thesis by simp
qed

theorem handshake_features_arrive_witness:
  "\<exists>h. handshake_from_bytes (handshake_to_bytes (with_fast True (handshake_new (replicate 20 1) (replicate 20 2) False)) @ [])
     = Inr h \<and> supports_fast h \<and> \<not> supports_extensions_bit h"
proof -
  have "length (replicate 20 1 :: bytes) = 20" "length (replicate 20 2 :: bytes) = 20" by simp_all
  from handshake_features_arrive [OF this, of True False "[]"] show ?thesis by blast
qed

end
