(* ===== verification/Peer_State.thy ===== *)
theory Peer_State
  imports Wire
begin

text \<open>
  What a connection knows about its peer (\<^verbatim>\<open>src/src/peer/state.rs\<close>): the choke and
  interest flags, the pieces the peer claims to have, and the allowed-fast pieces. The
  abstract view is the set of piece indices the peer has; \<open>apply_message\<close> is shown to
  implement the obvious operation on that set, to keep the state within bounds fixed by
  the torrent whatever a peer sends, and the bitfield packing is shown to be inverted by
  the unpacking.
\<close>

unbundle bit_operations_syntax

section \<open>State and operations\<close>

record peer_state =
  am_choking :: bool
  am_interested :: bool
  peer_choking :: bool
  peer_interested :: bool
  peer_has_pieces :: "bool list"
  supports_extensions :: bool
  peer_request_limit :: "nat option"
  fast :: bool
  allowed_fast :: "u32 set"
  piece_limit :: nat

definition MAX_ALLOWED_FAST :: nat where "MAX_ALLOWED_FAST = 64"

definition MAX_TRACKED_PIECES :: nat where "MAX_TRACKED_PIECES = 16777216"

definition peer_state_default :: peer_state where
  "peer_state_default =
     \<lparr>am_choking = True, am_interested = False, peer_choking = True, peer_interested = False,
      peer_has_pieces = [], supports_extensions = False, peer_request_limit = None, fast = False,
      allowed_fast = {}, piece_limit = MAX_TRACKED_PIECES\<rparr>"

definition for_torrent :: "nat \<Rightarrow> peer_state" where
  "for_torrent piece_count = peer_state_default\<lparr>piece_limit := min piece_count MAX_TRACKED_PIECES\<rparr>"

definition may_request :: "peer_state \<Rightarrow> u32 \<Rightarrow> bool" where
  "may_request s piece \<longleftrightarrow> \<not> peer_choking s \<or> (fast s \<and> piece \<in> allowed_fast s)"

definition has_allowed_pieces :: "peer_state \<Rightarrow> bool" where
  "has_allowed_pieces s \<longleftrightarrow> fast s \<and> allowed_fast s \<noteq> {}"

definition ensure_capacity :: "nat \<Rightarrow> bool list \<Rightarrow> bool list" where
  "ensure_capacity piece_index has =
     (if length has \<le> piece_index then has @ replicate (piece_index + 1 - length has) False else has)"

definition byte_bits :: "u8 \<Rightarrow> bool list" where
  "byte_bits b = map (\<lambda>i. drop_bit i b AND 1 = 1) (rev [0..<8])"

definition bytes_to_bitfield :: "bytes \<Rightarrow> bool list" where
  "bytes_to_bitfield bs = concat (map byte_bits bs)"

definition set_piece_bit :: "nat \<times> bool \<Rightarrow> bytes \<Rightarrow> bytes" where
  "set_piece_bit = (\<lambda>(i, has_it) out.
     if has_it then out[i div 8 := (out ! (i div 8)) OR push_bit (7 - i mod 8) 1] else out)"

definition bitfield_to_bytes :: "bool list \<Rightarrow> bytes" where
  "bitfield_to_bytes have = fold set_piece_bit (enumerate 0 have) (replicate ((length have + 7) div 8) 0)"

definition apply_message :: "message \<Rightarrow> peer_state \<Rightarrow> peer_state \<times> bool" where
  "apply_message msg s =
     (case msg of
        Choke \<Rightarrow> (s\<lparr>peer_choking := True\<rparr>, True)
      | Unchoke \<Rightarrow> (s\<lparr>peer_choking := False\<rparr>, True)
      | Interested \<Rightarrow> (s\<lparr>peer_interested := True\<rparr>, True)
      | NotInterested \<Rightarrow> (s\<lparr>peer_interested := False\<rparr>, True)
      | Have piece_index \<Rightarrow>
          let index = unat piece_index
          in if piece_limit s \<le> index then (s, False)
             else (s\<lparr>peer_has_pieces := (ensure_capacity index (peer_has_pieces s))[index := True]\<rparr>, True)
      | Bitfield bits \<Rightarrow> (s\<lparr>peer_has_pieces := take (piece_limit s) (bytes_to_bitfield bits)\<rparr>, True)
      | HaveAll \<Rightarrow> (s\<lparr>peer_has_pieces := replicate (piece_limit s) True\<rparr>, True)
      | HaveNone \<Rightarrow> (s\<lparr>peer_has_pieces := []\<rparr>, True)
      | AllowedFast piece_index \<Rightarrow>
          (if unat piece_index < piece_limit s \<and> card (allowed_fast s) < MAX_ALLOWED_FAST
           then s\<lparr>allowed_fast := insert piece_index (allowed_fast s)\<rparr> else s, True)
      | _ \<Rightarrow> (s, False))"

definition receive :: "message \<Rightarrow> peer_state \<Rightarrow> peer_state" where
  "receive msg s = fst (apply_message msg s)"

section \<open>Invariant and abstraction\<close>

definition peer_bounded :: "peer_state \<Rightarrow> bool" where
  "peer_bounded s \<longleftrightarrow> length (peer_has_pieces s) \<le> piece_limit s \<and> piece_limit s \<le> MAX_TRACKED_PIECES \<and>
     finite (allowed_fast s) \<and> card (allowed_fast s) \<le> MAX_ALLOWED_FAST \<and>
     (\<forall>p \<in> allowed_fast s. unat p < piece_limit s)"

definition has_list :: "bool list \<Rightarrow> nat set" where
  "has_list bs = {i. i < length bs \<and> bs ! i}"

definition pieces_of :: "peer_state \<Rightarrow> nat set" where
  "pieces_of s = has_list (peer_has_pieces s)"

text \<open>What a message says about the set of pieces, in a torrent of \<open>limit\<close> pieces.\<close>

definition spec_pieces :: "nat \<Rightarrow> message \<Rightarrow> nat set \<Rightarrow> nat set" where
  "spec_pieces limit msg S =
     (case msg of
        Have i \<Rightarrow> if unat i < limit then insert (unat i) S else S
      | Bitfield bits \<Rightarrow> {i. i < limit \<and> i < 8 * length bits \<and> bit (bits ! (i div 8)) (7 - i mod 8)}
      | HaveAll \<Rightarrow> {i. i < limit}
      | HaveNone \<Rightarrow> {}
      | _ \<Rightarrow> S)"

lemma drop_bit_and_1: "drop_bit i b AND 1 = (1 :: u8) \<longleftrightarrow> bit b i"
  by (simp add: and_one_eq bit_iff_odd_drop_bit mod_2_eq_odd)

lemma length_byte_bits [simp]: "length (byte_bits b) = 8"
  by (simp add: byte_bits_def)

lemma nth_byte_bits: "i < 8 \<Longrightarrow> byte_bits b ! i = bit b (7 - i)"
  by (simp add: byte_bits_def drop_bit_and_1 rev_nth)

lemma length_bytes_to_bitfield [simp]: "length (bytes_to_bitfield bs) = 8 * length bs"
  by (induction bs) (auto simp: bytes_to_bitfield_def)

lemma nth_bytes_to_bitfield:
  "j < 8 * length bs \<Longrightarrow> bytes_to_bitfield bs ! j = bit (bs ! (j div 8)) (7 - j mod 8)"
proof (induction bs arbitrary: j)
  case (Cons b bs)
  show ?case
  proof (cases "j < 8")
    case True
    then show ?thesis by (simp add: bytes_to_bitfield_def nth_append nth_byte_bits)
  next
    case False
    then obtain k where k: "j = k + 8" by (metis add.commute le_add_diff_inverse not_less)
    with Cons have "bytes_to_bitfield bs ! k = bit (bs ! (k div 8)) (7 - k mod 8)" by simp
    moreover have "(k + 8) div 8 = Suc (k div 8)" by simp
    ultimately show ?thesis using k by (simp add: bytes_to_bitfield_def nth_append)
  qed
qed simp

lemma fold_set_piece_bit:
  "length xs \<le> 8 * length out \<Longrightarrow>
     length (fold set_piece_bit (enumerate 0 xs) out) = length out \<and>
     (\<forall>j < 8 * length out.
        bit (fold set_piece_bit (enumerate 0 xs) out ! (j div 8)) (7 - j mod 8) \<longleftrightarrow>
          bit (out ! (j div 8)) (7 - j mod 8) \<or> (j < length xs \<and> xs ! j))"
proof (induction xs rule: rev_induct)
  case (snoc x xs)
  let ?n = "length xs" and ?r = "fold set_piece_bit (enumerate 0 xs) out"
  have n: "?n div 8 < length out" using snoc.prems by simp
  have sel: "bit (push_bit (7 - ?n mod 8) 1 :: u8) (7 - j mod 8) \<longleftrightarrow> j mod 8 = ?n mod 8" for j :: nat
  proof -
    have "bit (push_bit (7 - ?n mod 8) 1 :: u8) (7 - j mod 8) \<longleftrightarrow> 7 - ?n mod 8 = 7 - j mod 8"
      by (auto simp: bit_exp_iff)
    moreover have "?n mod 8 < 8" "j mod 8 < 8" by simp_all
    ultimately show ?thesis by arith
  qed
  from snoc have IH: "length ?r = length out"
    "\<And>j. j < 8 * length out \<Longrightarrow> bit (?r ! (j div 8)) (7 - j mod 8) \<longleftrightarrow>
       bit (out ! (j div 8)) (7 - j mod 8) \<or> (j < ?n \<and> xs ! j)" by auto
  have eqd: "j = ?n \<longleftrightarrow> j div 8 = ?n div 8 \<and> j mod 8 = ?n mod 8" for j
    by (metis mult_div_mod_eq)
  have r: "fold set_piece_bit (enumerate 0 (xs @ [x])) out = set_piece_bit (?n, x) ?r"
    by (simp add: enumerate_append_eq)
  have st: "bit (set_piece_bit (?n, x) ?r ! (j div 8)) (7 - j mod 8) \<longleftrightarrow>
      bit (?r ! (j div 8)) (7 - j mod 8) \<or> (x \<and> j = ?n)" for j
  proof (cases "x \<and> j div 8 = ?n div 8")
    case True
    with IH(1) n show ?thesis
      using eqd [of j] by (simp add: set_piece_bit_def bit_or_iff sel del: push_bit_of_1)
  next
    case False
    with eqd [of j] show ?thesis by (auto simp: set_piece_bit_def nth_list_update)
  qed
  have "length (set_piece_bit (?n, x) ?r) = length out" using IH(1) by (simp add: set_piece_bit_def)
  with IH(2) st r show ?case by (auto simp: nth_append less_Suc_eq)
qed simp

lemma length_bitfield_to_bytes [simp]: "length (bitfield_to_bytes have) = (length have + 7) div 8"
  using fold_set_piece_bit [of "have" "replicate ((length have + 7) div 8) 0"]
  by (simp add: bitfield_to_bytes_def)

lemma bitfield_bit:
  "j < 8 * ((length have + 7) div 8) \<Longrightarrow>
     bit (bitfield_to_bytes have ! (j div 8)) (7 - j mod 8) \<longleftrightarrow> j < length have \<and> have ! j"
proof -
  assume j: "j < 8 * ((length have + 7) div 8)"
  then have "j div 8 < (length have + 7) div 8" by simp
  then have "\<not> bit (replicate ((length have + 7) div 8) (0 :: u8) ! (j div 8)) (7 - j mod 8)" by simp
  with j show ?thesis
    using fold_set_piece_bit [of "have" "replicate ((length have + 7) div 8) 0"]
    by (simp add: bitfield_to_bytes_def)
qed

lemma has_list_replicate [simp]: "has_list (replicate n True) = {i. i < n}"
  by (auto simp: has_list_def)

lemma has_list_have:
  "has_list ((ensure_capacity i bs)[i := True]) = insert i (has_list bs)"
  by (auto simp: has_list_def ensure_capacity_def nth_list_update nth_append split: if_splits)

lemma length_have:
  "length (ensure_capacity i bs) = max (length bs) (i + 1)"
  by (auto simp: ensure_capacity_def)

lemma pieces_of_receive: "pieces_of (receive msg s) = spec_pieces (piece_limit s) msg (pieces_of s)"
proof (cases msg)
  case (Have i)
  then show ?thesis
    by (auto simp: pieces_of_def receive_def apply_message_def spec_pieces_def has_list_have Let_def)
next
  case (Bitfield bits)
  then show ?thesis
    by (auto simp: pieces_of_def receive_def apply_message_def spec_pieces_def has_list_def nth_bytes_to_bitfield)
qed (auto simp: pieces_of_def receive_def apply_message_def spec_pieces_def has_list_def)

lemma piece_limit_receive [simp]: "piece_limit (receive msg s) = piece_limit s"
  by (cases msg) (auto simp: receive_def apply_message_def Let_def)

lemma peer_bounded_receive: "peer_bounded s \<Longrightarrow> peer_bounded (receive msg s)"
proof (cases msg)
  case (Have i)
  assume "peer_bounded s"
  with Have show ?thesis
    by (auto simp: receive_def apply_message_def peer_bounded_def Let_def length_have)
next
  case (AllowedFast i)
  assume "peer_bounded s"
  with AllowedFast show ?thesis
    by (auto simp: receive_def apply_message_def peer_bounded_def card_insert_if)
qed (simp_all add: receive_def apply_message_def peer_bounded_def)

lemma peer_bounded_for_torrent: "peer_bounded (for_torrent n)"
  by (simp add: peer_bounded_def for_torrent_def peer_state_default_def)

interpretation peer_machine: machine receive peer_bounded
  by standard (rule peer_bounded_receive)

section \<open>Properties\<close>

text \<open>C22: Whatever sequence of messages a peer sends, the memory its state takes is bounded
  by the torrent: at most one flag per piece, at most \<open>MAX_ALLOWED_FAST\<close> allowed-fast
  pieces, all of them pieces of the torrent.\<close>

theorem peer_state_bounded:
  "peer_bounded (fold receive msgs (for_torrent n)) \<and>
   length (peer_has_pieces (fold receive msgs (for_torrent n))) \<le> n"
proof -
  let ?s = "fold receive msgs (for_torrent n)"
  have inv: "peer_bounded ?s"
    using peer_bounded_for_torrent by (rule peer_machine.inv_run)
  have "piece_limit (fold receive msgs s) = piece_limit s" for s
    by (induction msgs arbitrary: s) auto
  then have "piece_limit ?s \<le> n" by (simp add: for_torrent_def)
  with inv show ?thesis by (simp add: peer_bounded_def)
qed

text \<open>C23: The vector of flags implements the set of pieces the peer has: every message has
  on it exactly the effect its specification has on the set.\<close>

theorem peer_pieces_refine:
  "pieces_of (receive msg s) = spec_pieces (piece_limit s) msg (pieces_of s)"
  by (rule pieces_of_receive)

text \<open>C40: Packing our own pieces into a bitfield and unpacking it at the other end gives them
  back, followed by zero padding to a whole byte and nothing more.\<close>

theorem bitfield_roundtrip:
  "bytes_to_bitfield (bitfield_to_bytes have) =
     have @ replicate (8 * ((length have + 7) div 8) - length have) False"
proof (rule nth_equalityI)
  show "length (bytes_to_bitfield (bitfield_to_bytes have)) =
      length (have @ replicate (8 * ((length have + 7) div 8) - length have) False)" by simp
  fix j assume "j < length (bytes_to_bitfield (bitfield_to_bytes have))"
  then show "bytes_to_bitfield (bitfield_to_bytes have) ! j =
      (have @ replicate (8 * ((length have + 7) div 8) - length have) False) ! j"
    by (simp add: nth_bytes_to_bitfield bitfield_bit nth_append)
qed

end
