(* ===== verification/Rust_Std.thy ===== *)
theory Rust_Std
  imports Rust_Prelude "HOL-Library.Multiset"
begin

text \<open>
  What the sources use of the standard library on slices and integers: \<open>chunks\<close>,
  \<open>copy_from_slice\<close>, \<open>resize\<close>, \<open>div_ceil\<close>, powers of two, and sequencing of code that
  may panic. \<open>incremental_hash\<close> is the contract of a hasher that is fed in parts.
\<close>

section \<open>Code that may panic\<close>

definition on_ret :: "'a outcome \<Rightarrow> ('a \<Rightarrow> 'b outcome) \<Rightarrow> 'b outcome" where
  "on_ret r k = (case r of Ret a \<Rightarrow> k a | Panic \<Rightarrow> Panic)"

lemma on_ret_simps [simp]:
  "on_ret (Ret a) k = k a"
  "on_ret Panic k = Panic"
  by (simp_all add: on_ret_def)

lemma on_ret_Ret_iff [res_iff]: "on_ret r k = Ret b \<longleftrightarrow> (\<exists>a. r = Ret a \<and> k a = Ret b)"
  by (cases r) auto

lemma on_ret_Panic_iff [res_iff]: "on_ret r k = Panic \<longleftrightarrow> r = Panic \<or> (\<exists>a. r = Ret a \<and> k a = Panic)"
  by (cases r) auto

lemma on_ret_cong [fundef_cong]:
  "r = r' \<Longrightarrow> (\<And>a. r' = Ret a \<Longrightarrow> k a = k' a) \<Longrightarrow> on_ret r k = on_ret r' k'"
  by (cases r') auto

text \<open>The code returns, and what it returns has a property.\<close>

definition returns :: "'a outcome \<Rightarrow> ('a \<Rightarrow> bool) \<Rightarrow> bool" where
  "returns r P = (case r of Ret a \<Rightarrow> P a | Panic \<Rightarrow> False)"

lemma returns_simps [simp]:
  "returns (Ret a) P = P a"
  "returns (on_ret r k) P = returns r (\<lambda>a. returns (k a) P)"
  by (cases r; simp add: returns_def)+

lemma returns_mono: "returns r P \<Longrightarrow> (\<And>a. r = Ret a \<Longrightarrow> P a \<Longrightarrow> Q a) \<Longrightarrow> returns r Q"
  by (cases r) (simp_all add: returns_def)

lemma returns_iff: "returns r P \<longleftrightarrow> (\<exists>a. r = Ret a \<and> P a)"
  by (cases r) (simp_all add: returns_def)

text \<open>Subtraction of unsigned integers, which panics below zero, and a counter of 32 bits.\<close>

definition usize_sub :: "nat \<Rightarrow> nat \<Rightarrow> nat outcome" where
  "usize_sub a b = (if b \<le> a then Ret (a - b) else Panic)"

definition u32_inc :: "nat \<Rightarrow> nat outcome" where
  "u32_inc n = (if n + 1 < 2 ^ 32 then Ret (n + 1) else Panic)"

section \<open>Slices\<close>

text \<open>\<open>buf[at..at + data.len()].copy_from_slice(data)\<close>\<close>

definition copy_into :: "'a list \<Rightarrow> nat \<Rightarrow> 'a list \<Rightarrow> 'a list" where
  "copy_into buf pos data = take pos buf @ data @ drop (pos + length data) buf"

lemma length_copy_into:
  "pos + length data \<le> length buf \<Longrightarrow> length (copy_into buf pos data) = length buf"
  by (simp add: copy_into_def)

lemma take_copy_into:
  "pos \<le> length buf \<Longrightarrow> take (pos + length data) (copy_into buf pos data) = take pos buf @ data"
  by (simp add: copy_into_def min_absorb2)

text \<open>\<open>Vec::resize\<close>\<close>

definition resize :: "nat \<Rightarrow> 'a \<Rightarrow> 'a list \<Rightarrow> 'a list" where
  "resize n x xs = take n xs @ replicate (n - length xs) x"

lemma length_resize [simp]: "length (resize n x xs) = n"
  by (simp add: resize_def)

lemma resize_ge: "length xs \<le> n \<Longrightarrow> resize n x xs = xs @ replicate (n - length xs) x"
  by (simp add: resize_def)

lemma set_resize: "set (resize n x xs) \<subseteq> insert x (set xs)"
  by (auto simp: resize_def dest: in_set_takeD)

lemma chunks_append:
  "0 < n \<Longrightarrow> length a mod n = 0 \<Longrightarrow> chunks n (a @ b) = chunks n a @ chunks n b"
proof (induction n a rule: chunks.induct)
  case (1 n a)
  show ?case
  proof (cases "length a < n")
    case True
    with 1 have "a = []" by (cases a) auto
    with 1 show ?thesis by (simp add: chunks.simps [of n "[]"])
  next
    case False
    with 1 have "chunks n (drop n a @ b) = chunks n (drop n a) @ chunks n b"
      by (simp add: mod_diff_right_eq le_mod_geq)
    with False 1 show ?thesis by (simp add: chunks.simps [of n a] chunks.simps [of n "a @ b"])
  qed
qed

lemma chunks_short: "length b < n \<Longrightarrow> chunks n b = []"
  by (simp add: chunks.simps [of n b])

lemma chunks_split:
  "0 < n \<Longrightarrow> chunks n (a @ b) = chunks n (take (n * (length a div n)) a) @ chunks n (drop (n * (length a div n)) a @ b)"
proof -
  assume n: "0 < n"
  have "chunks n (take (n * (length a div n)) a @ drop (n * (length a div n)) a @ b) =
      chunks n (take (n * (length a div n)) a) @ chunks n (drop (n * (length a div n)) a @ b)"
    using n by (intro chunks_append) (simp_all add: min_absorb2)
  then show ?thesis by (simp flip: append_assoc)
qed

lemma chunks_take:
  "0 < n \<Longrightarrow> chunks n (take (n * (length a div n)) a) = chunks n a"
  using chunks_split [of n a "[]"] by (simp add: chunks_short minus_mult_div_eq_mod)

lemma chunks_exact:
  "0 < n \<Longrightarrow> length xs = n * k \<Longrightarrow> concat (chunks n xs) = xs"
proof (induction k arbitrary: xs)
  case (Suc k)
  then have "concat (chunks n (drop n xs)) = drop n xs" by simp
  with Suc show ?case by (simp add: chunks.simps [of n xs])
qed (simp add: chunks_short)

text \<open>\<open>slice::chunks\<close>: the last chunk is as short as it has to be.\<close>

function slice_chunks :: "nat \<Rightarrow> 'a list \<Rightarrow> 'a list list" where
  "slice_chunks n xs = (if n = 0 \<or> xs = [] then [] else take n xs # slice_chunks n (drop n xs))"
  by auto
termination by (relation "measure (\<lambda>(n, xs). length xs)") auto

declare slice_chunks.simps [simp del]

lemma slice_chunks_Nil [simp]: "slice_chunks n [] = []"
  by (simp add: slice_chunks.simps)

lemma concat_slice_chunks: "0 < n \<Longrightarrow> concat (slice_chunks n xs) = xs"
  by (induction n xs rule: slice_chunks.induct) (simp add: slice_chunks.simps)

text \<open>\<open>Iterator::min_by_key\<close>: the first of the least.\<close>

primrec min_by_key :: "('a \<Rightarrow> 'k::linorder) \<Rightarrow> 'a list \<Rightarrow> 'a option" where
  "min_by_key f [] = None"
| "min_by_key f (x # xs) =
     (case min_by_key f xs of None \<Rightarrow> Some x | Some y \<Rightarrow> if f x \<le> f y then Some x else Some y)"

lemma min_by_key_None [simp]: "min_by_key f xs = None \<longleftrightarrow> xs = []"
  by (cases xs) (auto split: option.splits)

lemma min_by_key_Some: "min_by_key f xs = Some x \<Longrightarrow> x \<in> set xs \<and> (\<forall>y\<in>set xs. f x \<le> f y)"
proof (induction xs arbitrary: x)
  case (Cons a xs)
  then show ?case by (cases "min_by_key f xs") (fastforce split: if_splits)+
qed simp

text \<open>\<open>Iterator::max_by_key\<close>: the last of the greatest.\<close>

primrec max_by_key :: "('a \<Rightarrow> 'k::linorder) \<Rightarrow> 'a list \<Rightarrow> 'a option" where
  "max_by_key f [] = None"
| "max_by_key f (x # xs) =
     (case max_by_key f xs of None \<Rightarrow> Some x | Some y \<Rightarrow> if f y < f x then Some x else Some y)"

lemma max_by_key_None [simp]: "max_by_key f xs = None \<longleftrightarrow> xs = []"
  by (cases xs) (auto split: option.splits)

lemma max_by_key_Some: "max_by_key f xs = Some x \<Longrightarrow> x \<in> set xs \<and> (\<forall>y\<in>set xs. f y \<le> f x)"
proof (induction xs arbitrary: x)
  case (Cons a xs)
  then show ?case by (cases "max_by_key f xs") (fastforce split: if_splits)+
qed simp

text \<open>\<open>Vec::swap_remove\<close> at an index within the vector.\<close>

definition swap_remove :: "nat \<Rightarrow> 'a list \<Rightarrow> 'a list" where
  "swap_remove i xs = (if Suc i = length xs then butlast xs else (butlast xs)[i := last xs])"

lemma mset_swap_remove: "i < length xs \<Longrightarrow> mset (swap_remove i xs) = mset xs - {#xs ! i#}"
proof -
  assume i: "i < length xs"
  then have ne: "xs \<noteq> []" by auto
  have whole: "mset xs = add_mset (last xs) (mset (butlast xs))"
    using arg_cong [OF append_butlast_last_id [OF ne], of mset] by simp
  show ?thesis
  proof (cases "Suc i = length xs")
    case True
    then have "xs ! i = last xs" using ne by (simp add: last_conv_nth flip: True)
    then show ?thesis using True whole by (simp add: swap_remove_def)
  next
    case False
    with i have b: "i < length (butlast xs)" by simp
    moreover have "butlast xs ! i = xs ! i" using b by (rule nth_butlast)
    moreover have "xs ! i \<in># mset (butlast xs)" using b nth_butlast [OF b] nth_mem [OF b] by simp
    ultimately show ?thesis using False whole by (simp add: swap_remove_def mset_update)
  qed
qed

lemma swap_remove_perm: "i < length xs \<Longrightarrow> mset (xs ! i # swap_remove i xs) = mset xs"
  by (simp add: mset_swap_remove)

lemma swap_remove_distinct:
  assumes "i < length xs" "distinct (map f xs)"
  shows "distinct (map f (swap_remove i xs))" "f ` set (swap_remove i xs) = f ` set xs - {f (xs ! i)}"
    "length xs = Suc (length (swap_remove i xs))"
proof -
  have m: "mset (map f (xs ! i # swap_remove i xs)) = mset (map f xs)"
    using swap_remove_perm [OF assms(1)] by (simp only: mset_map)
  then have d: "distinct (map f (xs ! i # swap_remove i xs))" using assms(2) mset_eq_imp_distinct_iff by blast
  moreover have "set (map f (xs ! i # swap_remove i xs)) = set (map f xs)" using m mset_eq_setD by blast
  ultimately show "distinct (map f (swap_remove i xs))" "f ` set (swap_remove i xs) = f ` set xs - {f (xs ! i)}"
    by (simp_all add: image_set [symmetric] del: image_set) (metis Diff_insert_absorb list.set_map)
  show "length xs = Suc (length (swap_remove i xs))" using mset_eq_length [OF swap_remove_perm [OF assms(1)]] by simp
qed

text \<open>\<open>Iterator::position\<close>: the index of the first element that satisfies a test.\<close>

definition iter_position :: "('a \<Rightarrow> bool) \<Rightarrow> 'a list \<Rightarrow> nat option" where
  "iter_position P xs = (let i = length (takeWhile (\<lambda>x. \<not> P x) xs) in if i < length xs then Some i else None)"

lemma iter_position_Some: "iter_position P xs = Some i \<Longrightarrow> i < length xs \<and> P (xs ! i)"
  using nth_length_takeWhile [of "\<lambda>x. \<not> P x" xs] by (auto simp: iter_position_def Let_def split: if_splits)

lemma iter_position_None: "iter_position P xs = None \<longleftrightarrow> \<not> (\<exists>x\<in>set xs. P x)"
proof
  assume "iter_position P xs = None"
  then have "length xs \<le> length (takeWhile (\<lambda>x. \<not> P x) xs)" by (simp add: iter_position_def Let_def split: if_splits)
  then have "takeWhile (\<lambda>x. \<not> P x) xs = xs" by (metis takeWhile_eq_take take_all)
  then show "\<not> (\<exists>x\<in>set xs. P x)" by (simp add: takeWhile_eq_all_conv)
next
  assume "\<not> (\<exists>x\<in>set xs. P x)"
  then have "takeWhile (\<lambda>x. \<not> P x) xs = xs" by (simp add: takeWhile_eq_all_conv)
  then show "iter_position P xs = None" unfolding iter_position_def by (simp only: Let_def) simp
qed

section \<open>Maps kept as association lists\<close>

definition al_insert :: "'k \<Rightarrow> 'v \<Rightarrow> ('k \<times> 'v) list \<Rightarrow> ('k \<times> 'v) list" where
  "al_insert k v m = (k, v) # filter (\<lambda>e. fst e \<noteq> k) m"

definition al_remove :: "'k \<Rightarrow> ('k \<times> 'v) list \<Rightarrow> ('k \<times> 'v) list" where
  "al_remove k m = filter (\<lambda>e. fst e \<noteq> k) m"

lemma al_keys [simp]:
  "fst ` set (al_insert k v m) = insert k (fst ` set m)"
  "fst ` set (al_remove k m) = fst ` set m - {k}"
  by (auto simp: al_insert_def al_remove_def)

lemma al_distinct [simp]:
  "distinct (map fst m) \<Longrightarrow> distinct (map fst (al_insert k v m))"
  "distinct (map fst m) \<Longrightarrow> distinct (map fst (al_remove k m))"
  by (auto simp: al_insert_def al_remove_def distinct_map_filter)

lemma length_al_remove: "distinct (map fst m) \<Longrightarrow> k \<in> fst ` set m \<Longrightarrow> length m = Suc (length (al_remove k m))"
proof (induction m)
  case (Cons e m)
  show ?case
  proof (cases "fst e = k")
    case True
    with Cons.prems have "filter (\<lambda>x. fst x \<noteq> k) m = m" by (intro filter_True) (metis distinct.simps(2) image_eqI list.set_map list.simps(9))
    with True show ?thesis by (simp add: al_remove_def)
  next
    case False
    with Cons show ?thesis by (auto simp: al_remove_def)
  qed
qed simp

lemma map_of_al_remove: "map_of (al_remove k m) = (map_of m)(k := None)"
  by (induction m) (auto simp: al_remove_def fun_eq_iff)

lemma map_of_al_insert: "map_of (al_insert k v m) = (map_of m)(k \<mapsto> v)"
  using map_of_al_remove [of k m] by (auto simp: al_insert_def al_remove_def fun_eq_iff)

text \<open>\<open>get_mut\<close>: the entry of a key, if there is one, is changed in place.\<close>

definition al_modify :: "'k \<Rightarrow> ('v \<Rightarrow> 'v) \<Rightarrow> ('k \<times> 'v) list \<Rightarrow> ('k \<times> 'v) list" where
  "al_modify k f m = map (\<lambda>e. if fst e = k then (fst e, f (snd e)) else e) m"

lemma al_modify_keys [simp]: "map fst (al_modify k f m) = map fst m"
  by (induction m) (auto simp: al_modify_def)

lemma map_of_al_modify: "map_of (al_modify k f m) = (map_of m)(k := map_option f (map_of m k))"
  by (induction m) (auto simp: al_modify_def fun_eq_iff)

text \<open>\<open>BTreeMap::insert\<close> on the entries in the order of their keys.\<close>

fun bt_insert :: "'k::linorder \<Rightarrow> 'v \<Rightarrow> ('k \<times> 'v) list \<Rightarrow> ('k \<times> 'v) list" where
  "bt_insert k v [] = [(k, v)]"
| "bt_insert k v (e # m) =
     (if k < fst e then (k, v) # e # m else if k = fst e then (k, v) # m else e # bt_insert k v m)"

lemma bt_insert_keys: "fst ` set (bt_insert k v m) = insert k (fst ` set m)"
  by (induction m) auto

lemma set_bt_insert: "set (bt_insert k v m) \<subseteq> insert (k, v) (set m)"
  by (induction m) auto

lemma sorted_bt_insert: "sorted_wrt (<) (map fst m) \<Longrightarrow> sorted_wrt (<) (map fst (bt_insert k v m))"
proof (induction m)
  case (Cons e m)
  have keys: "set (map fst (bt_insert k v m)) = insert k (set (map fst m))" using bt_insert_keys [of k v m] by (simp only: set_map)
  consider "k < fst e" | "k = fst e" | "fst e < k" by (rule linorder_cases)
  then show ?case
  proof cases
    case 1
    with Cons.prems show ?thesis by (auto intro: less_trans)
  next
    case 2
    with Cons.prems show ?thesis by simp
  next
    case 3
    then have "bt_insert k v (e # m) = e # bt_insert k v m" by auto
    with 3 Cons keys show ?thesis by (simp only: list.map sorted_wrt.simps) simp
  qed
qed simp

lemma map_of_bt_insert: "sorted_wrt (<) (map fst m) \<Longrightarrow> map_of (bt_insert k v m) = (map_of m)(k \<mapsto> v)"
proof (induction m)
  case (Cons e m)
  then show ?case by (cases "k < fst e"; cases "k = fst e") (auto simp: fun_eq_iff)
qed simp

lemma bt_insert_last: "\<forall>e\<in>set m. fst e < k \<Longrightarrow> bt_insert k v m = m @ [(k, v)]"
  by (induction m) auto

section \<open>Integers\<close>

definition div_ceil :: "nat \<Rightarrow> nat \<Rightarrow> nat" where
  "div_ceil a b = (if a mod b = 0 then a div b else a div b + 1)"

fun is_power_of_two :: "nat \<Rightarrow> bool" where
  "is_power_of_two n = (if n \<le> 1 then n = 1 else even n \<and> is_power_of_two (n div 2))"

text \<open>The first argument is the width of the integer, which is what zero gives.\<close>

fun trailing_zeros :: "nat \<Rightarrow> nat \<Rightarrow> nat" where
  "trailing_zeros w n = (if n = 0 then w else if odd n then 0 else Suc (trailing_zeros w (n div 2)))"

fun next_power_of_two :: "nat \<Rightarrow> nat" where
  "next_power_of_two n = (if n \<le> 1 then 1 else 2 * next_power_of_two ((n + 1) div 2))"

declare is_power_of_two.simps [simp del] trailing_zeros.simps [simp del] next_power_of_two.simps [simp del]

lemma is_power_of_two_iff: "is_power_of_two n \<longleftrightarrow> (\<exists>k. n = 2 ^ k)"
proof (induction n rule: is_power_of_two.induct)
  case (1 n)
  show ?case
  proof (cases "n \<le> 1")
    case True
    moreover have "(2::nat) ^ k \<le> 1 \<Longrightarrow> k = 0" for k
      using less_exp [of k] by linarith
    ultimately show ?thesis
      by (auto simp: is_power_of_two.simps [of n] intro: exI [of _ 0])
  next
    case False
    have "(even n \<and> (\<exists>k. n div 2 = 2 ^ k)) = (\<exists>k. n = 2 ^ k)"
    proof
      assume "even n \<and> (\<exists>k. n div 2 = 2 ^ k)"
      then obtain k where "n = 2 ^ Suc k" by (metis dvd_mult_div_cancel power_Suc)
      then show "\<exists>k. n = 2 ^ k" by blast
    next
      assume "\<exists>k. n = 2 ^ k"
      then obtain k where "n = 2 ^ k" by blast
      with False show "even n \<and> (\<exists>k. n div 2 = 2 ^ k)" by (cases k) auto
    qed
    with 1 False show ?thesis by (simp add: is_power_of_two.simps [of n])
  qed
qed

lemma is_power_of_two_power [simp]: "is_power_of_two (2 ^ k)"
  by (auto simp: is_power_of_two_iff)

lemma trailing_zeros_power [simp]: "trailing_zeros w (2 ^ k) = k"
  by (induction k) (simp_all add: trailing_zeros.simps)

lemma next_power_of_two_power: "\<exists>k. next_power_of_two n = 2 ^ k"
proof (induction n rule: next_power_of_two.induct)
  case (1 n)
  then show ?case
    by (cases "n \<le> 1") (auto simp: next_power_of_two.simps [of n] intro: exI [of _ 0] simp flip: power_Suc)
qed

lemma next_power_of_two_ge: "n \<le> next_power_of_two n"
proof (induction n rule: next_power_of_two.induct)
  case (1 n)
  show ?case
  proof (cases "n \<le> 1")
    case False
    with 1 have "(n + 1) div 2 \<le> next_power_of_two ((n + 1) div 2)" by simp
    with False show ?thesis by (simp add: next_power_of_two.simps [of n])
  qed (simp add: next_power_of_two.simps [of n])
qed

lemma next_power_of_two_half: "1 < n \<Longrightarrow> next_power_of_two n < 2 * n"
proof (induction n rule: next_power_of_two.induct)
  case (1 n)
  show ?case
  proof (cases "n = 2")
    case False
    with 1 have "next_power_of_two ((n + 1) div 2) < 2 * ((n + 1) div 2)" by simp
    moreover obtain k where k: "next_power_of_two ((n + 1) div 2) = 2 ^ k" using next_power_of_two_power by blast
    ultimately have "2 * 2 ^ k < 2 * n" using 1(2) False by (cases k) auto
    with 1(2) k show ?thesis by (simp add: next_power_of_two.simps [of n])
  qed (simp add: next_power_of_two.simps)
qed

lemma add_no_carry:
  fixes a b n :: nat
  assumes "a mod n + b < n"
  shows "(a + b) mod n = a mod n + b" "(a + b) div n = a div n"
proof -
  have "a + b = (a mod n + b) + a div n * n" by (simp add: add.commute add.left_commute)
  moreover have "n \<noteq> 0" using assms by auto
  ultimately show "(a + b) mod n = a mod n + b" "(a + b) div n = a div n"
    using assms by (simp_all only: mod_mult_self1 div_mult_self1 mod_less div_less not_False_eq_True add_0_left add_0_right)
qed

section \<open>Hashing in parts\<close>

locale incremental_hash =
  fixes hash_new :: 's and hash_update :: "bytes \<Rightarrow> 's \<Rightarrow> 's" and hash_finalize :: "'s \<Rightarrow> bytes"
    and digest :: "bytes \<Rightarrow> bytes"
  assumes finalize_parts: "hash_finalize (fold hash_update ds hash_new) = digest (concat ds)"
begin

lemma finalize_two: "hash_finalize (hash_update b (hash_update a hash_new)) = digest (a @ b)"
  using finalize_parts [of "[a, b]"] by simp

lemma finalize_cong: "concat ds = concat es \<Longrightarrow>
    hash_finalize (fold hash_update ds hash_new) = hash_finalize (fold hash_update es hash_new)"
  by (simp add: finalize_parts)

end

end
