(* ===== verification/Sha256.thy ===== *)
theory Sha256
  imports Rust_Std
begin

text \<open>
  The hand-written SHA-256 of \<^verbatim>\<open>src/src/sha256.rs\<close>: the compression function, the
  incremental hasher with its partly filled block buffer, and the padding of
  \<open>finalize\<close>. The reference is the standard's own shape: pad the whole message, cut it
  into blocks and fold the compression function over them. The hasher is shown to
  compute the reference however its input is split over calls of \<open>update\<close>.
\<close>

unbundle bit_operations_syntax

section \<open>The code\<close>

definition K256 :: "u32 list" where
  "K256 =
    [0x428a2f98, 0x71374491, 0xb5c0fbcf, 0xe9b5dba5, 0x3956c25b, 0x59f111f1, 0x923f82a4, 0xab1c5ed5]
   @ [0xd807aa98, 0x12835b01, 0x243185be, 0x550c7dc3, 0x72be5d74, 0x80deb1fe, 0x9bdc06a7, 0xc19bf174]
   @ [0xe49b69c1, 0xefbe4786, 0x0fc19dc6, 0x240ca1cc, 0x2de92c6f, 0x4a7484aa, 0x5cb0a9dc, 0x76f988da]
   @ [0x983e5152, 0xa831c66d, 0xb00327c8, 0xbf597fc7, 0xc6e00bf3, 0xd5a79147, 0x06ca6351, 0x14292967]
   @ [0x27b70a85, 0x2e1b2138, 0x4d2c6dfc, 0x53380d13, 0x650a7354, 0x766a0abb, 0x81c2c92e, 0x92722c85]
   @ [0xa2bfe8a1, 0xa81a664b, 0xc24b8b70, 0xc76c51a3, 0xd192e819, 0xd6990624, 0xf40e3585, 0x106aa070]
   @ [0x19a4c116, 0x1e376c08, 0x2748774c, 0x34b0bcb5, 0x391c0cb3, 0x4ed8aa4a, 0x5b9cca4f, 0x682e6ff3]
   @ [0x748f82ee, 0x78a5636f, 0x84c87814, 0x8cc70208, 0x90befffa, 0xa4506ceb, 0xbef9a3f7, 0xc67178f2]"

definition INITIAL256 :: "u32 list" where
  "INITIAL256 =
    [0x6a09e667, 0xbb67ae85, 0x3c6ef372, 0xa54ff53a, 0x510e527f, 0x9b05688c, 0x1f83d9ab, 0x5be0cd19]"

record sha256_state =
  sh_state :: "u32 list"
  sh_buffer :: bytes
  sh_buffered :: nat
  sh_length :: u64

definition sha256_new :: sha256_state where
  "sha256_new = \<lparr>sh_state = INITIAL256, sh_buffer = replicate 64 0, sh_buffered = 0, sh_length = 0\<rparr>"

text \<open>The message schedule, built up one word at a time.\<close>

definition schedule_step :: "nat \<Rightarrow> u32 list \<Rightarrow> u32 list" where
  "schedule_step i w =
     (let s0 = word_rotr 7 (w ! (i - 15)) XOR word_rotr 18 (w ! (i - 15)) XOR drop_bit 3 (w ! (i - 15));
          s1 = word_rotr 17 (w ! (i - 2)) XOR word_rotr 19 (w ! (i - 2)) XOR drop_bit 10 (w ! (i - 2))
      in w @ [w ! (i - 16) + s0 + w ! (i - 7) + s1])"

definition schedule :: "bytes \<Rightarrow> u32 list" where
  "schedule block = fold schedule_step [16..<64] (map (\<lambda>b. of_nat (nat_be b)) (chunks 4 block))"

definition round_step :: "u32 list \<Rightarrow> nat
    \<Rightarrow> u32 \<times> u32 \<times> u32 \<times> u32 \<times> u32 \<times> u32 \<times> u32 \<times> u32
    \<Rightarrow> u32 \<times> u32 \<times> u32 \<times> u32 \<times> u32 \<times> u32 \<times> u32 \<times> u32" where
  "round_step w i = (\<lambda>(a, b, c, d, e, f, g, h).
     let s1 = word_rotr 6 e XOR word_rotr 11 e XOR word_rotr 25 e;
         ch = (e AND f) XOR (NOT e AND g);
         t1 = h + s1 + ch + K256 ! i + w ! i;
         s0 = word_rotr 2 a XOR word_rotr 13 a XOR word_rotr 22 a;
         maj = (a AND b) XOR (a AND c) XOR (b AND c);
         t2 = s0 + maj
     in (t1 + t2, a, b, c, d + t1, e, f, g))"

definition compress :: "bytes \<Rightarrow> u32 list \<Rightarrow> u32 list" where
  "compress block state =
     (let w = schedule block;
          start = (state ! 0, state ! 1, state ! 2, state ! 3, state ! 4, state ! 5, state ! 6, state ! 7)
      in case fold (round_step w) [0..<64] start of
           (a, b, c, d, e, f, g, h) \<Rightarrow> map2 (+) state [a, b, c, d, e, f, g, h])"

text \<open>The second half of \<open>update\<close>: whole blocks straight from the input, the rest buffered.\<close>

definition update_blocks :: "bytes \<Rightarrow> sha256_state \<Rightarrow> sha256_state" where
  "update_blocks data s =
     (let blocks = chunks 64 data; rest = drop (64 * length blocks) data
      in s\<lparr>sh_state := fold compress blocks (sh_state s),
           sh_buffer := copy_into (sh_buffer s) 0 rest,
           sh_buffered := length rest\<rparr>)"

definition sha256_update :: "bytes \<Rightarrow> sha256_state \<Rightarrow> sha256_state" where
  "sha256_update data s =
     (let s1 = s\<lparr>sh_length := sh_length s + of_nat (length data)\<rparr>
      in if 0 < sh_buffered s1 then
           let n = min (64 - sh_buffered s1) (length data);
               s2 = s1\<lparr>sh_buffer := copy_into (sh_buffer s1) (sh_buffered s1) (take n data),
                       sh_buffered := sh_buffered s1 + n\<rparr>
           in if sh_buffered s2 < 64 then s2
              else update_blocks (drop n data)
                     (s2\<lparr>sh_state := compress (sh_buffer s2) (sh_state s2), sh_buffered := 0\<rparr>)
         else update_blocks data s1)"

definition sha256_finalize :: "sha256_state \<Rightarrow> bytes" where
  "sha256_finalize s =
     (let bits = sh_length s * 8;
          tail = (128 # replicate ((119 - sh_buffered s) mod 64) 0) @ u64_be bits
      in concat (map (\<lambda>w. u32_be w) (sh_state (sha256_update tail s))))"

definition sha256 :: "bytes \<Rightarrow> bytes" where
  "sha256 data = sha256_finalize (sha256_update data sha256_new)"

section \<open>The reference\<close>

definition pad256 :: "bytes \<Rightarrow> bytes" where
  "pad256 m = m @ 128 # replicate ((119 - length m mod 64) mod 64) 0 @ u64_be (of_nat (length m) * 8)"

definition sha256_ref :: "bytes \<Rightarrow> bytes" where
  "sha256_ref m = concat (map (\<lambda>w. u32_be w) (fold compress (chunks 64 (pad256 m)) INITIAL256))"

text \<open>The hasher holds the message \<open>m\<close> so far.\<close>

definition absorbed :: "sha256_state \<Rightarrow> bytes \<Rightarrow> bool" where
  "absorbed s m \<longleftrightarrow>
     sh_state s = fold compress (chunks 64 m) INITIAL256 \<and>
     sh_buffered s = length m mod 64 \<and> length (sh_buffer s) = 64 \<and>
     take (sh_buffered s) (sh_buffer s) = drop (64 * (length m div 64)) m \<and>
     sh_length s = of_nat (length m)"

lemma fill_block: "(a + (64 - a mod 64)) mod 64 = (0::nat)"
proof -
  have "(a + (64 - a mod 64)) mod 64 = (a mod 64 + (64 - a mod 64)) mod 64" by (simp only: mod_add_left_eq)
  also have "a mod 64 + (64 - a mod 64) = 64" using mod_less_divisor [of 64 a] by linarith
  finally show ?thesis by simp
qed

lemma absorbed_new: "absorbed sha256_new []"
  by (simp add: absorbed_def sha256_new_def chunks_short)

text \<open>
  \<open>update_blocks\<close> on a hasher whose buffer is empty: \<open>m\<close> is a whole number of blocks.
\<close>

lemma absorbed_blocks:
  assumes "sh_state s = fold compress (chunks 64 m) INITIAL256" "length m mod 64 = 0"
    "length (sh_buffer s) = 64" "sh_length s = of_nat (length (m @ data))"
  shows "absorbed (update_blocks data s) (m @ data)"
proof -
  have len: "64 * length (chunks 64 data) = 64 * (length data div 64)" by (simp add: chunks_length)
  have m: "length m = 64 * (length m div 64)" using assms(2) by (simp add: mod_0_imp_dvd)
  have sum: "(length m + length data) div 64 = length m div 64 + length data div 64"
    "(length m + length data) mod 64 = length data mod 64"
    using assms(2) by (simp_all add: mod_0_imp_dvd div_plus_div_distrib_dvd_left mod_add_eq [of "length m", symmetric])
  have rest: "drop (64 * ((length m + length data) div 64)) (m @ data) = drop (64 * (length data div 64)) data"
    using m by (simp add: sum distrib_left)
  have tail: "length data - 64 * (length data div 64) = length data mod 64"
    by (simp add: minus_mult_div_eq_mod)
  show ?thesis
    unfolding absorbed_def length_append sum(2) rest
    using assms by (simp add: update_blocks_def Let_def len chunks_append tail copy_into_def)
qed

text \<open>Input that does not fill the buffer changes no block, input that does adds one.\<close>

lemma chunks_partial:
  "length m mod 64 + length data < 64 \<Longrightarrow> chunks 64 (m @ data) = chunks 64 m"
  using chunks_split [of 64 m data]
  by (simp add: chunks_take chunks_short minus_mult_div_eq_mod)

lemma chunks_fill:
  "length m mod 64 + length data = 64 \<Longrightarrow>
   chunks 64 (m @ data) = chunks 64 m @ [drop (64 * (length m div 64)) m @ data]"
  using chunks_split [of 64 m data]
  by (simp add: chunks_take minus_mult_div_eq_mod chunks.simps [of 64 "drop (64 * (length m div 64)) m @ data"]
      chunks_short)

lemma absorbed_update:
  assumes "absorbed s m"
  shows "absorbed (sha256_update data s) (m @ data)"
proof -
  let ?b = "sh_buffered s" and ?t = "drop (64 * (length m div 64)) m"
  have s: "sh_state s = fold compress (chunks 64 m) INITIAL256" "?b = length m mod 64"
    "length (sh_buffer s) = 64" "take ?b (sh_buffer s) = ?t" "sh_length s = of_nat (length m)"
    using assms by (auto simp: absorbed_def)
  have b: "?b < 64" by (simp add: s)
  consider (empty) "?b = 0" | (short) "0 < ?b" "?b + length data < 64"
    | (fill) "0 < ?b" "64 \<le> ?b + length data" by linarith
  then show ?thesis
  proof cases
    case empty
    then have "absorbed (update_blocks data (s\<lparr>sh_length := sh_length s + of_nat (length data)\<rparr>)) (m @ data)"
      using s by (intro absorbed_blocks) simp_all
    with empty show ?thesis by (simp add: sha256_update_def Let_def)
  next
    case short
    have "(length m + length data) mod 64 = ?b + length data" "(length m + length data) div 64 = length m div 64"
      using short(2) s(2) by (simp_all add: add_no_carry)
    moreover have "64 * (length m div 64) \<le> length m" by simp
    ultimately show ?thesis using short b s
      by (simp add: absorbed_def sha256_update_def Let_def min_absorb2 length_copy_into take_copy_into
        chunks_partial)
  next
    case fill
    let ?n = "64 - ?b"
    let ?c = "copy_into (sh_buffer s) ?b (take ?n data)"
    let ?s = "s\<lparr>sh_length := sh_length s + of_nat (length data), sh_buffer := ?c,
                sh_state := compress ?c (sh_state s), sh_buffered := 0\<rparr>"
    have n: "length (take ?n data) = ?n" using fill by (simp add: min_absorb2)
    have c: "?c = ?t @ take ?n data" using b s(3,4) n by (simp add: copy_into_def)
    have "absorbed (update_blocks (drop ?n data) ?s) ((m @ take ?n data) @ drop ?n data)"
    proof (rule absorbed_blocks)
      show "sh_state ?s = fold compress (chunks 64 (m @ take ?n data)) INITIAL256"
        using chunks_fill [of m "take ?n data"] b s(1,2) n
        unfolding c by (simp del: length_take)
      show "length (m @ take ?n data) mod 64 = 0" 
        using fill_block [of "length m"] unfolding length_append n unfolding s(2) .
      show "length (sh_buffer ?s) = 64" using s(3) n b by (simp add: length_copy_into del: length_take)
    qed (use s fill in simp)
    with fill b show ?thesis by (simp add: sha256_update_def Let_def min_absorb1)
  qed
qed

lemma absorbed_fold: "absorbed s m \<Longrightarrow> absorbed (fold sha256_update ds s) (m @ concat ds)"
proof (induction ds arbitrary: s m)
  case (Cons d ds)
  from Cons.IH [OF absorbed_update [OF Cons.prems, of d]] show ?case by simp
qed simp

lemma absorbed_finalize:
  assumes "absorbed s m"
  shows "sha256_finalize s = sha256_ref m"
proof -
  let ?tail = "(128 # replicate ((119 - length m mod 64) mod 64) 0) @ u64_be (of_nat (length m) * 8)"
  have "sh_state (sha256_update ?tail s) = fold compress (chunks 64 (m @ ?tail)) INITIAL256"
    using absorbed_update [OF assms, of ?tail] by (simp only: absorbed_def)
  moreover have "sh_buffered s = length m mod 64" "sh_length s = of_nat (length m)"
    using assms by (simp_all add: absorbed_def)
  ultimately show ?thesis by (simp add: sha256_finalize_def sha256_ref_def pad256_def Let_def)
qed

lemma pad256_blocks: "length (pad256 m) mod 64 = 0"
proof -
  let ?r = "length m mod 64"
  have "length (pad256 m) mod 64 = (length m + (9 + (119 - ?r) mod 64)) mod 64"
    by (simp add: pad256_def byte_simps)
  also have "\<dots> = (length m + 9 + (119 - ?r)) mod 64"
    by (simp only: mod_add_right_eq add.assoc [symmetric])
  also have "\<dots> = (?r + (9 + (119 - ?r))) mod 64" by (simp only: mod_add_left_eq add.assoc)
  also have "?r + (9 + (119 - ?r)) = 2 * 64" using mod_less_divisor [of 64 "length m"] by linarith
  finally show ?thesis by simp
qed

lemma sha256_eq_ref: "sha256 m = sha256_ref m"
  using absorbed_finalize [OF absorbed_update [OF absorbed_new]] by (simp add: sha256_def)

lemma length_fold_compress: "length st = 8 \<Longrightarrow> length (fold compress bs st) = 8"
  by (induction bs arbitrary: st) (auto simp: compress_def Let_def split: prod.split)

lemma length_concat_words: "length (concat (map (\<lambda>w. u32_be w) ws)) = 4 * length ws"
  by (induction ws) (simp_all add: byte_simps)

lemma length_sha256 [simp]: "length (sha256 m) = 32"
  by (simp add: sha256_eq_ref sha256_ref_def length_concat_words length_fold_compress INITIAL256_def)

interpretation sha: incremental_hash sha256_new sha256_update sha256_finalize sha256
  by unfold_locales (use absorbed_finalize [OF absorbed_fold [OF absorbed_new]] in \<open>simp add: sha256_eq_ref\<close>)


end
