(* ===== verification/Merkle.thy ===== *)
theory Merkle
  imports Sha256
begin

text \<open>
  The merkle trees of BitTorrent v2, \<^verbatim>\<open>src/src/v2.rs\<close>: roots computed level by level,
  the hashing of a file by its pieces, and the proofs that answer hash requests. The
  reference is the recursive tree \<open>tree\<close>. Indices, lengths and heights are naturals: the
  code's own guards keep them within the width of the tree.
\<close>

unbundle bit_operations_syntax

section \<open>The trees\<close>

type_synonym hash = bytes

definition BLOCK :: nat where
  "BLOCK = 16 * 1024"

definition parent :: "hash \<Rightarrow> hash \<Rightarrow> hash" where
  "parent l r = sha256_finalize (sha256_update r (sha256_update l sha256_new))"

definition zero_hash :: hash where
  "zero_hash = replicate 32 0"

primrec zero_subtree :: "nat \<Rightarrow> hash" where
  "zero_subtree 0 = zero_hash"
| "zero_subtree (Suc h) = parent (zero_subtree h) (zero_subtree h)"

text \<open>
  One round of \<open>level.chunks(2).map(|pair| parent(&pair[0], &pair[1]))\<close>. A level of odd
  length would index past its last pair.
\<close>

fun level_up :: "hash list \<Rightarrow> hash list outcome" where
  "level_up [] = Ret []"
| "level_up [x] = Panic"
| "level_up (x # y # r) = on_ret (level_up r) (\<lambda>l. Ret (parent x y # l))"

lemma length_level_up: "level_up xs = Ret ys \<Longrightarrow> length xs = 2 * length ys"
  by (induction xs arbitrary: ys rule: level_up.induct) (auto simp: res_iff)

function merkle_loop :: "hash list \<Rightarrow> hash outcome" where
  "merkle_loop level =
     (if length level > 1 then on_ret (level_up level) merkle_loop
      else if level = [] then Panic else Ret (level ! 0))"
  by auto
termination by (relation "measure length") (auto dest!: length_level_up)

declare merkle_loop.simps [simp del]

definition merkle_root :: "hash list \<Rightarrow> nat \<Rightarrow> hash \<Rightarrow> hash outcome" where
  "merkle_root leaves width pad = merkle_loop (resize (max width 1) pad leaves)"

definition block_hashes :: "bytes \<Rightarrow> hash list" where
  "block_hashes data = map sha256 (slice_chunks BLOCK data)"

definition piece_hash :: "bytes \<Rightarrow> nat \<Rightarrow> hash outcome" where
  "piece_hash data piece_length = merkle_root (block_hashes data) (piece_length div BLOCK) zero_hash"

text \<open>\<open>saturating_mul\<close> is at the width of a \<open>usize\<close>.\<close>

definition merkle_matches :: "bytes \<Rightarrow> nat \<Rightarrow> hash \<Rightarrow> bool outcome" where
  "merkle_matches data width root =
     (if \<not> is_power_of_two width \<or> length data > min (width * BLOCK) (2 ^ 64 - 1) then Ret False
      else on_ret (merkle_root (block_hashes data) width zero_hash) (\<lambda>h. Ret (h = root)))"

text \<open>The answer to a hash request and its check.\<close>

function upper_loop :: "hash list \<Rightarrow> hash list list outcome" where
  "upper_loop level =
     (if length level > 1
      then on_ret (level_up level) (\<lambda>l. on_ret (upper_loop l) (\<lambda>ls. Ret (level # ls)))
      else Ret [level])"
  by auto
termination by (relation "measure length") (auto dest!: length_level_up)

declare upper_loop.simps [simp del]

definition upper_layers :: "hash list \<Rightarrow> nat \<Rightarrow> nat \<Rightarrow> hash list list outcome" where
  "upper_layers layer layer_number height =
     upper_loop (resize (2 ^ (height - layer_number)) (zero_subtree layer_number) layer)"

record hash_range_t =
  hr_hashes :: "hash list"
  hr_uncles :: "hash list"

text \<open>\<open>(below..=proof_layers).take_while(|j| layer_number + j < height)\<close>\<close>

definition proof_range :: "nat \<Rightarrow> nat \<Rightarrow> nat \<Rightarrow> nat \<Rightarrow> nat list" where
  "proof_range below proof_layers layer_number height =
     takeWhile (\<lambda>j. layer_number + j < height) [below..<Suc proof_layers]"

definition range_allowed :: "nat \<Rightarrow> nat \<Rightarrow> nat \<Rightarrow> nat \<Rightarrow> bool" where
  "range_allowed layer_number height index len \<longleftrightarrow>
     layer_number < height \<and> 2 \<le> len \<and> is_power_of_two len \<and> index AND (len - 1) = 0 \<and>
     index + len \<le> 2 ^ (height - layer_number)"

definition hash_range :: "hash list \<Rightarrow> nat \<Rightarrow> nat \<Rightarrow> nat \<Rightarrow> nat \<Rightarrow> nat \<Rightarrow> hash_range_t option outcome" where
  "hash_range layer layer_number height index len proof_layers =
     (if \<not> range_allowed layer_number height index len \<or> length layer > 2 ^ (height - layer_number)
      then Ret None
      else on_ret (upper_layers layer layer_number height) (\<lambda>layers.
        let below = trailing_zeros 32 len
        in Ret (Some \<lparr>hr_hashes = take len (drop index (layers ! 0)),
             hr_uncles = map (\<lambda>j. layers ! j ! (drop_bit j index XOR 1))
                (proof_range below proof_layers layer_number height)\<rparr>)))"

fun climb :: "hash list \<Rightarrow> nat \<Rightarrow> hash \<Rightarrow> hash" where
  "climb [] position node = node"
| "climb (uncle # uncles) position node =
     climb uncles (drop_bit 1 position)
       (if position AND 1 = 0 then parent node uncle else parent uncle node)"

definition verify_range :: "hash \<Rightarrow> nat \<Rightarrow> nat \<Rightarrow> nat \<Rightarrow> hash list \<Rightarrow> hash list \<Rightarrow> nat \<Rightarrow> bool outcome" where
  "verify_range root layer_number height index hashes uncles proof_layers =
     (if \<not> range_allowed layer_number height index (length hashes) then Ret False
      else let below = trailing_zeros 32 (length hashes)
        in if length uncles \<noteq> length (proof_range below proof_layers layer_number height) then Ret False
           else on_ret (merkle_root hashes (length hashes) zero_hash) (\<lambda>node.
             Ret (layer_number + below + length uncles = height \<and>
                  climb uncles (drop_bit below index) node = root)))"

section \<open>The reference tree\<close>

primrec tree :: "nat \<Rightarrow> hash list \<Rightarrow> hash" where
  "tree 0 xs = xs ! 0"
| "tree (Suc h) xs = parent (tree h (take (2 ^ h) xs)) (tree h (drop (2 ^ h) xs))"

text \<open>The level above, as a total function, and the levels of a tree.\<close>

fun pairs :: "hash list \<Rightarrow> hash list" where
  "pairs (x # y # r) = parent x y # pairs r"
| "pairs _ = []"

lemma level_up_pairs: "even (length xs) \<Longrightarrow> level_up xs = Ret (pairs xs)"
  by (induction xs rule: level_up.induct) auto

lemma length_pairs [simp]: "length (pairs xs) = length xs div 2"
  by (induction xs rule: pairs.induct) auto

lemma pairs_nth: "Suc (2 * i) < length xs \<Longrightarrow> pairs xs ! i = parent (xs ! (2 * i)) (xs ! Suc (2 * i))"
proof (induction xs arbitrary: i rule: pairs.induct)
  case (1 x y r)
  then show ?case by (cases i) auto
qed auto

lemma pairs_take: "pairs (take (2 * n) xs) = take n (pairs xs)"
proof (induction xs arbitrary: n rule: pairs.induct)
  case (1 x y r)
  then show ?case by (cases n) auto
qed (auto simp: take_Cons' drop_Cons')

lemma pairs_drop: "pairs (drop (2 * n) xs) = drop n (pairs xs)"
proof (induction xs arbitrary: n rule: pairs.induct)
  case (1 x y r)
  then show ?case by (cases n) auto
qed (auto simp: take_Cons' drop_Cons')

lemma tree_pairs: "length xs = 2 ^ Suc h \<Longrightarrow> tree (Suc h) xs = tree h (pairs xs)"
proof (induction h arbitrary: xs)
  case 0
  then show ?case by (auto simp: pairs_nth)
next
  case (Suc h)
  have "tree (Suc h) (take (2 ^ Suc h) xs) = tree h (take (2 ^ h) (pairs xs))"
    "tree (Suc h) (drop (2 ^ Suc h) xs) = tree h (drop (2 ^ h) (pairs xs))"
    using Suc.IH [of "take (2 ^ Suc h) xs"] Suc.IH [of "drop (2 ^ Suc h) xs"] Suc.prems
      pairs_take [of "2 ^ h" xs] pairs_drop [of "2 ^ h" xs] by (simp_all del: tree.simps)
  then show ?case by (simp only: tree.simps)
qed

lemma merkle_loop_tree: "length xs = 2 ^ h \<Longrightarrow> merkle_loop xs = Ret (tree h xs)"
proof (induction h arbitrary: xs)
  case 0
  then show ?case by (auto simp: merkle_loop.simps [of xs])
next
  case (Suc h)
  have "1 < length xs" using Suc.prems less_exp [of "Suc h"] by linarith
  then have "merkle_loop xs = merkle_loop (pairs xs)"
    using Suc.prems by (simp add: merkle_loop.simps [of xs] level_up_pairs)
  also have "\<dots> = Ret (tree h (pairs xs))" using Suc by simp
  also have "\<dots> = Ret (tree (Suc h) xs)" using tree_pairs [OF Suc.prems] by (simp del: tree.simps)
  finally show ?case .
qed

lemma merkle_root_tree: "merkle_root leaves (2 ^ h) pad = Ret (tree h (resize (2 ^ h) pad leaves))"
  by (simp add: merkle_root_def merkle_loop_tree max_absorb1)

section \<open>Levels, paths and proofs\<close>

lemma tree_slice:
  "Suc i * 2 ^ k \<le> length xs \<Longrightarrow> tree k (take (2 ^ k) (drop (i * 2 ^ k) xs)) = (pairs ^^ k) xs ! i"
proof (induction k arbitrary: xs)
  case (Suc k)
  have "Suc i * 2 ^ k \<le> length (pairs xs)" using Suc.prems by simp
  from Suc.IH [OF this]
  have "tree k (pairs (take (2 ^ Suc k) (drop (i * 2 ^ Suc k) xs))) = (pairs ^^ k) (pairs xs) ! i"
    using pairs_take [of "2 ^ k"] pairs_drop [of "i * 2 ^ k" xs] by (simp add: mult.left_commute)
  moreover have "length (take (2 ^ Suc k) (drop (i * 2 ^ Suc k) xs)) = 2 ^ Suc k" using Suc.prems by simp
  ultimately show ?case using tree_pairs by (simp add: funpow_swap1 del: tree.simps)
qed simp

lemma upper_loop_layers:
  "length xs = 2 ^ n \<Longrightarrow> upper_loop xs = Ret (map (\<lambda>k. (pairs ^^ k) xs) [0..<Suc n])"
proof (induction n arbitrary: xs)
  case 0
  then show ?case by (simp add: upper_loop.simps [of xs])
next
  case (Suc n)
  have "1 < length xs" using Suc.prems less_exp [of "Suc n"] by linarith
  moreover have "upper_loop (pairs xs) = Ret (map (\<lambda>k. (pairs ^^ k) (pairs xs)) [0..<Suc n])"
    using Suc by simp
  moreover have "[0..<Suc (Suc n)] = 0 # map Suc [0..<Suc n]" 
    using upt_conv_Cons [of 0 "Suc (Suc n)"] by (simp only: map_Suc_upt zero_less_Suc)
  ultimately show ?case using Suc.prems
    by (simp add: upper_loop.simps [of xs] level_up_pairs funpow_swap1 del: upt_Suc)
qed

lemma climb_step:
  fixes pos :: nat
  assumes "pos < length ys" "even (length ys)"
  shows "(if pos AND 1 = 0 then parent (ys ! pos) (ys ! (pos XOR 1)) else parent (ys ! (pos XOR 1)) (ys ! pos))
    = pairs ys ! drop_bit 1 pos"
proof (cases "even pos")
  case True
  then obtain i where "pos = 2 * i" by blast
  with assms show ?thesis by (auto simp: and_Suc_0_eq drop_bit_Suc xor_Suc_0_eq pairs_nth)
next
  case False
  then obtain i where "pos = Suc (2 * i)" by (metis oddE Suc_eq_plus1)
  with assms show ?thesis by (auto simp: and_Suc_0_eq drop_bit_Suc xor_Suc_0_eq pairs_nth)
qed

text \<open>The siblings along the path from a node to the root lead to the root.\<close>

definition siblings :: "hash list \<Rightarrow> nat \<Rightarrow> nat \<Rightarrow> hash list" where
  "siblings ys pos k = map (\<lambda>j. (pairs ^^ j) ys ! (drop_bit j pos XOR 1)) [0..<k]"

lemma siblings_Suc: "siblings ys pos (Suc k) = ys ! (pos XOR 1) # siblings (pairs ys) (drop_bit 1 pos) k"
proof -
  have "[0..<Suc k] = 0 # map Suc [0..<k]" using upt_conv_Cons [of 0 "Suc k"] by (simp only: map_Suc_upt zero_less_Suc)
  then show ?thesis by (simp add: siblings_def funpow_swap1 del: upt_Suc)
qed

lemma climb_siblings:
  "length ys = 2 ^ k \<Longrightarrow> pos < 2 ^ k \<Longrightarrow> climb (siblings ys pos k) pos (ys ! pos) = tree k ys"
proof (induction k arbitrary: ys pos)
  case 0
  then show ?case by (simp add: siblings_def)
next
  case (Suc k)
  have "climb (siblings (pairs ys) (drop_bit 1 pos) k) (drop_bit 1 pos) (pairs ys ! drop_bit 1 pos) = tree k (pairs ys)"
    using Suc by (intro Suc.IH) (auto simp: drop_bit_Suc)
  moreover have "(if pos AND 1 = 0 then parent (ys ! pos) (ys ! (pos XOR 1)) else parent (ys ! (pos XOR 1)) (ys ! pos))
      = pairs ys ! drop_bit 1 pos"
    using Suc.prems by (intro climb_step) auto
  ultimately show ?case by (simp only: siblings_Suc climb.simps tree_pairs [OF Suc.prems(1)])
qed

text \<open>
  What is hashed on the way to a root, so that a forged proof can be turned into two
  different inputs, one of the proof and one of the tree, with the same digest.
\<close>

fun pair_strings :: "hash list \<Rightarrow> bytes list" where
  "pair_strings (x # y # r) = (x @ y) # pair_strings r"
| "pair_strings _ = []"

primrec tree_strings :: "nat \<Rightarrow> hash list \<Rightarrow> bytes list" where
  "tree_strings 0 xs = []"
| "tree_strings (Suc h) xs = pair_strings xs @ tree_strings h (pairs xs)"

fun climb_strings :: "hash list \<Rightarrow> nat \<Rightarrow> hash \<Rightarrow> bytes list" where
  "climb_strings [] position node = []"
| "climb_strings (uncle # uncles) position node =
     (let s = if position AND 1 = 0 then node @ uncle else uncle @ node
      in s # climb_strings uncles (drop_bit 1 position) (sha256 s))"

definition collides :: "bytes list \<Rightarrow> bytes list \<Rightarrow> bool" where
  "collides A B \<longleftrightarrow> (\<exists>a\<in>set A. \<exists>b\<in>set B. a \<noteq> b \<and> sha256 a = sha256 b)"

lemma parent_sha256: "parent l r = sha256 (l @ r)"
  by (simp add: parent_def sha.finalize_two)

lemma length_parent [simp]: "length (parent l r) = 32"
  by (simp add: parent_sha256)

lemma pairs_32: "list_all (\<lambda>x. length x = 32) (pairs zs)"
  by (induction zs rule: pairs.induct) auto

lemma funpow_pairs_32: "list_all (\<lambda>x. length x = 32) xs \<Longrightarrow> list_all (\<lambda>x. length x = 32) ((pairs ^^ k) xs)"
  by (cases k) (simp_all add: pairs_32)

lemma tree_32: "length xs = 2 ^ h \<Longrightarrow> list_all (\<lambda>x. length x = 32) xs \<Longrightarrow> length (tree h xs) = 32"
  by (cases h) (auto simp: length_Suc_conv)

lemma tree_strings_layer: "set (tree_strings m ((pairs ^^ k) xs)) \<subseteq> set (tree_strings (k + m) xs)"
  by (induction k arbitrary: xs) (auto simp: funpow_swap1)

lemma collidesI: "a \<in> set A \<Longrightarrow> b \<in> set B \<Longrightarrow> a \<noteq> b \<Longrightarrow> sha256 a = sha256 b \<Longrightarrow> collides A B"
  by (auto simp: collides_def)

lemma collides_mono: "collides A B \<Longrightarrow> set A \<subseteq> set A' \<Longrightarrow> set B \<subseteq> set B' \<Longrightarrow> collides A' B'"
  by (auto simp: collides_def)

lemma collides_intros:
  "a \<noteq> b \<Longrightarrow> sha256 a = sha256 b \<Longrightarrow> collides (a # A) (b # B)"
  "collides A B \<Longrightarrow> collides (a # A) (b # B)"
  "collides A B \<Longrightarrow> collides (A @ C) (B @ D)"
  "collides C D \<Longrightarrow> collides (A @ C) (B @ D)"
  by (auto simp: collides_def)

lemma parent_inj:
  "parent l r = parent l' r' \<Longrightarrow> length l = length l' \<Longrightarrow>
   l = l' \<and> r = r' \<or> l @ r \<noteq> l' @ r' \<and> sha256 (l @ r) = sha256 (l' @ r')"
  by (auto simp: parent_sha256)

lemma pair_strings_mem:
  "pos < length ys \<Longrightarrow> even (length ys) \<Longrightarrow>
   (if pos AND 1 = 0 then ys ! pos @ ys ! (pos XOR 1) else ys ! (pos XOR 1) @ ys ! pos) \<in> set (pair_strings ys)"
proof (induction ys arbitrary: pos rule: pairs.induct)
  case (1 x y r)
  consider "pos = 0" | "pos = 1" | p where "pos = p + 2" by (metis One_nat_def Suc_1 add.commute add_2_eq_Suc not0_implies_Suc)
  then show ?case
  proof cases
    case (3 p)
    then have "p < length r" "pos AND 1 = p AND 1" "pos XOR 1 = (p XOR 1) + 2"
      using 1(2) by (auto simp: and_Suc_0_eq xor_Suc_0_eq)
    with 1(1) [of p] 1(3) 3 show ?thesis by (auto split: if_splits)
  qed (auto simp: and_Suc_0_eq xor_Suc_0_eq)
qed auto

lemma pairs_inj:
  "length zs = length ws \<Longrightarrow> even (length zs) \<Longrightarrow> pairs zs = pairs ws \<Longrightarrow>
   list_all (\<lambda>x. length x = 32) (zs @ ws) \<Longrightarrow> zs = ws \<or> collides (pair_strings zs) (pair_strings ws)"
proof (induction zs arbitrary: ws rule: pairs.induct)
  case (1 x y r)
  obtain x' y' r' where ws: "ws = x' # y' # r'" using 1(2) by (metis length_Suc_conv list.size(4) Suc_eq_plus1)
  with 1 have "parent x y = parent x' y'" "length x = length x'" by auto
  from parent_inj [OF this]
  have "x = x' \<and> y = y' \<or> collides (pair_strings (x # y # r)) (pair_strings ws)"
    using ws collides_intros(1) [of "x @ y" "x' @ y'"] by auto
  moreover have "r = r' \<or> collides (pair_strings r) (pair_strings r')" using 1 ws by auto
  ultimately show ?case using ws by (auto intro: collides_intros)
qed auto

lemma tree_inj:
  "tree h xs = tree h ys \<Longrightarrow> length xs = 2 ^ h \<Longrightarrow> length ys = 2 ^ h \<Longrightarrow>
   list_all (\<lambda>x. length x = 32) (xs @ ys) \<Longrightarrow> xs = ys \<or> collides (tree_strings h xs) (tree_strings h ys)"
proof (induction h arbitrary: xs ys)
  case 0
  then show ?case by (auto simp: length_Suc_conv)
next
  case (Suc h)
  have eq: "tree h (pairs xs) = tree h (pairs ys)"
    using Suc.prems(1) tree_pairs [OF Suc.prems(2)] tree_pairs [OF Suc.prems(3)] by (simp del: tree.simps)
  have "pairs xs = pairs ys \<or> collides (tree_strings h (pairs xs)) (tree_strings h (pairs ys))"
    using Suc.IH [OF eq] Suc.prems(2,3) pairs_32 by simp
  then show ?case using Suc.prems pairs_inj [of xs ys] 
    by (auto intro: collides_intros simp del: tree.simps)
qed

lemma climb_sound:
  "climb uncles pos node = tree (length uncles) ys \<Longrightarrow> length ys = 2 ^ length uncles \<Longrightarrow>
   pos < length ys \<Longrightarrow> length node = 32 \<Longrightarrow> list_all (\<lambda>x. length x = 32) (uncles @ ys) \<Longrightarrow>
   node = ys ! pos \<or> collides (climb_strings uncles pos node) (tree_strings (length uncles) ys)"
proof (induction uncles arbitrary: pos node ys)
  case (Cons u us)
  let ?A = "climb_strings (u # us) pos node" and ?B = "tree_strings (length (u # us)) ys"
  let ?s = "if pos AND 1 = 0 then node @ u else u @ node"
  let ?t = "if pos AND 1 = 0 then ys ! pos @ ys ! (pos XOR 1) else ys ! (pos XOR 1) @ ys ! pos"
  have t: "sha256 ?t = pairs ys ! drop_bit 1 pos"
    using climb_step [of pos ys] Cons.prems(2,3) by (simp add: parent_sha256 split: if_splits)
  have IH: "sha256 ?s = pairs ys ! drop_bit 1 pos \<or>
      collides (climb_strings us (drop_bit 1 pos) (sha256 ?s)) (tree_strings (length us) (pairs ys))"
    using Cons.prems tree_pairs [of ys "length us"] pairs_32
    by (intro Cons.IH) (auto simp: drop_bit_Suc parent_sha256 simp del: tree.simps)
  have mem: "?t \<in> set ?B" using pair_strings_mem [of pos ys] Cons.prems(2,3) by simp
  have 32: "length (ys ! i) = 32" if "i < length ys" for i using Cons.prems(5) that by (auto simp: list_all_iff)
  have sib: "pos XOR 1 < length ys" using Cons.prems(2,3) by (auto simp: xor_Suc_0_eq elim!: oddE evenE)
  have "?s = ?t \<Longrightarrow> node = ys ! pos"
    using 32 [OF sib] 32 [OF Cons.prems(3)] Cons.prems(4,5) by (auto split: if_splits)
  moreover have "sha256 ?s = sha256 ?t \<Longrightarrow> ?s \<noteq> ?t \<Longrightarrow> collides ?A ?B"
    using mem by (intro collidesI [of ?s _ ?t]) (simp_all add: Let_def)
  moreover have "collides (climb_strings us (drop_bit 1 pos) (sha256 ?s)) (tree_strings (length us) (pairs ys)) \<Longrightarrow>
      collides ?A ?B" by (erule collides_mono) (auto simp: Let_def)
  ultimately show ?case using IH t by metis
qed simp

lemma pair_strings_take: "set (pair_strings (take (2 * n) xs)) \<subseteq> set (pair_strings xs)"
proof (induction xs arbitrary: n rule: pairs.induct)
  case (1 x y r)
  then show ?case by (cases n) auto
qed (auto simp: take_Cons' drop_Cons')

lemma pair_strings_drop: "set (pair_strings (drop (2 * n) xs)) \<subseteq> set (pair_strings xs)"
proof (induction xs arbitrary: n rule: pairs.induct)
  case (1 x y r)
  then show ?case by (cases n) auto
qed (auto simp: take_Cons' drop_Cons')

lemma tree_strings_slice:
  "k \<le> n \<Longrightarrow> set (tree_strings k (take (2 ^ k) (drop (i * 2 ^ k) xs))) \<subseteq> set (tree_strings n xs)"
proof (induction k arbitrary: n xs)
  case (Suc k)
  then obtain m where n: "n = Suc m" "k \<le> m" by (auto simp: Suc_le_D dest: Suc_le_D)
  have "pairs (take (2 * 2 ^ k) (drop (2 * (i * 2 ^ k)) xs)) = take (2 ^ k) (drop (i * 2 ^ k) (pairs xs))"
    by (simp only: pairs_take pairs_drop)
  moreover have "set (pair_strings (take (2 * 2 ^ k) (drop (2 * (i * 2 ^ k)) xs))) \<subseteq> set (pair_strings xs)"
    using pair_strings_take [of "2 ^ k" "drop (2 * (i * 2 ^ k)) xs"] pair_strings_drop by blast
  ultimately show ?case using Suc.IH [OF n(2), of "pairs xs"] n(1) by (auto simp: mult.left_commute)
qed simp

lemma takeWhile_upt: "takeWhile (\<lambda>j. j < b) [a..<m] = [a..<min m b]"
proof (induction "m - a" arbitrary: a)
  case (Suc n)
  then have "[a..<m] = a # [Suc a..<m]" by (simp add: upt_conv_Cons)
  moreover have "takeWhile (\<lambda>j. j < b) [Suc a..<m] = [Suc a..<min m b]" using Suc by simp
  ultimately show ?case using Suc(2) by (auto simp: upt_conv_Cons [of a "min m b"])
qed simp

lemma proof_range_upt:
  "layer_number < height \<Longrightarrow>
   proof_range below proof_layers layer_number height = [below..<min (Suc proof_layers) (height - layer_number)]"
  by (simp only: proof_range_def less_diff_conv [symmetric] add.commute [of layer_number] takeWhile_upt)

text \<open>An allowed range is a subtree: its length is \<open>2 ^ below\<close> and its index a multiple of it.\<close>

lemma range_allowedE:
  assumes "range_allowed layer_number height index len"
  obtains below i where "len = 2 ^ below" "index = i * 2 ^ below" "trailing_zeros 32 len = below"
    "below \<le> height - layer_number" "Suc i * 2 ^ below \<le> 2 ^ (height - layer_number)"
    "layer_number < height" "drop_bit below index = i" "i < 2 ^ (height - layer_number - below)"
proof -
  obtain below where l: "len = 2 ^ below" using assms by (auto simp: range_allowed_def is_power_of_two_iff)
  have "index mod 2 ^ below = 0"
    using assms l take_bit_eq_mask [of below index] unfolding take_bit_eq_mod mask_eq_exp_minus_1
    by (simp add: range_allowed_def)
  then obtain i where i: "index = i * 2 ^ below" by (auto simp: mod_eq_0_iff_dvd elim: dvdE)
  have fit: "Suc i * 2 ^ below \<le> 2 ^ (height - layer_number)" using assms i l by (simp add: range_allowed_def add.commute)
  then have "(2::nat) ^ below \<le> 2 ^ (height - layer_number)" by (simp add: order_trans [OF le_add1])
  then have le: "below \<le> height - layer_number" by simp
  then have "(2::nat) ^ (height - layer_number) = 2 ^ (height - layer_number - below) * 2 ^ below"
    by (simp flip: power_add)
  with fit have "Suc i * 2 ^ below \<le> 2 ^ (height - layer_number - below) * 2 ^ below" by (simp only:)
  then have "i < 2 ^ (height - layer_number - below)" by (simp only: mult_le_cancel2) (simp add: Suc_le_eq)
  with that [of below i] l i fit le assms show ?thesis by (simp add: range_allowed_def drop_bit_eq_div)
qed

lemma length_pairs_funpow: "length ((pairs ^^ k) xs) = length xs div 2 ^ k"
  by (induction k) (simp_all add: mult.commute flip: div_mult2_eq)

lemma tree_eq_pairs: "length xs = 2 ^ n \<Longrightarrow> tree n xs = (pairs ^^ n) xs ! 0"
  using tree_slice [of 0 n xs] by simp

lemma tree_from_layer:
  assumes "length xs = 2 ^ n" "k \<le> n"
  shows "length ((pairs ^^ k) xs) = 2 ^ (n - k)" "tree n xs = tree (n - k) ((pairs ^^ k) xs)"
proof -
  show l: "length ((pairs ^^ k) xs) = 2 ^ (n - k)" using assms by (simp add: length_pairs_funpow power_diff)
  have "(pairs ^^ n) xs = (pairs ^^ (n - k)) ((pairs ^^ k) xs)"
    using assms(2) by (metis comp_apply funpow_add le_add_diff_inverse2)
  then show "tree n xs = tree (n - k) ((pairs ^^ k) xs)" using tree_eq_pairs [OF assms(1)] tree_eq_pairs [OF l] by simp
qed

lemma siblings_above:
  "below \<le> n \<Longrightarrow> map (\<lambda>j. (pairs ^^ j) xs ! (drop_bit j index XOR 1)) [below..<n]
     = siblings ((pairs ^^ below) xs) (drop_bit below index) (n - below)"
proof -
  assume "below \<le> n"
  then have "[below..<n] = map (\<lambda>j. j + below) [0..<n - below]" by (simp add: map_add_upt)
  then show ?thesis by (simp add: siblings_def funpow_add del: map_add_upt)
qed

lemma verify_range_allowed:
  assumes "range_allowed layer_number height index (length hashes)" "length hashes = 2 ^ below"
    "length uncles = height - layer_number - below" "below \<le> height - layer_number" "height - layer_number \<le> Suc proof_layers"
  shows "verify_range root layer_number height index hashes uncles proof_layers =
    Ret (climb uncles (drop_bit below index) (tree below hashes) = root)"
  using assms by (auto simp: verify_range_def Let_def proof_range_upt range_allowed_def merkle_root_tree resize_def)

definition padded_layer :: "hash list \<Rightarrow> nat \<Rightarrow> nat \<Rightarrow> hash list" where
  "padded_layer layer layer_number height =
     resize (2 ^ (height - layer_number)) (zero_subtree layer_number) layer"

lemma upper_layers_padded:
  "upper_layers layer layer_number height =
     Ret (map (\<lambda>k. (pairs ^^ k) (padded_layer layer layer_number height)) [0..<Suc (height - layer_number)])"
  unfolding upper_layers_def padded_layer_def by (rule upper_loop_layers) simp

text \<open>The answer to a request in terms of the padded layer, and that it leads to the root of its tree.\<close>

definition proof_uncles :: "hash list \<Rightarrow> nat \<Rightarrow> nat list \<Rightarrow> hash list" where
  "proof_uncles xs index js = map (\<lambda>j. (pairs ^^ j) xs ! (drop_bit j index XOR 1)) js"

lemma hash_range_eq:
  assumes "range_allowed layer_number height index len" "length layer \<le> 2 ^ (height - layer_number)"
  shows "hash_range layer layer_number height index len proof_layers = Ret (Some
    \<lparr>hr_hashes = take len (drop index (padded_layer layer layer_number height)),
     hr_uncles = proof_uncles (padded_layer layer layer_number height) index
       (proof_range (trailing_zeros 32 len) proof_layers layer_number height)\<rparr>)"
proof -
  let ?n = "height - layer_number" let ?p = "padded_layer layer layer_number height"
  have "layer_number < height" using assms(1) by (simp add: range_allowed_def)
  then have "map (\<lambda>j. map (\<lambda>k. (pairs ^^ k) ?p) [0..<Suc ?n] ! j ! (drop_bit j index XOR 1))
        (proof_range (trailing_zeros 32 len) proof_layers layer_number height)
      = proof_uncles ?p index (proof_range (trailing_zeros 32 len) proof_layers layer_number height)"
    unfolding proof_uncles_def by (intro map_cong) (simp_all add: proof_range_upt del: upt_Suc)
  with assms show ?thesis by (simp add: hash_range_def upper_layers_padded padded_layer_def del: upt_Suc)
qed

lemma range_proof:
  assumes allowed: "range_allowed layer_number height index len" and len: "length xs = 2 ^ (height - layer_number)"
    and reach: "height - layer_number \<le> Suc proof_layers"
  shows "verify_range (tree (height - layer_number) xs) layer_number height index (take len (drop index xs))
    (proof_uncles xs index (proof_range (trailing_zeros 32 len) proof_layers layer_number height)) proof_layers = Ret True"
proof -
  let ?n = "height - layer_number"
  from allowed obtain below i where b: "len = 2 ^ below" "index = i * 2 ^ below" "trailing_zeros 32 len = below"
    "below \<le> ?n" "Suc i * 2 ^ below \<le> 2 ^ ?n" "layer_number < height" "drop_bit below index = i" "i < 2 ^ (?n - below)"
    by (rule range_allowedE)
  let ?hashes = "take len (drop index xs)" and ?uncles = "siblings ((pairs ^^ below) xs) i (?n - below)"
  have u: "proof_uncles xs index (proof_range (trailing_zeros 32 len) proof_layers layer_number height) = ?uncles"
    using siblings_above [OF b(4), of xs index] b(3,6,7) reach
    by (simp add: proof_uncles_def proof_range_upt min_absorb2)
  have hl: "length ?hashes = len" using b(1,2,5) len by simp
  have "tree below ?hashes = (pairs ^^ below) xs ! i" using tree_slice [of i below xs] b(1,2,5) len by simp
  then have "climb ?uncles i (tree below ?hashes) = tree ?n xs"
    using climb_siblings [OF tree_from_layer(1) [OF len b(4)] b(8)] tree_from_layer(2) [OF len b(4)] by simp
  then show ?thesis unfolding u
    using verify_range_allowed [of layer_number height index ?hashes below ?uncles proof_layers] allowed hl b(1,4,7) reach
    by (simp add: siblings_def)
qed



lemma range_checked:
  assumes ok: "verify_range (tree (height - layer_number) layer) layer_number height index hashes uncles proof_layers = Ret True"
    and len: "length layer = 2 ^ (height - layer_number)"
    and hash: "list_all (\<lambda>h. length h = 32) (hashes @ uncles @ layer)"
  shows "hashes = take (length hashes) (drop index layer) \<or>
    (let below = trailing_zeros 32 (length hashes) in
     collides (tree_strings below hashes @ climb_strings uncles (drop_bit below index) (tree below hashes))
       (tree_strings (height - layer_number) layer))"
proof -
  let ?n = "height - layer_number"
  have allowed: "range_allowed layer_number height index (length hashes)"
    using ok by (auto simp: verify_range_def split: if_splits)
  then obtain below i where b: "length hashes = 2 ^ below" "index = i * 2 ^ below" "trailing_zeros 32 (length hashes) = below"
    "below \<le> ?n" "Suc i * 2 ^ below \<le> 2 ^ ?n" "layer_number < height" "drop_bit below index = i" "i < 2 ^ (?n - below)"
    by (rule range_allowedE)
  let ?ys = "(pairs ^^ below) layer" and ?slice = "take (2 ^ below) (drop (i * 2 ^ below) layer)"
  have u: "length uncles = ?n - below" "climb uncles i (tree below hashes) = tree ?n layer"
    using ok allowed b(1,3,7) by (auto simp: verify_range_def Let_def merkle_root_tree resize_def split: if_splits)
  have ys: "length ?ys = 2 ^ length uncles" "tree ?n layer = tree (length uncles) ?ys"
    using tree_from_layer [OF len b(4)] u(1) by simp_all
  have "tree below hashes = ?ys ! i \<or> collides (climb_strings uncles i (tree below hashes)) (tree_strings (length uncles) ?ys)"
    using u ys b(8) hash tree_32 [OF b(1)] funpow_pairs_32 [of layer below] by (intro climb_sound) auto
  moreover have "tree below ?slice = ?ys ! i" using tree_slice [of i below layer] b(5) len by simp
  moreover have "length ?slice = 2 ^ below" "list_all (\<lambda>h. length h = 32) (hashes @ ?slice)"
    using b(5) len hash by (auto simp: list_all_iff dest!: in_set_takeD in_set_dropD)
  ultimately have "hashes = ?slice \<or> collides (tree_strings below hashes) (tree_strings below ?slice) \<or>
      collides (climb_strings uncles i (tree below hashes)) (tree_strings (length uncles) ?ys)"
    using tree_inj [of below hashes ?slice] b(1) by auto
  moreover have "set (tree_strings (length uncles) ?ys) \<subseteq> set (tree_strings ?n layer)"
    using tree_strings_layer [of "length uncles" below layer] le_add_diff_inverse [OF b(4)] by (simp only: u(1))
  ultimately have "hashes = ?slice \<or>
      collides (tree_strings below hashes @ climb_strings uncles i (tree below hashes)) (tree_strings ?n layer)"
    using tree_strings_slice [OF b(4), of i layer] collides_mono [of _ _ "tree_strings below hashes @ climb_strings uncles i (tree below hashes)" "tree_strings ?n layer"]
    by (metis Un_upper1 Un_upper2 set_append)
  then show ?thesis using b(1-3,7) by (simp add: Let_def)
qed

text \<open>
  C5: An accepted answer to a hash request is the truth about the file. If \<open>verify_range\<close>
  accepts hashes and uncles against the root of a tree, then the hashes are the tree's
  own at that place; otherwise, two different strings that have the same SHA-256 can be
  read off, one hashed in checking the answer and one hashed in building the tree.
\<close>

theorem verify_range_sound:
  assumes ok: "verify_range (tree (height - layer_number) layer) layer_number height index hashes uncles proof_layers = Ret True"
    and len: "length layer = 2 ^ (height - layer_number)"
    and hash: "list_all (\<lambda>h. length h = 32) (hashes @ uncles @ layer)"
  shows "hashes = take (length hashes) (drop index layer) \<or>
    (let below = trailing_zeros 32 (length hashes) in
     collides (tree_strings below hashes @ climb_strings uncles (drop_bit below index) (tree below hashes))
       (tree_strings (height - layer_number) layer))"
  using assms by (rule range_checked)

theorem verify_range_sound_witness:
  "let h = zero_hash in
   verify_range (tree 1 [h, h]) 0 1 0 [h, h] [] 0 = Ret True \<and>
   ([h, h] = take 2 (drop 0 [h, h]) \<or> collides (tree_strings 1 [h, h] @ climb_strings [] 0 (tree 1 [h, h])) (tree_strings 1 [h, h]))"
proof -
  let ?h = zero_hash
  have t: "trailing_zeros 32 (2::nat) = 1" by code_simp
  have "range_allowed 0 1 0 2" by code_simp
  then have "verify_range (tree (1 - 0) [?h, ?h]) 0 1 0 [?h, ?h] [] 0 = Ret True"
    using verify_range_allowed [of 0 1 0 "[?h, ?h]" 1 "[]" 0 "tree 1 [?h, ?h]"] by (simp add: numeral_2_eq_2)
  from verify_range_sound [OF this] this show ?thesis
    by (simp add: zero_hash_def t Let_def)
qed

lemma merkle_matches_no_panic: "merkle_matches data width root \<noteq> Panic"
  by (auto simp: merkle_matches_def is_power_of_two_iff merkle_root_tree)

text \<open>
  The level-by-level root is the recursive merkle root, and checking a piece never
  panics. For a width that is a power of two, halving the padded leaves until one is left
  always pairs them up and gives the root of the recursively defined tree; \<open>merkle_matches\<close>
  accepts exactly the data that fits the width and whose block hashes have that root.
\<close>

theorem merkle_root_recursive:
  "merkle_root leaves (2 ^ h) pad = Ret (tree h (resize (2 ^ h) pad leaves)) \<and>
   merkle_matches data (2 ^ h) root =
     Ret (length data \<le> min (2 ^ h * BLOCK) (2 ^ 64 - 1) \<and>
          tree h (resize (2 ^ h) zero_hash (block_hashes data)) = root) \<and>
   merkle_matches data width root \<noteq> Panic"
  using merkle_matches_no_panic [of data width root] by (auto simp: merkle_root_tree merkle_matches_def)

end
