(* ===== verification/V2_Meta.thy ===== *)
theory V2_Meta
  imports Merkle Bencode "HOL-Library.Sublist"
begin

text \<open>
  The metadata of a v2 torrent, \<^verbatim>\<open>src/src/v2.rs\<close>: the file tree with the check of its path
  components (\<^verbatim>\<open>src/src/torrent.rs\<close>), the piece layers, the plan of the pieces, the
  hashing of a file, and the source hash requests are answered from. The headline result
  is the round trip: what \<open>hash_file\<close> makes of a file validates, and every planned piece
  of it verifies.
\<close>

section \<open>The file tree\<close>

datatype v2_error = BadTree string | UnsafePath bytes | TooDeep | TooManyFiles | BadLength
  | BadRoot | BadLayer | BadPieceLength

definition MAX_TREE_DEPTH :: nat where "MAX_TREE_DEPTH = 64"

definition MAX_FILES :: nat where "MAX_FILES = 2 ^ 20"

record v2_file =
  vf_path :: "bytes list"
  vf_length :: nat
  vf_root :: "hash option"

text \<open>
  \<open>is_safe_component\<close> on a Unix system, where \<open>Path::components\<close> sees one plain name in
  any non-empty string without a slash other than a single and a double dot.
\<close>

definition is_safe_component :: "bytes \<Rightarrow> bool" where
  "is_safe_component part \<longleftrightarrow>
     part \<noteq> [] \<and> 47 \<notin> set part \<and> 92 \<notin> set part \<and> 0 \<notin> set part \<and> part \<noteq> [46] \<and> part \<noteq> [46, 46]"

definition key_length :: bytes where
  "key_length = [108, 101, 110, 103, 116, 104]"

definition key_pieces_root :: bytes where
  "key_pieces_root = [112, 105, 101, 99, 101, 115, 32, 114, 111, 111, 116]"

text \<open>The description of one file: its length and its root.\<close>

definition leaf_length :: "bencode \<Rightarrow> v2_error + nat" where
  "leaf_length leaf =
     and_then (ok_or (Option.bind (get key_length leaf) as_int) (BadTree ''a file without a length''))
       (\<lambda>n. if n < 0 then Inl BadLength else Inr (nat n))"

definition leaf_root :: "bencode \<Rightarrow> v2_error + hash option" where
  "leaf_root leaf =
     (case get key_pieces_root leaf of
        Some root \<Rightarrow> and_then (ok_or (as_bytes root) BadRoot)
          (\<lambda>bs. if length bs = 32 then Inr (Some bs) else Inl BadRoot)
      | None \<Rightarrow> Inr None)"

fun walk :: "bencode \<Rightarrow> bytes list \<Rightarrow> v2_file list \<Rightarrow> v2_error + v2_file list"
  and walk_entries :: "(bytes \<times> bencode) list \<Rightarrow> bytes list \<Rightarrow> v2_file list \<Rightarrow> v2_error + v2_file list" where
  "walk (BDict entries) path files =
     (case map_of entries [] of
        Some leaf \<Rightarrow>
          if length entries \<noteq> 1 \<or> path = [] then Inl (BadTree ''a file entry with other entries beside it, or at the top'')
          else if length files \<ge> MAX_FILES then Inl TooManyFiles
          else and_then (leaf_length leaf) (\<lambda>len. and_then (leaf_root leaf) (\<lambda>root.
                 if (len > 0) \<noteq> (root \<noteq> None) then Inl BadRoot
                 else Inr (files @ [\<lparr>vf_path = path, vf_length = len, vf_root = root\<rparr>])))
      | None \<Rightarrow>
          if length path \<ge> MAX_TREE_DEPTH then Inl TooDeep
          else walk_entries entries path files)"
| "walk _ path files = Inl (BadTree ''an entry is not a dictionary'')"
| "walk_entries [] path files = Inr files"
| "walk_entries ((name, child) # rest) path files =
     (if \<not> valid_utf8 name \<or> \<not> is_safe_component name then Inl (UnsafePath name)
      else and_then (walk child (path @ [name]) files) (walk_entries rest path))"

definition parse_file_tree :: "bencode \<Rightarrow> v2_error + v2_file list" where
  "parse_file_tree t = walk t [] []"

section \<open>Piece layers and the plan of the pieces\<close>

type_synonym layers = "hash \<rightharpoonup> hash list"

fun parse_layer_entries :: "(bytes \<times> bencode) list \<Rightarrow> layers \<Rightarrow> v2_error + layers" where
  "parse_layer_entries [] out = Inr out"
| "parse_layer_entries ((root, hashes) # rest) out =
     (if length root \<noteq> 32 then Inl BadLayer
      else and_then (ok_or (as_bytes hashes) BadLayer) (\<lambda>bs.
        if length bs mod 32 \<noteq> 0 then Inl BadLayer
        else parse_layer_entries rest (out(root \<mapsto> chunks 32 bs))))"

definition parse_layers :: "bencode option \<Rightarrow> v2_error + layers" where
  "parse_layers layers =
     (case layers of None \<Rightarrow> Inr Map.empty
      | Some l \<Rightarrow> and_then (ok_or (as_dict l) BadLayer) (\<lambda>es. parse_layer_entries es Map.empty))"

definition valid_piece_length :: "int \<Rightarrow> bool" where
  "valid_piece_length piece_length \<longleftrightarrow> piece_length \<ge> int BLOCK \<and> is_power_of_two (nat piece_length)"

text \<open>The piece layer of a file, counted from the leaves, and the height of its tree.\<close>

definition piece_layer :: "nat \<Rightarrow> nat" where
  "piece_layer piece_length = trailing_zeros 64 (piece_length div BLOCK)"

definition file_height :: "nat \<Rightarrow> nat \<Rightarrow> nat" where
  "file_height len piece_length =
     piece_layer piece_length + trailing_zeros 64 (next_power_of_two (div_ceil len piece_length))"

definition layer_pad :: "nat \<Rightarrow> hash" where
  "layer_pad piece_length = zero_subtree (trailing_zeros 64 (piece_length div BLOCK))"

definition validate_file :: "layers \<Rightarrow> nat \<Rightarrow> v2_file \<Rightarrow> (v2_error + unit) outcome" where
  "validate_file layers piece_length file =
     (case vf_root file of None \<Rightarrow> Ret (Inr ())
      | Some root \<Rightarrow> (case layers root of None \<Rightarrow> Ret (Inr ())
        | Some layer \<Rightarrow>
            if length layer \<noteq> div_ceil (vf_length file) piece_length then Ret (Inl BadLayer)
            else on_ret (merkle_root layer (next_power_of_two (length layer)) (layer_pad piece_length))
                   (\<lambda>h. Ret (if h \<noteq> root then Inl BadLayer else Inr ()))))"

fun validate_files :: "v2_file list \<Rightarrow> layers \<Rightarrow> nat \<Rightarrow> (v2_error + unit) outcome" where
  "validate_files [] layers piece_length = Ret (Inr ())"
| "validate_files (f # fs) layers piece_length =
     on_ret (validate_file layers piece_length f) (\<lambda>r.
       case r of Inl e \<Rightarrow> Ret (Inl e) | Inr _ \<Rightarrow> validate_files fs layers piece_length)"

definition validate_layers :: "v2_file list \<Rightarrow> layers \<Rightarrow> int \<Rightarrow> (v2_error + unit) outcome" where
  "validate_layers files layers piece_length =
     (if \<not> valid_piece_length piece_length then Ret (Inl BadPieceLength)
      else validate_files (filter (\<lambda>f. vf_length f > nat piece_length) files) layers (nat piece_length))"

record v2_piece =
  vp_file :: nat
  vp_offset :: nat
  vp_length :: nat
  vp_root :: hash
  vp_width :: nat

definition as_u32 :: "nat \<Rightarrow> nat" where
  "as_u32 n = n mod 2 ^ 32"

text \<open>
  \<open>file.length - offset\<close> is a subtraction of \<open>u64\<close>; with a layer longer than the file it
  would underflow.
\<close>

fun plan_layer :: "nat \<Rightarrow> nat \<Rightarrow> nat \<Rightarrow> nat \<Rightarrow> hash list \<Rightarrow> v2_piece list outcome" where
  "plan_layer index len piece_length n [] = Ret []"
| "plan_layer index len piece_length n (h # hs) =
     (let offset = n * piece_length
      in if len < offset then Panic
         else on_ret (plan_layer index len piece_length (Suc n) hs) (\<lambda>ps.
           Ret (\<lparr>vp_file = index, vp_offset = offset, vp_length = as_u32 (min (len - offset) piece_length),
                 vp_root = h, vp_width = as_u32 (piece_length div BLOCK)\<rparr> # ps)))"

fun plan_from :: "nat \<Rightarrow> v2_file list \<Rightarrow> layers \<Rightarrow> nat \<Rightarrow> v2_piece list option outcome" where
  "plan_from index [] layers piece_length = Ret (Some [])"
| "plan_from index (f # fs) layers piece_length =
     (case vf_root f of None \<Rightarrow> plan_from (Suc index) fs layers piece_length
      | Some root \<Rightarrow>
          if vf_length f \<le> piece_length then
            on_ret (plan_from (Suc index) fs layers piece_length) (\<lambda>r. Ret (map_option (\<lambda>ps.
              \<lparr>vp_file = index, vp_offset = 0, vp_length = as_u32 (vf_length f), vp_root = root,
               vp_width = as_u32 (next_power_of_two (div_ceil (vf_length f) BLOCK))\<rparr> # ps) r))
          else (case layers root of None \<Rightarrow> Ret None
            | Some layer \<Rightarrow> on_ret (plan_layer index (vf_length f) piece_length 0 layer) (\<lambda>qs.
                on_ret (plan_from (Suc index) fs layers piece_length) (\<lambda>r. Ret (map_option (\<lambda>ps. qs @ ps) r)))))"

definition plan_pieces :: "v2_file list \<Rightarrow> layers \<Rightarrow> nat \<Rightarrow> v2_piece list option outcome" where
  "plan_pieces files layers piece_length = plan_from 0 files layers piece_length"

section \<open>Hashing a file\<close>

datatype io_error = UnexpectedEof

record file_hashes =
  fh_root :: "hash option"
  fh_layer :: "hash list"

text \<open>
  The loop over the pieces. With a piece length of zero it would not end, so the result is
  \<open>None\<close> when the loop does not return.
\<close>

partial_function (option) layer_loop ::
    "bytes \<Rightarrow> nat \<Rightarrow> nat \<Rightarrow> hash list \<Rightarrow> (io_error + hash list) outcome option" where
  "layer_loop reader left piece_length layer =
     (if left > 0 then
        if length reader < min left piece_length then Some (Ret (Inl UnexpectedEof))
        else case piece_hash (take (min left piece_length) reader) piece_length of
               Panic \<Rightarrow> Some Panic
             | Ret h \<Rightarrow> layer_loop (drop (min left piece_length) reader) (left - min left piece_length)
                          piece_length (layer @ [h])
      else Some (Ret (Inr layer)))"

definition file_root_of_layer :: "hash list \<Rightarrow> nat \<Rightarrow> (io_error + file_hashes) outcome" where
  "file_root_of_layer layer piece_length =
     on_ret (merkle_root layer (next_power_of_two (length layer)) (layer_pad piece_length))
       (\<lambda>root. Ret (Inr \<lparr>fh_root = Some root, fh_layer = layer\<rparr>))"

definition hash_file :: "bytes \<Rightarrow> nat \<Rightarrow> nat \<Rightarrow> (io_error + file_hashes) outcome option" where
  "hash_file reader len piece_length =
     (if len = 0 then Some (Ret (Inr \<lparr>fh_root = None, fh_layer = []\<rparr>))
      else if len \<le> piece_length then
        if length reader < len then Some (Ret (Inl UnexpectedEof))
        else let leaves = block_hashes (take len reader)
             in Some (on_ret (merkle_root leaves (next_power_of_two (length leaves)) zero_hash)
                  (\<lambda>root. Ret (Inr \<lparr>fh_root = Some root, fh_layer = []\<rparr>)))
      else case layer_loop reader len piece_length [] of
             None \<Rightarrow> None
           | Some r \<Rightarrow> Some (on_ret r (\<lambda>x. case x of Inl e \<Rightarrow> Ret (Inl e) | Inr layer \<Rightarrow> file_root_of_layer layer piece_length)))"

section \<open>Chunks of chunks\<close>

lemma slice_chunks_step: "0 < n \<Longrightarrow> xs \<noteq> [] \<Longrightarrow> slice_chunks n xs = take n xs # slice_chunks n (drop n xs)"
  by (simp add: slice_chunks.simps [of n xs])

lemma length_slice_chunks: "0 < n \<Longrightarrow> length (slice_chunks n xs) = div_ceil (length xs) n"
proof (induction n xs rule: slice_chunks.induct)
  case (1 n xs)
  show ?case
  proof (cases "xs = []")
    case False
    with 1 have IH: "length (slice_chunks n (drop n xs)) = div_ceil (length xs - n) n" by simp
    have "div_ceil (length xs) n = Suc (div_ceil (length xs - n) n)"
    proof (cases "n \<le> length xs")
      case True
      with 1(2) show ?thesis by (simp add: div_ceil_def le_div_geq le_mod_geq)
    qed (use 1(2) False in \<open>simp add: div_ceil_def\<close>)
    with IH False 1(2) show ?thesis by (simp add: slice_chunks_step)
  qed (simp add: div_ceil_def)
qed

lemma slice_chunks_map: "slice_chunks n (map f xs) = map (map f) (slice_chunks n xs)"
proof (induction n xs rule: slice_chunks.induct)
  case (1 n xs)
  then show ?case
    by (cases "n = 0 \<or> xs = []") (auto simp: slice_chunks.simps [of n "map f xs"] slice_chunks.simps [of n xs] take_map drop_map)
qed

text \<open>Cutting the whole into blocks and grouping them is cutting each piece into blocks.\<close>

lemma take_slice_chunks: "0 < b \<Longrightarrow> take n (slice_chunks b xs) = slice_chunks b (take (n * b) xs)"
proof (induction n arbitrary: xs)
  case (Suc n)
  then show ?case
    by (cases "xs = []") (simp_all add: slice_chunks_step min_def drop_take)
qed simp

lemma drop_slice_chunks: "0 < b \<Longrightarrow> drop n (slice_chunks b xs) = slice_chunks b (drop (n * b) xs)"
proof (induction n arbitrary: xs)
  case (Suc n)
  then show ?case by (cases "xs = []") (simp_all add: slice_chunks_step add.commute)
qed simp

lemma slice_chunks_nested:
  "0 < n \<Longrightarrow> 0 < b \<Longrightarrow> slice_chunks n (slice_chunks b xs) = map (slice_chunks b) (slice_chunks (n * b) xs)"
proof (induction "length xs" arbitrary: xs rule: less_induct)
  case less
  show ?case
  proof (cases "xs = []")
    case False
    with less.prems have ne: "slice_chunks b xs \<noteq> []" by (simp add: slice_chunks_step)
    have "slice_chunks n (slice_chunks b (drop (n * b) xs)) = map (slice_chunks b) (slice_chunks (n * b) (drop (n * b) xs))"
      using less False by simp
    with less.prems ne False show ?thesis
      by (simp add: slice_chunks_step [of n "slice_chunks b xs"] slice_chunks_step [of "n * b"] take_slice_chunks drop_slice_chunks)
  qed simp
qed

lemma resize_split:
  "resize (n + m) z ys = resize n z (take n ys) @ resize m z (drop n ys)"
proof (cases "n \<le> length ys")
  case True
  then show ?thesis by (simp add: resize_def take_add)
next
  case False
  then show ?thesis by (simp add: resize_def flip: replicate_add)
qed

lemma chunks_resize:
  "0 < n \<Longrightarrow> length ys \<le> n * m \<Longrightarrow>
   chunks n (resize (n * m) z ys) = resize m (replicate n z) (map (resize n z) (slice_chunks n ys))"
proof (induction m arbitrary: ys)
  case 0
  then show ?case by (simp add: chunks_short resize_def)
next
  case (Suc m)
  let ?first = "resize n z (take n ys)"
  have "chunks n (?first @ resize (n * m) z (drop n ys)) = ?first # chunks n (resize (n * m) z (drop n ys))"
    using Suc.prems(1) by (simp add: chunks.simps [of n "?first @ resize (n * m) z (drop n ys)"])
  also have "\<dots> = ?first # resize m (replicate n z) (map (resize n z) (slice_chunks n (drop n ys)))"
    using Suc by (simp add: diff_le_mono)
  also have "\<dots> = resize (Suc m) (replicate n z) (map (resize n z) (slice_chunks n ys))"
    using Suc.prems(1) by (cases "ys = []") (simp_all add: slice_chunks_step resize_def)
  finally show ?case using resize_split [of n "n * m" z ys] by (simp add: add.commute)
qed

lemma chunks_nth: "0 < n \<Longrightarrow> i < length xs div n \<Longrightarrow> chunks n xs ! i = take n (drop (i * n) xs)"
proof (induction i arbitrary: xs)
  case 0
  then show ?case by (simp add: chunks.simps [of n xs] div_greater_zero_iff)
next
  case (Suc i)
  then have le: "n \<le> length xs" by (metis div_less gr_implies_not0 leI)
  with Suc.prems have "i < length (drop n xs) div n" by (simp add: le_div_geq)
  from Suc.IH [OF Suc.prems(1) this] Suc.prems(1) le show ?case
    by (simp add: chunks.simps [of n xs] add.commute)
qed

lemma map_resize: "map f (resize n z xs) = resize n (f z) (map f xs)"
  by (simp add: resize_def take_map)

section \<open>The root of a file\<close>

text \<open>The tree over the leaves is the tree over the roots of its aligned groups.\<close>

lemma layer_groups:
  assumes "length xs = 2 ^ (a + b)"
  shows "(pairs ^^ a) xs = map (tree a) (chunks (2 ^ a) xs)"
proof (rule nth_equalityI)
  have layer: "length ((pairs ^^ a) xs) = 2 ^ b" using tree_from_layer(1) [OF assms, of a] by simp
  have len: "length (chunks (2 ^ a) xs) = 2 ^ b" using assms by (simp add: chunks_length power_add)
  show "length ((pairs ^^ a) xs) = length (map (tree a) (chunks (2 ^ a) xs))" by (simp add: layer len)
  fix i assume "i < length ((pairs ^^ a) xs)"
  then have i: "i < 2 ^ b" using layer by simp
  then have "Suc i * 2 ^ a \<le> 2 ^ b * 2 ^ a" by (intro mult_le_mono1) simp
  then have "Suc i * 2 ^ a \<le> length xs" using assms by (simp add: power_add mult.commute)
  then have "(pairs ^^ a) xs ! i = tree a (take (2 ^ a) (drop (i * 2 ^ a) xs))" using tree_slice by simp
  then show "(pairs ^^ a) xs ! i = map (tree a) (chunks (2 ^ a) xs) ! i"
    using i len assms by (simp add: chunks_nth power_add)
qed

lemma tree_grouped:
  assumes "length xs = 2 ^ (a + b)"
  shows "tree (a + b) xs = tree b (map (tree a) (chunks (2 ^ a) xs))"
  using tree_from_layer(2) [OF assms, of a] layer_groups [OF assms] by simp

lemma tree_zero: "tree a (replicate (2 ^ a) zero_hash) = zero_subtree a"
  by (induction a) (simp_all add: min_def)

lemma div_ceil_ge: "0 < b \<Longrightarrow> a \<le> b * div_ceil a b"
proof -
  assume "0 < b"
  then have "a mod b \<le> b" by simp
  then have "a \<le> b * (a div b) + b" using mult_div_mod_eq [of b a] by linarith
  then show ?thesis by (simp add: div_ceil_def) (metis add.commute mult_div_mod_eq add_0_right order_refl)
qed

lemma BLOCK_pos [simp]: "0 < BLOCK"
  by (simp add: BLOCK_def)

definition piece_root :: "nat \<Rightarrow> bytes \<Rightarrow> hash" where
  "piece_root a p = tree a (resize (2 ^ a) zero_hash (block_hashes p))"

lemma block_groups:
  "slice_chunks (2 ^ a) (block_hashes d) = map block_hashes (slice_chunks (2 ^ a * BLOCK) d)"
  by (simp add: block_hashes_def slice_chunks_map slice_chunks_nested comp_def)

lemma pieces_layer:
  assumes "length (slice_chunks (2 ^ a * BLOCK) d) \<le> 2 ^ b"
  shows "resize (2 ^ b) (zero_subtree a) (map (piece_root a) (slice_chunks (2 ^ a * BLOCK) d))
    = (pairs ^^ a) (resize (2 ^ (a + b)) zero_hash (block_hashes d))"
proof -
  have "div_ceil (length (block_hashes d)) (2 ^ a) = length (slice_chunks (2 ^ a) (block_hashes d))"
    by (simp add: length_slice_chunks)
  with assms have "div_ceil (length (block_hashes d)) (2 ^ a) \<le> 2 ^ b" by (simp add: block_groups)
  then have "length (block_hashes d) \<le> 2 ^ a * 2 ^ b"
    using div_ceil_ge [of "2 ^ a" "length (block_hashes d)"] by (meson mult_le_mono2 order_trans zero_less_numeral zero_less_power)
  then have "map (tree a) (chunks (2 ^ a) (resize (2 ^ (a + b)) zero_hash (block_hashes d)))
      = resize (2 ^ b) (zero_subtree a) (map (piece_root a) (slice_chunks (2 ^ a * BLOCK) d))"
    by (simp add: power_add chunks_resize map_resize tree_zero block_groups piece_root_def [abs_def] comp_def)
  then show ?thesis using layer_groups [of "resize (2 ^ (a + b)) zero_hash (block_hashes d)" a b] by simp
qed

lemma pieces_tree:
  assumes "length (slice_chunks (2 ^ a * BLOCK) d) \<le> 2 ^ b"
  shows "tree b (resize (2 ^ b) (zero_subtree a) (map (piece_root a) (slice_chunks (2 ^ a * BLOCK) d)))
    = tree (a + b) (resize (2 ^ (a + b)) zero_hash (block_hashes d))"
  using pieces_layer [OF assms] tree_from_layer(2) [of "resize (2 ^ (a + b)) zero_hash (block_hashes d)" "a + b" a] by simp

lemma div_ceil_alt: "0 < b \<Longrightarrow> div_ceil a b = (a + b - 1) div b"
proof -
  assume b: "0 < b"
  have "a + b - 1 = (a mod b + b - 1) + a div b * b" using b div_mult_mod_eq [of a b] by linarith
  then have "(a + b - 1) div b = a div b + (a mod b + b - 1) div b"
    using b by (simp only: div_mult_self1 neq0_conv)
  also have "(a mod b + b - 1) div b = (if a mod b = 0 then 0 else 1)"
    using b mod_less_divisor [OF b, of a] by (auto intro!: div_nat_eqI)
  finally show ?thesis by (simp add: div_ceil_def)
qed

lemma next_power_of_two_group:
  "2 ^ a < n \<Longrightarrow> next_power_of_two n = 2 ^ a * next_power_of_two (div_ceil n (2 ^ a))"
proof (induction a arbitrary: n)
  case 0
  then show ?case by (simp add: div_ceil_def)
next
  case (Suc a)
  have "1 \<le> (2::nat) ^ a" by simp
  then have n: "1 < n" "2 ^ a < (n + 1) div 2" using Suc.prems unfolding power_Suc by linarith+
  have "div_ceil ((n + 1) div 2) (2 ^ a) = ((n + 1) div 2 + (2 ^ a - 1)) div 2 ^ a" by (simp add: div_ceil_alt)
  also have "(n + 1) div 2 + (2 ^ a - 1) = (n + 1 + (2 ^ a - 1) * 2) div 2" by (simp only: div_mult_self1)
  also have "\<dots> div 2 ^ a = (n + 1 + (2 ^ a - 1) * 2) div 2 ^ Suc a" by (simp add: div_mult2_eq)
  also have "n + 1 + (2 ^ a - 1) * 2 = n + 2 ^ Suc a - 1" using \<open>1 \<le> 2 ^ a\<close> unfolding power_Suc by linarith
  also have "\<dots> div 2 ^ Suc a = div_ceil n (2 ^ Suc a)" by (simp only: div_ceil_alt zero_less_power zero_less_numeral)
  finally have "div_ceil ((n + 1) div 2) (2 ^ a) = div_ceil n (2 ^ Suc a)" .
  with n Suc.IH [OF n(2)] show ?case by (simp add: next_power_of_two.simps [of n])
qed

section \<open>What hashing a file gives\<close>

text \<open>
  The \<open>pieces root\<close> of BEP 52: the root over the hashes of all blocks of the file, padded
  with zero leaves to the next power of two.
\<close>

definition bep52_root :: "bytes \<Rightarrow> hash" where
  "bep52_root d =
     (let width = next_power_of_two (length (block_hashes d))
      in tree (trailing_zeros 64 width) (resize width zero_hash (block_hashes d)))"

lemma bep52_root_power:
  "next_power_of_two (length (block_hashes d)) = 2 ^ k \<Longrightarrow>
   bep52_root d = tree k (resize (2 ^ k) zero_hash (block_hashes d))"
  by (simp add: bep52_root_def)

lemma valid_piece_lengthE:
  assumes "valid_piece_length (int piece_length)"
  obtains a where "piece_length = 2 ^ a * BLOCK"
proof -
  obtain k where k: "piece_length = 2 ^ k" "16384 \<le> piece_length"
    using assms by (auto simp: valid_piece_length_def is_power_of_two_iff BLOCK_def)
  have "14 \<le> k"
  proof (rule ccontr)
    assume "\<not> 14 \<le> k"
    then have "(2::nat) ^ k \<le> 2 ^ 13" by (intro power_increasing) auto
    with k show False by simp
  qed
  then have "(2::nat) ^ k = 2 ^ (k - 14) * 2 ^ 14" by (metis le_add_diff_inverse2 power_add)
  then show thesis using that [of "k - 14"] k by (simp add: BLOCK_def)
qed

lemma piece_hash_root: "piece_hash p (2 ^ a * BLOCK) = Ret (piece_root a p)"
  by (simp add: piece_hash_def merkle_root_tree piece_root_def)

lemma layer_pad_power: "layer_pad (2 ^ a * BLOCK) = zero_subtree a"
  by (simp add: layer_pad_def)

lemma layer_loop_pieces:
  "layer_loop (d @ rest) (length d) (2 ^ a * BLOCK) layer =
     Some (Ret (Inr (layer @ map (piece_root a) (slice_chunks (2 ^ a * BLOCK) d))))"
proof (induction "length d" arbitrary: d layer rule: less_induct)
  case less
  let ?pl = "2 ^ a * BLOCK"
  show ?case
  proof (cases "d = []")
    case True
    then show ?thesis by (subst layer_loop.simps) simp
  next
    case False
    let ?n = "min (length d) ?pl"
    have cut: "take ?n d = take ?pl d" "drop ?n d = drop ?pl d" "length d - ?n = length (drop ?pl d)"
      by (auto simp: min_def)
    have "layer_loop (d @ rest) (length d) ?pl layer =
        layer_loop (drop ?pl d @ rest) (length (drop ?pl d)) ?pl (layer @ [piece_root a (take ?pl d)])"
      using False by (subst layer_loop.simps) (simp add: cut piece_hash_root del: length_drop)
    also have "\<dots> = Some (Ret (Inr (layer @ map (piece_root a) (slice_chunks ?pl d))))"
      using less [of "drop ?pl d"] False by (simp add: slice_chunks_step)
    finally show ?thesis .
  qed
qed

lemma block_count: "length (block_hashes d) = div_ceil (length d) BLOCK"
  by (simp add: block_hashes_def length_slice_chunks)

lemma large_file_blocks:
  assumes "2 ^ a * BLOCK < length d"
  shows "2 ^ a < length (block_hashes d)"
proof -
  have "2 ^ a * BLOCK < length (block_hashes d) * BLOCK"
    using assms div_ceil_ge [OF BLOCK_pos, of "length d"] unfolding block_count mult.commute [of _ BLOCK] by linarith
  then show ?thesis by (simp only: mult_less_cancel2)
qed

text \<open>The widths of the two ways to pad a file longer than a piece agree.\<close>

lemma large_file_width:
  assumes "2 ^ a * BLOCK < length d" "next_power_of_two (length (slice_chunks (2 ^ a * BLOCK) d)) = 2 ^ b"
  shows "next_power_of_two (length (block_hashes d)) = 2 ^ (a + b)"
proof -
  have "length (slice_chunks (2 ^ a * BLOCK) d) = div_ceil (length (block_hashes d)) (2 ^ a)"
    using arg_cong [OF block_groups [of a d], of length] by (simp add: length_slice_chunks)
  then show ?thesis
    using next_power_of_two_group [OF large_file_blocks [OF assms(1)]] assms(2) by (simp add: power_add)
qed

lemma layer_root:
  assumes "2 ^ a * BLOCK < length d"
  defines "layer \<equiv> map (piece_root a) (slice_chunks (2 ^ a * BLOCK) d)"
  shows "merkle_root layer (next_power_of_two (length layer)) (layer_pad (2 ^ a * BLOCK)) = Ret (bep52_root d)"
proof -
  obtain b where b: "next_power_of_two (length layer) = 2 ^ b" using next_power_of_two_power by blast
  then have "next_power_of_two (length (block_hashes d)) = 2 ^ (a + b)"
    using large_file_width [OF assms(1)] by (simp add: layer_def)
  moreover have "length (slice_chunks (2 ^ a * BLOCK) d) \<le> 2 ^ b"
    using next_power_of_two_ge [of "length layer"] b by (simp add: layer_def)
  ultimately show ?thesis
    using pieces_tree [of a d b] bep52_root_power [of d "a + b"] b
    by (simp add: layer_pad_power merkle_root_tree layer_def)
qed

lemma hash_file_result:
  assumes "d \<noteq> []"
  shows "hash_file (d @ rest) (length d) (2 ^ a * BLOCK) = Some (Ret (Inr \<lparr>fh_root = Some (bep52_root d),
    fh_layer = (if length d \<le> 2 ^ a * BLOCK then [] else map (piece_root a) (slice_chunks (2 ^ a * BLOCK) d))\<rparr>))"
proof (cases "length d \<le> 2 ^ a * BLOCK")
  case True
  obtain k where "next_power_of_two (length (block_hashes d)) = 2 ^ k" using next_power_of_two_power by blast
  with assms True show ?thesis by (simp add: hash_file_def Let_def merkle_root_tree bep52_root_power)
next
  case False
  then have "file_root_of_layer (map (piece_root a) (slice_chunks (2 ^ a * BLOCK) d)) (2 ^ a * BLOCK) =
      Ret (Inr \<lparr>fh_root = Some (bep52_root d), fh_layer = map (piece_root a) (slice_chunks (2 ^ a * BLOCK) d)\<rparr>)"
    using layer_root [of a d] by (simp add: file_root_of_layer_def)
  with assms False show ?thesis by (simp add: hash_file_def layer_loop_pieces)
qed

text \<open>
  C31: Hashing a file piece by piece gives the root of BEP 52. With a valid piece length
  \<open>hash_file\<close> returns, reads exactly the file from the reader, and its root is that of the
  tree over the hashes of all 16 KiB blocks padded to a power of two, although it never
  builds that tree: it pads the layer of piece hashes with roots of zero subtrees.
\<close>

theorem hash_file_root:
  assumes "valid_piece_length (int piece_length)" "d \<noteq> []"
  shows "\<exists>layer. hash_file (d @ rest) (length d) piece_length =
    Some (Ret (Inr \<lparr>fh_root = Some (bep52_root d), fh_layer = layer\<rparr>))"
proof -
  obtain a where "piece_length = 2 ^ a * BLOCK" using assms(1) by (rule valid_piece_lengthE)
  then show ?thesis using hash_file_result [OF assms(2), of rest a] by simp
qed

theorem hash_file_root_witness:
  "valid_piece_length 32768 \<and>
   (\<exists>layer. hash_file [1, 2, 3, 4] 3 32768 = Some (Ret (Inr \<lparr>fh_root = Some (bep52_root [1, 2, 3]), fh_layer = layer\<rparr>)))"
proof -
  have "valid_piece_length (int 32768)"
    using is_power_of_two_power [of 15] by (simp add: valid_piece_length_def BLOCK_def)
  with hash_file_root [of 32768 "[1, 2, 3]" "[4]"] show ?thesis by (simp add: numeral_3_eq_3)
qed

section \<open>From hashing to verifying\<close>

definition piece_slice :: "bytes \<Rightarrow> v2_piece \<Rightarrow> bytes" where
  "piece_slice d p = take (vp_length p) (drop (vp_offset p) d)"

text \<open>A piece whose expected hash is that of its own slice of the file passes the check.\<close>

definition verifies :: "bytes \<Rightarrow> v2_piece \<Rightarrow> bool" where
  "verifies d p \<longleftrightarrow> merkle_matches (piece_slice d p) (vp_width p) (vp_root p) = Ret True"

lemma as_u32_id: "n < 2 ^ 32 \<Longrightarrow> as_u32 n = n"
  by (simp add: as_u32_def)

lemma merkle_matches_piece_root:
  assumes "length q \<le> 2 ^ a * BLOCK" "2 ^ a * BLOCK < 2 ^ 32"
  shows "merkle_matches q (2 ^ a) (piece_root a q) = Ret True"
  using assms by (simp add: merkle_matches_def merkle_root_tree piece_root_def)

lemma plan_layer_pieces:
  assumes pl: "2 ^ a * BLOCK < 2 ^ 32"
  shows "\<exists>ps. plan_layer i (length d) (2 ^ a * BLOCK) n
      (map (piece_root a) (slice_chunks (2 ^ a * BLOCK) (drop (n * (2 ^ a * BLOCK)) d))) = Ret ps \<and>
    concat (map (piece_slice d) ps) = drop (n * (2 ^ a * BLOCK)) d \<and> list_all (verifies d) ps"
proof (induction "length d - n * (2 ^ a * BLOCK)" arbitrary: n rule: less_induct)
  case less
  let ?pl = "2 ^ a * BLOCK" let ?r = "drop (n * ?pl) d"
  show ?case
  proof (cases "?r = []")
    case False
    then have lt: "n * ?pl < length d" by (simp add: not_le)
    have "2 ^ a \<le> ?pl" by (simp add: BLOCK_def)
    with pl have "(2::nat) ^ a < 2 ^ 32" by (rule order_le_less_trans [rotated])
    then have w: "as_u32 (2 ^ a) = 2 ^ a" by (rule as_u32_id)
    define p where "p = \<lparr>vp_file = i, vp_offset = n * ?pl, vp_length = as_u32 (min (length d - n * ?pl) ?pl),
        vp_root = piece_root a (take ?pl ?r), vp_width = as_u32 (?pl div BLOCK)\<rparr>"
    have slice: "piece_slice d p = take ?pl ?r"
      using pl by (auto simp: p_def piece_slice_def as_u32_id min_def)
    then have "verifies d p"
      using merkle_matches_piece_root [of "take ?pl ?r" a] pl unfolding verifies_def by (simp add: p_def w)
    have tail: "drop ?pl ?r = drop (Suc n * ?pl) d" by (simp add: add.commute)
    obtain ps where ps: "plan_layer i (length d) ?pl (Suc n)
        (map (piece_root a) (slice_chunks ?pl (drop (Suc n * ?pl) d))) = Ret ps"
      "concat (map (piece_slice d) ps) = drop (Suc n * ?pl) d" "list_all (verifies d) ps"
      using less [of "Suc n"] lt BLOCK_pos by (auto simp: diff_less_mono2)
    have "slice_chunks ?pl ?r = take ?pl ?r # slice_chunks ?pl (drop (Suc n * ?pl) d)"
      using False slice_chunks_step [of ?pl ?r] tail by simp
    then have "plan_layer i (length d) ?pl n (map (piece_root a) (slice_chunks ?pl ?r)) = Ret (p # ps)"
      using lt ps(1) by (simp only: list.map plan_layer.simps Let_def on_ret_simps p_def) simp
    moreover have "concat (map (piece_slice d) (p # ps)) = ?r"
      using ps(2) slice tail append_take_drop_id [of ?pl ?r] by (simp only: list.map concat.simps)
    ultimately show ?thesis using ps(3) \<open>verifies d p\<close> by (intro exI [of _ "p # ps"]) simp
  qed simp
qed

lemma div_ceil_le: "0 < b \<Longrightarrow> a \<le> k * b \<Longrightarrow> div_ceil a b \<le> k"
proof -
  assume "0 < b" "a \<le> k * b"
  then have "(a + b - 1) div b \<le> (b - 1 + k * b) div b" by (intro div_le_mono) linarith
  also have "\<dots> = k + (b - 1) div b" using \<open>0 < b\<close> by (simp only: div_mult_self1 neq0_conv)
  finally show ?thesis using \<open>0 < b\<close> by (simp add: div_ceil_alt)
qed

lemma small_file_verifies:
  assumes "d \<noteq> []" "length d \<le> 2 ^ a * BLOCK" "2 ^ a * BLOCK < 2 ^ 32"
  shows "merkle_matches d (as_u32 (next_power_of_two (div_ceil (length d) BLOCK))) (bep52_root d) = Ret True"
proof -
  obtain k where k: "next_power_of_two (length (block_hashes d)) = 2 ^ k" using next_power_of_two_power by blast
  have n: "length (block_hashes d) \<le> 2 ^ a" using div_ceil_le [of BLOCK "length d"] assms(2) by (simp add: block_count)
  have "(2::nat) ^ k \<le> 2 * 2 ^ a"
  proof (cases "length (block_hashes d) \<le> 1")
    case True
    then show ?thesis using k [symmetric] by (simp add: next_power_of_two.simps [of "length _"])
  next
    case False
    then show ?thesis using next_power_of_two_half [of "length (block_hashes d)"] k n by simp
  qed
  also have "\<dots> \<le> 2 ^ a * BLOCK" by (simp add: BLOCK_def)
  finally have "(2::nat) ^ k < 2 ^ 32" using assms(3) by (rule order_le_less_trans)
  then have u: "as_u32 (2 ^ k) = 2 ^ k" by (rule as_u32_id)
  have "length d \<le> BLOCK * length (block_hashes d)" by (simp add: block_count div_ceil_ge)
  also have "\<dots> \<le> BLOCK * 2 ^ k" using next_power_of_two_ge [of "length (block_hashes d)"] k by (intro mult_le_mono2) simp
  finally show ?thesis using assms(2,3) k
    by (simp add: merkle_matches_def merkle_root_tree bep52_root_power u mult.commute flip: block_count)
qed

text \<open>
  C11: A v2 torrent made of a file verifies that file. From what \<open>hash_file\<close> computes for
  a file, the piece layer validates against the file's root, the plan of its pieces exists
  without underflow, the planned pieces are the file cut without gap or overlap, and each
  of them passes \<open>merkle_matches\<close> with its planned width and root.
\<close>

theorem v2_create_verify:
  assumes "valid_piece_length (int piece_length)" "piece_length < 2 ^ 32" "d \<noteq> []"
    and made: "hash_file d (length d) piece_length = Some (Ret (Inr \<lparr>fh_root = Some root, fh_layer = layer\<rparr>))"
    and layers: "layers root = Some layer"
  shows "validate_layers [\<lparr>vf_path = path, vf_length = length d, vf_root = Some root\<rparr>] layers (int piece_length) = Ret (Inr ()) \<and>
    (\<exists>ps. plan_pieces [\<lparr>vf_path = path, vf_length = length d, vf_root = Some root\<rparr>] layers piece_length = Ret (Some ps) \<and>
       concat (map (piece_slice d) ps) = d \<and>
       (\<forall>p\<in>set ps. merkle_matches (piece_slice d p) (vp_width p) (vp_root p) = Ret True))"
proof -
  obtain a where pl: "piece_length = 2 ^ a * BLOCK" using assms(1) by (rule valid_piece_lengthE)
  have root: "root = bep52_root d" and layer: "layer = (if length d \<le> piece_length then []
      else map (piece_root a) (slice_chunks piece_length d))"
    using made hash_file_result [OF assms(3), of "[]" a] by (simp_all add: pl)
  show ?thesis
  proof (cases "length d \<le> piece_length")
    case True
    then have "as_u32 (length d) = length d" using assms(2) by (simp add: as_u32_id)
    moreover have "merkle_matches d (as_u32 (next_power_of_two (div_ceil (length d) BLOCK))) root = Ret True"
      using True assms(2) small_file_verifies [OF assms(3), of a] by (simp add: root pl)
    ultimately show ?thesis
      using True assms(1) by (simp add: validate_layers_def plan_pieces_def piece_slice_def)
  next
    case False
    then have "validate_file layers piece_length \<lparr>vf_path = path, vf_length = length d, vf_root = Some root\<rparr> = Ret (Inr ())"
      using layer_root [of a d] layers layer by (simp add: validate_file_def root pl length_slice_chunks)
    with False assms(1) have "validate_layers [\<lparr>vf_path = path, vf_length = length d, vf_root = Some root\<rparr>] layers (int piece_length) = Ret (Inr ())"
      by (simp add: validate_layers_def)
    moreover obtain ps where "plan_layer 0 (length d) piece_length 0 layer = Ret ps"
      "concat (map (piece_slice d) ps) = d" "list_all (verifies d) ps"
      using plan_layer_pieces [of a 0 d 0] assms(2) layer False by (auto simp: pl)
    ultimately show ?thesis using False layers
      by (simp add: plan_pieces_def) (simp add: list_all_iff verifies_def)
  qed
qed

theorem v2_create_verify_witness:
  "let d = [1, 2, 3]; root = bep52_root d; f = \<lparr>vf_path = [[97]], vf_length = 3, vf_root = Some root\<rparr> in
   validate_layers [f] [root \<mapsto> []] 32768 = Ret (Inr ()) \<and>
   (\<exists>ps. plan_pieces [f] [root \<mapsto> []] 32768 = Ret (Some ps) \<and> concat (map (piece_slice d) ps) = d \<and>
     (\<forall>p\<in>set ps. merkle_matches (piece_slice d p) (vp_width p) (vp_root p) = Ret True))"
proof -
  have pl: "valid_piece_length (int 32768)" "(32768::nat) < 2 ^ 32" "(32768::nat) = 2 ^ 1 * BLOCK"
    using is_power_of_two_power [of 15] by (simp_all add: valid_piece_length_def BLOCK_def)
  have made: "hash_file [1, 2, 3] (length [1, 2, 3 :: u8]) 32768 =
      Some (Ret (Inr \<lparr>fh_root = Some (bep52_root [1, 2, 3]), fh_layer = []\<rparr>))"
    using hash_file_result [of "[1, 2, 3]" "[]" 1] by (simp add: BLOCK_def)
  show ?thesis
    using v2_create_verify [OF pl(1,2) _ made, of "[bep52_root [1, 2, 3] \<mapsto> []]" "[[97]]"]
    by (simp add: Let_def numeral_3_eq_3)
qed

section \<open>The paths of the file tree\<close>

definition good_file :: "v2_file \<Rightarrow> bool" where
  "good_file f \<longleftrightarrow> vf_path f \<noteq> [] \<and> length (vf_path f) \<le> MAX_TREE_DEPTH \<and>
     list_all (\<lambda>c. valid_utf8 c \<and> is_safe_component c) (vf_path f) \<and>
     (vf_length f > 0 \<longleftrightarrow> vf_root f \<noteq> None) \<and> (\<forall>r. vf_root f = Some r \<longrightarrow> length r = 32)"

text \<open>No file sits at, above or below the path of another.\<close>

definition apart :: "v2_file list \<Rightarrow> bool" where
  "apart fs \<longleftrightarrow> sorted_wrt (\<lambda>f g. \<not> prefix (vf_path f) (vf_path g) \<and> \<not> prefix (vf_path g) (vf_path f)) fs"

definition safe_path :: "bytes list \<Rightarrow> bool" where
  "safe_path path \<longleftrightarrow> length path \<le> MAX_TREE_DEPTH \<and> list_all (\<lambda>c. valid_utf8 c \<and> is_safe_component c) path"

lemma leaf_root_32: "leaf_root leaf = Inr (Some r) \<Longrightarrow> length r = 32"
  by (auto simp: leaf_root_def res_iff split: option.splits if_splits)

lemma apart_append:
  "apart fs \<Longrightarrow> apart gs \<Longrightarrow>
   (\<forall>f\<in>set fs. \<exists>suf. vf_path f = path @ name # suf) \<Longrightarrow>
   (\<forall>g\<in>set gs. \<exists>n suf. n \<noteq> name \<and> vf_path g = path @ n # suf) \<Longrightarrow> apart (fs @ gs)"
  unfolding apart_def sorted_wrt_append by fastforce

lemma walk_files:
  shows "walk t path files = Inr out \<Longrightarrow> wf_bencode t \<Longrightarrow> safe_path path \<Longrightarrow> length files \<le> MAX_FILES \<Longrightarrow>
      \<exists>new. out = files @ new \<and> length out \<le> MAX_FILES \<and> list_all good_file new \<and> apart new \<and>
        (\<forall>f\<in>set new. prefix path (vf_path f))"
    and "walk_entries es path files = Inr out \<Longrightarrow> sorted_keys es \<Longrightarrow> list_all (\<lambda>(k, v). wf_bencode v) es \<Longrightarrow>
      safe_path path \<Longrightarrow> length path < MAX_TREE_DEPTH \<Longrightarrow> length files \<le> MAX_FILES \<Longrightarrow>
      \<exists>new. out = files @ new \<and> length out \<le> MAX_FILES \<and> list_all good_file new \<and> apart new \<and>
        (\<forall>f\<in>set new. \<exists>name suf. name \<in> fst ` set es \<and> vf_path f = path @ name # suf)"
proof (induction t path files and es path files arbitrary: out and out rule: walk_walk_entries.induct)
  case (1 entries path files)
  show ?case
  proof (cases "map_of entries []")
    case None
    with 1(2) have "length path < MAX_TREE_DEPTH" "walk_entries entries path files = Inr out" by (auto split: if_splits)
    from 1(1) [OF None _ this(2)] this(1) 1(3-5) show ?thesis by (fastforce simp: prefix_def)
  next
    case (Some leaf)
    with 1(2) obtain len root where f: "out = files @ [\<lparr>vf_path = path, vf_length = len, vf_root = root\<rparr>]"
      "path \<noteq> []" "length files < MAX_FILES" "(len > 0) = (root \<noteq> None)" "leaf_root leaf = Inr root"
      by (auto simp: res_iff not_le split: if_splits)
    with 1(4) leaf_root_32 [of leaf] show ?thesis
      by (auto simp: good_file_def apart_def safe_path_def)
  qed
next
  case (4 name child rest path files)
  from 4(3) obtain mid where ok: "valid_utf8 name" "is_safe_component name"
    and mid: "walk child (path @ [name]) files = Inr mid" and rest: "walk_entries rest path mid = Inr out"
    by (auto simp: res_iff split: if_splits)
  have "safe_path (path @ [name])" using 4(6,7) ok by (simp add: safe_path_def)
  then obtain new1 where n1: "mid = files @ new1" "length mid \<le> MAX_FILES" "list_all good_file new1" "apart new1"
    "\<forall>f\<in>set new1. prefix (path @ [name]) (vf_path f)"
    using 4(1) [OF _ mid] ok 4(5,8) by auto
  obtain new2 where n2: "out = mid @ new2" "length out \<le> MAX_FILES" "list_all good_file new2" "apart new2"
    "\<forall>f\<in>set new2. \<exists>n suf. n \<in> fst ` set rest \<and> vf_path f = path @ n # suf"
    using 4(2) [OF _ mid rest] ok 4(4-7) n1(2) by auto
  have below: "\<forall>f\<in>set new1. \<exists>suf. vf_path f = path @ name # suf" using n1(5) by (auto simp: prefix_def)
  moreover have other: "\<forall>f\<in>set new2. \<exists>n suf. n \<noteq> name \<and> vf_path f = path @ n # suf"
    using n2(5) 4(4) by fastforce
  ultimately have "apart (new1 @ new2)" using apart_append [OF n1(4) n2(4)] by blast
  moreover have "\<forall>f\<in>set (new1 @ new2). \<exists>n suf. n \<in> fst ` set ((name, child) # rest) \<and> vf_path f = path @ n # suf"
  proof
    fix f assume "f \<in> set (new1 @ new2)"
    then show "\<exists>n suf. n \<in> fst ` set ((name, child) # rest) \<and> vf_path f = path @ n # suf"
      using below n2(5) by (cases "f \<in> set new1") (simp_all, (metis image_eqI)+)
  qed
  ultimately show ?case using n1(1,3) n2(1-3) by (intro exI [of _ "new1 @ new2"] conjI) simp_all
qed (auto simp: apart_def)

text \<open>
  C32: The file tree of an untrusted torrent cannot write outside the download directory
  or make two files collide. Whatever tree \<open>parse_file_tree\<close> accepts, every file has a
  non-empty path of at most 64 components, each of them valid UTF-8 and a plain name (no
  separator, no NUL, not a single or double dot); a root of 32 bytes exactly when it is
  not empty; there are at most 2^20 files; and no path is a prefix of another.
\<close>

theorem file_tree_safe:
  assumes "wf_bencode t" "parse_file_tree t = Inr files"
  shows "list_all good_file files \<and> length files \<le> MAX_FILES \<and> apart files"
  using walk_files(1) [of t "[]" "[]" files] assms by (auto simp: parse_file_tree_def safe_path_def)

definition sample_tree :: bencode where
  "sample_tree = BDict [([97], BDict [([], BDict [(key_length, BInt 0)])]), ([98], BDict [([99], BDict [([], BDict [(key_length, BInt 0)])])])]"

theorem file_tree_safe_witness:
  "wf_bencode sample_tree \<and>
   (let files = [\<lparr>vf_path = [[97]], vf_length = 0, vf_root = None\<rparr>, \<lparr>vf_path = [[98], [99]], vf_length = 0, vf_root = None\<rparr>]
    in parse_file_tree sample_tree = Inr files \<and> list_all good_file files \<and> length files \<le> MAX_FILES \<and> apart files)"
proof -
  have "wf_bencode sample_tree" by (simp add: sample_tree_def i64_range_def)
  moreover have "parse_file_tree sample_tree =
      Inr [\<lparr>vf_path = [[97]], vf_length = 0, vf_root = None\<rparr>, \<lparr>vf_path = [[98], [99]], vf_length = 0, vf_root = None\<rparr>]"
    by (simp add: parse_file_tree_def sample_tree_def MAX_TREE_DEPTH_def MAX_FILES_def leaf_length_def leaf_root_def
      get_def as_dict_def as_int_def key_length_def key_pieces_root_def is_safe_component_def)
  ultimately show ?thesis using file_tree_safe [of sample_tree] by (simp add: Let_def)
qed

end
