(* ===== verification/Hash_Source.thy ===== *)
theory Hash_Source
  imports V2_Meta Wire
begin

text \<open>
  Serving and fetching the hashes of a v2 torrent: what a seeder answers hash requests from
  (\<open>HashSource\<close> of \<^verbatim>\<open>src/src/v2.rs\<close>), its reply to a request
  (\<^verbatim>\<open>src/src/serving.rs\<close>), and the loop that fetches missing piece layers from a peer
  (\<^verbatim>\<open>src/src/session/layers.rs\<close>). The results: every allowed request is answered
  with the truth and with a proof the requester accepts, and fetching from such a seeder
  gives the layers.
\<close>

section \<open>The source of the hashes\<close>

definition MAX_HASHES_PER_REQUEST :: nat where
  "MAX_HASHES_PER_REQUEST = 512"

record source_file =
  sf_length :: nat
  sf_first_piece :: nat
  sf_layer :: "hash list"

record hash_source =
  hs_piece_length :: nat
  hs_files :: "(hash \<times> source_file) list"

definition u32_add :: "nat \<Rightarrow> nat \<Rightarrow> nat outcome" where
  "u32_add a b = (if a + b < 2 ^ 32 then Ret (a + b) else Panic)"

definition u32_shr :: "nat \<Rightarrow> nat \<Rightarrow> nat outcome" where
  "u32_shr x j = (if j < 32 then Ret (drop_bit j x) else Panic)"

fun source_files ::
  "v2_file list \<Rightarrow> layers \<Rightarrow> nat \<Rightarrow> nat \<Rightarrow> (hash \<times> source_file) list \<Rightarrow> (hash \<times> source_file) list outcome" where
  "source_files [] layers piece_length next_piece sources = Ret sources"
| "source_files (file # files) layers piece_length next_piece sources =
     (case vf_root file of
        None \<Rightarrow> source_files files layers piece_length next_piece sources
      | Some root \<Rightarrow>
          if piece_length = 0 then Panic
          else
            let pieces = as_u32 (div_ceil (vf_length file) piece_length);
                layer = (if vf_length file > piece_length then layers root else Some []);
                sources = (case layer of
                    None \<Rightarrow> sources
                  | Some l \<Rightarrow> al_insert root \<lparr>sf_length = vf_length file, sf_first_piece = next_piece, sf_layer = l\<rparr> sources)
            in on_ret (u32_add next_piece pieces) (\<lambda>next_piece.
                 source_files files layers piece_length next_piece sources))"

definition hash_source_new :: "v2_file list \<Rightarrow> layers \<Rightarrow> nat \<Rightarrow> hash_source option outcome" where
  "hash_source_new files layers piece_length =
     on_ret (source_files files layers piece_length 0 []) (\<lambda>sources.
       Ret (if sources = [] then None else Some \<lparr>hs_piece_length = piece_length, hs_files = sources\<rparr>))"

definition answer :: "hash_source \<Rightarrow> hash \<Rightarrow> nat \<Rightarrow> nat \<Rightarrow> nat \<Rightarrow> nat \<Rightarrow> hash_range_t option outcome" where
  "answer s root base_layer index len proof_layers =
     (case map_of (hs_files s) root of
        None \<Rightarrow> Ret None
      | Some file \<Rightarrow>
          if sf_layer file = [] then Ret None
          else
            let height = file_height (sf_length file) (hs_piece_length s); pieces_at = piece_layer (hs_piece_length s)
            in if base_layer < pieces_at \<or> len > MAX_HASHES_PER_REQUEST \<or> base_layer \<ge> height then Ret None
               else if base_layer = pieces_at then hash_range (sf_layer file) base_layer height index len proof_layers
               else on_ret (upper_layers (sf_layer file) pieces_at height) (\<lambda>layers.
                 if length layers \<le> base_layer - pieces_at then Panic
                 else hash_range (layers ! (base_layer - pieces_at)) base_layer height index len proof_layers))"

text \<open>
  The hashes of blocks, worked out from the pieces. An early return with nothing is \<open>None\<close>;
  otherwise the hash comes with the piece that is kept.
\<close>

type_synonym piece_cache = "(nat \<times> hash list) option"

definition on_some :: "'a option outcome \<Rightarrow> ('a \<Rightarrow> 'b option outcome) \<Rightarrow> 'b option outcome" where
  "on_some r k = on_ret r (\<lambda>x. case x of None \<Rightarrow> Ret None | Some a \<Rightarrow> k a)"

definition load_piece :: "(nat \<Rightarrow> bytes option) \<Rightarrow> source_file \<Rightarrow> nat \<Rightarrow> piece_cache \<Rightarrow> (nat \<times> hash list) option outcome" where
  "load_piece read_piece file piece cache =
     (if map_option fst cache = Some piece then Ret cache
      else on_ret (u32_add (sf_first_piece file) (as_u32 piece)) (\<lambda>n.
        Ret (case read_piece n of None \<Rightarrow> None | Some data \<Rightarrow> Some (piece, block_hashes data))))"

definition leaf_hash ::
  "(nat \<Rightarrow> bytes option) \<Rightarrow> source_file \<Rightarrow> nat \<Rightarrow> nat \<Rightarrow> nat \<Rightarrow> piece_cache \<Rightarrow> (hash \<times> piece_cache) option outcome" where
  "leaf_hash read_piece file blocks blocks_per_piece block cache =
     (if block \<ge> blocks then Ret (Some (zero_hash, cache))
      else if blocks_per_piece = 0 then Panic
      else on_some (load_piece read_piece file (block div blocks_per_piece) cache) (\<lambda>(held, hashes).
        let i = block mod blocks_per_piece
        in Ret (if i < length hashes then Some (hashes ! i, Some (held, hashes)) else None)))"

fun leaf_hashes ::
  "(nat \<Rightarrow> bytes option) \<Rightarrow> source_file \<Rightarrow> nat \<Rightarrow> nat \<Rightarrow> nat list \<Rightarrow> piece_cache \<Rightarrow> (hash list \<times> piece_cache) option outcome" where
  "leaf_hashes read_piece file blocks blocks_per_piece [] cache = Ret (Some ([], cache))"
| "leaf_hashes read_piece file blocks blocks_per_piece (block # rest) cache =
     on_some (leaf_hash read_piece file blocks blocks_per_piece block cache) (\<lambda>(h, cache).
     on_some (leaf_hashes read_piece file blocks blocks_per_piece rest cache) (\<lambda>(hs, cache).
       Ret (Some (h # hs, cache))))"

definition leaf_uncle ::
  "(nat \<Rightarrow> bytes option) \<Rightarrow> source_file \<Rightarrow> nat \<Rightarrow> nat \<Rightarrow> hash list list option \<Rightarrow> nat \<Rightarrow> nat \<Rightarrow> nat \<Rightarrow> piece_cache \<Rightarrow>
   (hash \<times> piece_cache) option outcome" where
  "leaf_uncle read_piece file blocks blocks_per_piece pieces_tree pieces_at index j cache =
     on_ret (u32_shr index j) (\<lambda>shifted.
       let sibling = shifted XOR 1;
           from_leaves =
             on_some (leaf_hashes read_piece file blocks blocks_per_piece [push_bit j sibling ..< push_bit j sibling + 2 ^ j] cache)
               (\<lambda>(leaves, cache). on_ret (merkle_root leaves (length leaves) zero_hash) (\<lambda>h. Ret (Some (h, cache))))
       in case pieces_tree of
            None \<Rightarrow> from_leaves
          | Some t \<Rightarrow>
              if j \<ge> pieces_at
              then if length t \<le> j - pieces_at \<or> length (t ! (j - pieces_at)) \<le> sibling then Panic
                else Ret (Some (t ! (j - pieces_at) ! sibling, cache))
              else from_leaves)"

fun leaf_uncles ::
  "(nat \<Rightarrow> bytes option) \<Rightarrow> source_file \<Rightarrow> nat \<Rightarrow> nat \<Rightarrow> hash list list option \<Rightarrow> nat \<Rightarrow> nat \<Rightarrow> nat \<Rightarrow> nat list \<Rightarrow> piece_cache \<Rightarrow>
   hash list option outcome" where
  "leaf_uncles read_piece file blocks blocks_per_piece pieces_tree pieces_at height index [] cache = Ret (Some [])"
| "leaf_uncles read_piece file blocks blocks_per_piece pieces_tree pieces_at height index (j # js) cache =
     (if j \<ge> height then Ret (Some [])
      else on_some (leaf_uncle read_piece file blocks blocks_per_piece pieces_tree pieces_at index j cache) (\<lambda>(uncle, cache).
        on_some (leaf_uncles read_piece file blocks blocks_per_piece pieces_tree pieces_at height index js cache) (\<lambda>uncles.
          Ret (Some (uncle # uncles)))))"

definition answer_leaves ::
  "hash_source \<Rightarrow> hash \<Rightarrow> nat \<Rightarrow> nat \<Rightarrow> nat \<Rightarrow> (nat \<Rightarrow> bytes option) \<Rightarrow> hash_range_t option outcome" where
  "answer_leaves s root index len proof_layers read_piece =
     (case map_of (hs_files s) root of
        None \<Rightarrow> Ret None
      | Some file \<Rightarrow>
          let blocks = div_ceil (sf_length file) BLOCK;
              blocks_per_piece = hs_piece_length s div BLOCK;
              single_piece = (sf_layer file = []);
              pieces_at = piece_layer (hs_piece_length s);
              height = (if single_piece then trailing_zeros 64 (next_power_of_two blocks)
                        else file_height (sf_length file) (hs_piece_length s))
          in if height = 0 \<or> len < 2 \<or> \<not> is_power_of_two len \<or> len > MAX_HASHES_PER_REQUEST \<or>
                index AND (len - 1) \<noteq> 0 \<or> index + len > 2 ^ height
             then Ret None
             else on_some (leaf_hashes read_piece file blocks blocks_per_piece [index ..< index + len] None) (\<lambda>(hashes, cache).
               let below = trailing_zeros 32 len
               in on_ret (if single_piece then Ret None
                          else on_ret (upper_layers (sf_layer file) pieces_at height) (\<lambda>t. Ret (Some t))) (\<lambda>pieces_tree.
                  on_some (leaf_uncles read_piece file blocks blocks_per_piece pieces_tree pieces_at height index
                      [below ..< Suc proof_layers] cache) (\<lambda>uncles.
                    Ret (Some \<lparr>hr_hashes = hashes, hr_uncles = uncles\<rparr>)))))"

section \<open>The reply to a hash request\<close>

text \<open>
  What the serving loop sends for a hash request. \<open>read_piece\<close> is its closure over the pieces
  it has and the disk.
\<close>

definition hash_answer :: "hash_source option \<Rightarrow> (nat \<Rightarrow> bytes option) \<Rightarrow> hash_request \<Rightarrow> hash_range_t option outcome" where
  "hash_answer source read_piece r =
     (case source of
        None \<Rightarrow> Ret None
      | Some s \<Rightarrow>
          on_ret (answer s (hr_root r) (unat (hr_base_layer r)) (unat (hr_index r)) (unat (hr_length r)) (unat (hr_proof_layers r)))
            (\<lambda>a. case a of
                Some rng \<Rightarrow> Ret (Some rng)
              | None \<Rightarrow>
                  if hr_base_layer r = 0
                  then answer_leaves s (hr_root r) (unat (hr_index r)) (unat (hr_length r)) (unat (hr_proof_layers r)) read_piece
                  else Ret None))"

definition hash_reply :: "hash_source option \<Rightarrow> (nat \<Rightarrow> bytes option) \<Rightarrow> hash_request \<Rightarrow> message outcome" where
  "hash_reply source read_piece r =
     on_ret (hash_answer source read_piece r) (\<lambda>a. Ret
       (case a of
          Some rng \<Rightarrow> Hashes r (hr_hashes rng @ hr_uncles rng)
        | None \<Rightarrow> HashReject r))"

section \<open>Fetching the layers\<close>

definition MAX_PIECES_PER_FILE :: nat where
  "MAX_PIECES_PER_FILE = 2 ^ 22"

datatype fetch_failure = FileTooLarge nat | FetchStopped | SendingFailed | WouldNotSend | WaitingFailed | BadHashes

text \<open>
  The connection to a peer: the requests sent so far, and what the peer has sent that is not
  read yet. A peer is a function from the requests it has been sent to what it sends after the
  last of them, so it may do anything; an error of the stream is \<open>Inl\<close>, and there is one when
  nothing more comes.
\<close>

record fetching =
  fe_sent :: "hash_request list"
  fe_unread :: "(wire_error + message) list"

type_synonym peer_of = "hash_request list \<Rightarrow> (wire_error + message) list"

fun await_hashes :: "hash_request \<Rightarrow> (wire_error + message) list \<Rightarrow> fetch_failure + bytes list \<times> (wire_error + message) list" where
  "await_hashes request [] = Inl WaitingFailed"
| "await_hashes request (Inl e # ms) = Inl WaitingFailed"
| "await_hashes request (Inr (Hashes answered hashes) # ms) =
     (if answered = request then Inr (hashes, ms) else await_hashes request ms)"
| "await_hashes request (Inr (HashReject rejected) # ms) =
     (if rejected = request then Inl WouldNotSend else await_hashes request ms)"
| "await_hashes request (Inr _ # ms) = await_hashes request ms"

text \<open>
  The requests of one file, from the index given on. \<open>stopped n\<close> and \<open>refused n\<close> say whether the
  stop flag is seen and whether writing fails when \<open>n\<close> requests have been sent.
\<close>

definition layer_request :: "hash \<Rightarrow> nat \<Rightarrow> nat \<Rightarrow> nat \<Rightarrow> nat \<Rightarrow> hash_request" where
  "layer_request root at_layer index per_request proof_layers =
     \<lparr>hr_root = root, hr_base_layer = of_nat at_layer, hr_index = of_nat index,
      hr_length = of_nat per_request, hr_proof_layers = of_nat proof_layers\<rparr>"

fun fetch_ranges ::
  "peer_of \<Rightarrow> (nat \<Rightarrow> bool) \<Rightarrow> (nat \<Rightarrow> bool) \<Rightarrow> hash \<Rightarrow> nat \<Rightarrow> nat \<Rightarrow> nat \<Rightarrow> nat \<Rightarrow> nat list \<Rightarrow> hash list \<Rightarrow> fetching \<Rightarrow>
   ((fetch_failure + hash list) \<times> fetching) outcome" where
  "fetch_ranges peer stopped refused root at_layer height per_request proof_layers [] layer f = Ret (Inr layer, f)"
| "fetch_ranges peer stopped refused root at_layer height per_request proof_layers (index # indices) layer f =
     (let n = length (fe_sent f);
          request = layer_request root at_layer index per_request proof_layers
      in if stopped n then Ret (Inl FetchStopped, f)
         else if refused n then Ret (Inl SendingFailed, f)
         else
           let sent = fe_sent f @ [request]; unread = fe_unread f @ peer sent
           in case await_hashes request unread of
                Inl e \<Rightarrow> Ret (Inl e, f\<lparr>fe_sent := sent, fe_unread := []\<rparr>)
              | Inr (hashes, unread) \<Rightarrow>
                  let f = f\<lparr>fe_sent := sent, fe_unread := unread\<rparr>
                  in if length hashes < per_request then Ret (Inl BadHashes, f)
                     else on_ret (verify_range root at_layer height index (take per_request hashes) (drop per_request hashes) proof_layers)
                       (\<lambda>ok. if \<not> ok then Ret (Inl BadHashes, f)
                         else fetch_ranges peer stopped refused root at_layer height per_request proof_layers indices
                           (layer @ take per_request hashes) f))"

definition step_by :: "nat \<Rightarrow> nat \<Rightarrow> nat list" where
  "step_by m k = map (\<lambda>i. i * k) [0..<div_ceil m k]"

definition fetch_file ::
  "peer_of \<Rightarrow> (nat \<Rightarrow> bool) \<Rightarrow> (nat \<Rightarrow> bool) \<Rightarrow> nat \<Rightarrow> hash \<Rightarrow> nat \<Rightarrow> fetching \<Rightarrow> ((fetch_failure + hash list) \<times> fetching) outcome" where
  "fetch_file peer stopped refused piece_length root len f =
     (if piece_length = 0 then Panic
      else
        let at_layer = piece_layer piece_length; pieces = div_ceil len piece_length; height = file_height len piece_length
        in if pieces > MAX_PIECES_PER_FILE then Ret (Inl (FileTooLarge pieces), f)
           else
             let padded = 2 ^ (height - at_layer); per_request = min padded MAX_HASHES_PER_REQUEST
             in on_ret (usize_sub (height - at_layer) 1) (\<lambda>proof_layers.
                on_ret (fetch_ranges peer stopped refused root at_layer height per_request proof_layers
                    (step_by padded per_request) [] f) (\<lambda>(r, f).
                  Ret (case r of Inl e \<Rightarrow> Inl e | Inr layer \<Rightarrow> Inr (take pieces layer), f))))"

fun fetch_files ::
  "peer_of \<Rightarrow> (nat \<Rightarrow> bool) \<Rightarrow> (nat \<Rightarrow> bool) \<Rightarrow> nat \<Rightarrow> (hash \<times> nat) list \<Rightarrow> layers \<Rightarrow> fetching \<Rightarrow>
   (layers \<times> fetch_failure option) outcome" where
  "fetch_files peer stopped refused piece_length [] got f = Ret (got, None)"
| "fetch_files peer stopped refused piece_length ((root, len) # missing) got f =
     on_ret (fetch_file peer stopped refused piece_length root len f) (\<lambda>(r, f).
       case r of
         Inl e \<Rightarrow> Ret (got, Some e)
       | Inr layer \<Rightarrow> fetch_files peer stopped refused piece_length missing (got(root \<mapsto> layer)) f)"

text \<open>\<open>fetch_from_peer\<close> once it is connected; a failure to connect gives nothing.\<close>

definition fetch_from_peer ::
  "peer_of \<Rightarrow> (nat \<Rightarrow> bool) \<Rightarrow> (nat \<Rightarrow> bool) \<Rightarrow> nat \<Rightarrow> (hash \<times> nat) list \<Rightarrow> (layers \<times> fetch_failure option) outcome" where
  "fetch_from_peer peer stopped refused piece_length missing =
     fetch_files peer stopped refused piece_length missing Map.empty \<lparr>fe_sent = [], fe_unread = peer []\<rparr>"

section \<open>The tree of a file\<close>

lemma on_some_simps [simp]:
  "on_some (Ret None) k = Ret None" "on_some (Ret (Some a)) k = k a" "on_some Panic k = Panic"
  by (simp_all add: on_some_def)

lemma BLOCK_not_0 [simp]: "BLOCK \<noteq> 0"
  by (simp add: BLOCK_def)

lemma slice_chunks_nth: "0 < n \<Longrightarrow> i < length (slice_chunks n xs) \<Longrightarrow> slice_chunks n xs ! i = take n (drop (i * n) xs)"
proof -
  assume n: "0 < n" and i: "i < length (slice_chunks n xs)"
  have eq: "drop i (slice_chunks n xs) = slice_chunks n (drop (i * n) xs)" using n by (rule drop_slice_chunks)
  moreover have "drop i (slice_chunks n xs) \<noteq> []" using i by simp
  ultimately have "drop (i * n) xs \<noteq> []" by auto
  with eq show ?thesis using n i by (metis Cons_nth_drop_Suc list.inject slice_chunks_step)
qed

lemma map_nth_upt: "i + n \<le> length xs \<Longrightarrow> map ((!) xs) [i..<i + n] = take n (drop i xs)"
  by (rule nth_equalityI) auto

definition height_of :: "bytes \<Rightarrow> nat" where
  "height_of d = trailing_zeros 64 (next_power_of_two (length (block_hashes d)))"

definition leaves_of :: "bytes \<Rightarrow> hash list" where
  "leaves_of d = resize (2 ^ height_of d) zero_hash (block_hashes d)"

lemma height_of_power: "next_power_of_two (length (block_hashes d)) = 2 ^ height_of d"
  using next_power_of_two_power [of "length (block_hashes d)"] by (auto simp: height_of_def)

lemma length_leaves_of [simp]: "length (leaves_of d) = 2 ^ height_of d"
  by (simp add: leaves_of_def)

lemma tree_leaves_of: "tree (height_of d) (leaves_of d) = bep52_root d"
  using bep52_root_power [OF height_of_power] by (simp add: leaves_of_def)

lemma blocks_le_height: "length (block_hashes d) \<le> 2 ^ height_of d"
  using next_power_of_two_ge [of "length (block_hashes d)"] by (simp add: height_of_power)

lemma leaves_of_nth: "i < 2 ^ height_of d \<Longrightarrow>
    leaves_of d ! i = (if i < length (block_hashes d) then block_hashes d ! i else zero_hash)"
  by (auto simp: leaves_of_def resize_ge blocks_le_height nth_append)

text \<open>The pieces of a file and its piece layer, with pieces of \<open>2 ^ a\<close> blocks.\<close>

abbreviation pieces_of :: "nat \<Rightarrow> bytes \<Rightarrow> bytes list" where
  "pieces_of a d \<equiv> slice_chunks (2 ^ a * BLOCK) d"

definition layer_of_file :: "nat \<Rightarrow> bytes \<Rightarrow> hash list" where
  "layer_of_file a d = (if length d \<le> 2 ^ a * BLOCK then [] else map (piece_root a) (pieces_of a d))"

lemma piece_layer_power [simp]: "piece_layer (2 ^ a * BLOCK) = a"
  by (simp add: piece_layer_def)

lemma large_file_tree:
  assumes "2 ^ a * BLOCK < length d"
  shows "file_height (length d) (2 ^ a * BLOCK) = height_of d" "a < height_of d"
    "length (pieces_of a d) \<le> 2 ^ (height_of d - a)"
    "padded_layer (layer_of_file a d) a (height_of d) = (pairs ^^ a) (leaves_of d)"
proof -
  obtain b where b: "next_power_of_two (length (pieces_of a d)) = 2 ^ b" using next_power_of_two_power by blast
  then have h: "height_of d = a + b" using large_file_width [OF assms b] height_of_power [of d] by simp
  show "file_height (length d) (2 ^ a * BLOCK) = height_of d"
    using b h by (simp add: file_height_def length_slice_chunks)
  have "2 ^ a < (2::nat) ^ height_of d" using large_file_blocks [OF assms] blocks_le_height by (rule less_le_trans)
  then show "a < height_of d" by simp
  have le: "length (pieces_of a d) \<le> 2 ^ b" using next_power_of_two_ge [of "length (pieces_of a d)"] b by simp
  then show "length (pieces_of a d) \<le> 2 ^ (height_of d - a)" by (simp add: h)
  show "padded_layer (layer_of_file a d) a (height_of d) = (pairs ^^ a) (leaves_of d)"
    using pieces_layer [OF le] assms by (simp add: padded_layer_def layer_of_file_def leaves_of_def h)
qed

text \<open>The layers of a file above a layer, and the range of a layer a request asks for.\<close>

abbreviation tree_layer :: "bytes \<Rightarrow> nat \<Rightarrow> hash list" where
  "tree_layer d k \<equiv> (pairs ^^ k) (leaves_of d)"

lemma length_tree_layer: "k \<le> height_of d \<Longrightarrow> length (tree_layer d k) = 2 ^ (height_of d - k)"
  using tree_from_layer(1) [of "leaves_of d" "height_of d" k] by simp

lemma tree_tree_layer: "k \<le> height_of d \<Longrightarrow> tree (height_of d - k) (tree_layer d k) = bep52_root d"
  using tree_from_layer(2) [of "leaves_of d" "height_of d" k] by (simp add: tree_leaves_of)

lemma padded_full: "length xs = 2 ^ (h - k) \<Longrightarrow> padded_layer xs k h = xs"
  by (simp add: padded_layer_def resize_def)

definition true_range :: "bytes \<Rightarrow> nat \<Rightarrow> nat \<Rightarrow> nat \<Rightarrow> nat \<Rightarrow> hash_range_t" where
  "true_range d base_layer index len proof_layers =
     \<lparr>hr_hashes = take len (drop index (tree_layer d base_layer)),
      hr_uncles = proof_uncles (tree_layer d base_layer) index
        (proof_range (trailing_zeros 32 len) proof_layers base_layer (height_of d))\<rparr>"

lemma true_range_verifies:
  assumes "range_allowed base_layer (height_of d) index len" "height_of d - base_layer \<le> Suc proof_layers"
  shows "verify_range (bep52_root d) base_layer (height_of d) index (hr_hashes (true_range d base_layer index len proof_layers))
    (hr_uncles (true_range d base_layer index len proof_layers)) proof_layers = Ret True"
proof -
  have "base_layer \<le> height_of d" using assms(1) by (simp add: range_allowed_def)
  with range_proof [OF assms(1) length_tree_layer assms(2)] show ?thesis by (simp add: true_range_def tree_tree_layer)
qed

section \<open>Answering\<close>

text \<open>A source that has a file, and a way to read its pieces.\<close>

definition serves :: "nat \<Rightarrow> (nat \<Rightarrow> bytes option) \<Rightarrow> hash_source \<Rightarrow> bytes \<Rightarrow> bool" where
  "serves a read_piece s d \<longleftrightarrow>
     hs_piece_length s = 2 ^ a * BLOCK \<and> d \<noteq> [] \<and>
     (\<exists>first. map_of (hs_files s) (bep52_root d) =
         Some \<lparr>sf_length = length d, sf_first_piece = first, sf_layer = layer_of_file a d\<rparr> \<and>
       first + length (pieces_of a d) < 2 ^ 32 \<and>
       (\<forall>i<length (pieces_of a d). read_piece (first + i) = Some (pieces_of a d ! i)))"

lemma layer_of_file_Nil [simp]: "layer_of_file a d = [] \<longleftrightarrow> length d \<le> 2 ^ a * BLOCK"
  using slice_chunks_step [of "2 ^ a * BLOCK" d] by (cases "d = []") (auto simp: layer_of_file_def)

lemma answer_true:
  assumes "serves a read_piece s d"
  shows "answer s (bep52_root d) base_layer index len proof_layers = Ret
    (if 2 ^ a * BLOCK < length d \<and> a \<le> base_layer \<and> len \<le> MAX_HASHES_PER_REQUEST \<and>
        range_allowed base_layer (height_of d) index len
     then Some (true_range d base_layer index len proof_layers) else None)"
proof (cases "2 ^ a * BLOCK < length d \<and> a \<le> base_layer \<and> len \<le> MAX_HASHES_PER_REQUEST \<and> base_layer < height_of d")
  case False
  then show ?thesis using assms large_file_tree(1) [of a d]
    by (auto simp: serves_def answer_def Let_def range_allowed_def)
next
  case True
  let ?h = "height_of d" let ?layer = "layer_of_file a d"
  note t = large_file_tree [OF conjunct1 [OF True]]
  have len: "length ?layer \<le> 2 ^ (?h - a)" using t(3) True by (simp add: layer_of_file_def)
  have full: "length (tree_layer d base_layer) = 2 ^ (?h - base_layer)" using True by (simp add: length_tree_layer)
  have refuse: "hash_range xs base_layer ?h index len proof_layers = Ret None" if "\<not> range_allowed base_layer ?h index len" for xs
    using that by (simp add: hash_range_def)
  have "base_layer - a < Suc (?h - a)" "base_layer - a + a = base_layer" using True by auto
  then have "map (\<lambda>k. (pairs ^^ k) (tree_layer d a)) [0..<Suc (?h - a)] ! (base_layer - a) = tree_layer d base_layer"
    by (simp add: funpow_add [THEN fun_cong, unfolded comp_apply, symmetric] del: upt_Suc)
  then have "answer s (bep52_root d) base_layer index len proof_layers =
      hash_range (if base_layer = a then ?layer else tree_layer d base_layer) base_layer ?h index len proof_layers"
    using assms True t(1,2,4) upper_layers_padded [of ?layer a ?h]
    by (auto simp: serves_def answer_def Let_def simp del: upt_Suc)
  then show ?thesis
    using True t(4) len hash_range_eq [of base_layer ?h index len] full refuse padded_full [OF full]
    by (auto simp: true_range_def)
qed

text \<open>The kept piece, if any, is one of the file's.\<close>

definition cache_ok :: "nat \<Rightarrow> bytes \<Rightarrow> piece_cache \<Rightarrow> bool" where
  "cache_ok a d c \<longleftrightarrow>
     (case c of None \<Rightarrow> True | Some (p, hs) \<Rightarrow> p < length (pieces_of a d) \<and> hs = block_hashes (pieces_of a d ! p))"

lemma piece_block:
  assumes "i < length (block_hashes d)"
  shows "i div 2 ^ a < length (pieces_of a d)" "i mod 2 ^ a < length (block_hashes (pieces_of a d ! (i div 2 ^ a)))"
    "block_hashes (pieces_of a d ! (i div 2 ^ a)) ! (i mod 2 ^ a) = block_hashes d ! i"
proof -
  let ?g = "slice_chunks (2 ^ a) (block_hashes d)"
  have len: "length ?g = length (pieces_of a d)" by (simp add: block_groups)
  have "i < 2 ^ a * length ?g"
    using assms div_ceil_ge [of "2 ^ a" "length (block_hashes d)"] by (simp add: length_slice_chunks)
  then have k: "i div 2 ^ a < length ?g" by (simp add: less_mult_imp_div_less mult.commute)
  with len show "i div 2 ^ a < length (pieces_of a d)" by simp
  have "block_hashes (pieces_of a d ! (i div 2 ^ a)) = ?g ! (i div 2 ^ a)" using k by (simp add: block_groups)
  also have "\<dots> = take (2 ^ a) (drop (i div 2 ^ a * 2 ^ a) (block_hashes d))" using k by (simp add: slice_chunks_nth)
  finally have eq: "block_hashes (pieces_of a d ! (i div 2 ^ a)) = take (2 ^ a) (drop (i div 2 ^ a * 2 ^ a) (block_hashes d))" .
  have sum: "i div 2 ^ a * 2 ^ a + i mod 2 ^ a = i" by (rule div_mult_mod_eq)
  show "i mod 2 ^ a < length (block_hashes (pieces_of a d ! (i div 2 ^ a)))"
    using assms sum by (simp add: eq less_diff_conv add.commute)
  show "block_hashes (pieces_of a d ! (i div 2 ^ a)) ! (i mod 2 ^ a) = block_hashes d ! i"
    using assms sum by (simp add: eq)
qed

text \<open>The file as a source has it, with its pieces where \<open>read_piece\<close> finds them.\<close>

definition has_pieces :: "nat \<Rightarrow> (nat \<Rightarrow> bytes option) \<Rightarrow> bytes \<Rightarrow> source_file \<Rightarrow> bool" where
  "has_pieces a read_piece d file \<longleftrightarrow>
     sf_first_piece file + length (pieces_of a d) < 2 ^ 32 \<and>
     (\<forall>i<length (pieces_of a d). read_piece (sf_first_piece file + i) = Some (pieces_of a d ! i))"

lemma load_piece_true:
  assumes "has_pieces a read_piece d file" "cache_ok a d c" "p < length (pieces_of a d)"
  shows "load_piece read_piece file p c = Ret (Some (p, block_hashes (pieces_of a d ! p)))"
proof -
  have "as_u32 p = p" "sf_first_piece file + p < 2 ^ 32" using assms(1,3) by (auto simp: has_pieces_def intro!: as_u32_id)
  with assms show ?thesis
    by (auto simp: load_piece_def has_pieces_def cache_ok_def u32_add_def split: option.splits prod.splits)
qed

lemma leaf_hash_true:
  assumes "has_pieces a read_piece d file" "cache_ok a d c" "i < 2 ^ height_of d"
  obtains c' where "leaf_hash read_piece file (length (block_hashes d)) (2 ^ a) i c = Ret (Some (leaves_of d ! i, c'))"
    "cache_ok a d c'"
proof (cases "i < length (block_hashes d)")
  case False
  with assms that show ?thesis by (simp add: leaf_hash_def leaves_of_nth)
next
  case True
  note b = piece_block [OF True, of a]
  with True assms(3) show ?thesis
    by (intro that [of "Some (i div 2 ^ a, block_hashes (pieces_of a d ! (i div 2 ^ a)))"])
      (simp_all add: leaf_hash_def load_piece_true [OF assms(1,2) b(1)] leaves_of_nth cache_ok_def)
qed

lemma leaf_hashes_true:
  assumes "has_pieces a read_piece d file" "cache_ok a d c" "\<forall>i\<in>set is. i < 2 ^ height_of d"
  shows "\<exists>c'. leaf_hashes read_piece file (length (block_hashes d)) (2 ^ a) is c =
      Ret (Some (map ((!) (leaves_of d)) is, c')) \<and> cache_ok a d c'"
  using assms(2,3)
proof (induction "is" arbitrary: c)
  case (Cons i "is")
  obtain c1 where 1: "leaf_hash read_piece file (length (block_hashes d)) (2 ^ a) i c = Ret (Some (leaves_of d ! i, c1))"
    "cache_ok a d c1" using leaf_hash_true [OF assms(1) Cons.prems(1), of i] Cons.prems(2) by auto
  with Cons.IH [OF 1(2)] Cons.prems(2) show ?case by auto
qed simp

lemma sibling_less: "0 < k \<Longrightarrow> x < 2 ^ k \<Longrightarrow> x XOR 1 < (2::nat) ^ k"
  by (cases k) (auto simp: xor_Suc_0_eq elim!: oddE evenE)

lemma leaf_uncle_true:
  assumes r: "has_pieces a read_piece d file" "cache_ok a d c"
    and j: "j < height_of d" "index < 2 ^ height_of d" "height_of d \<le> 32"
    and t: "t = (if length d \<le> 2 ^ a * BLOCK then None else Some (map (\<lambda>k. tree_layer d (a + k)) [0..<Suc (height_of d - a)]))"
  shows "\<exists>c'. leaf_uncle read_piece file (length (block_hashes d)) (2 ^ a) t a index j c =
      Ret (Some (tree_layer d j ! (drop_bit j index XOR 1), c')) \<and> cache_ok a d c'"
proof -
  let ?h = "height_of d" let ?s = "drop_bit j index XOR 1"
  have "(2::nat) ^ ?h = 2 ^ (?h - j) * 2 ^ j" using j(1) by (simp flip: power_add)
  with j(2) have "drop_bit j index < 2 ^ (?h - j)" by (simp add: drop_bit_eq_div less_mult_imp_div_less)
  then have s: "?s < 2 ^ (?h - j)" using j(1) sibling_less by simp
  then have "Suc ?s * 2 ^ j \<le> 2 ^ (?h - j) * 2 ^ j" by (intro mult_le_mono1) simp
  then have fit: "Suc ?s * 2 ^ j \<le> length (leaves_of d)" using j(1) by (simp flip: power_add)
  have shift: "u32_shr index j = Ret (drop_bit j index)" using j(1,3) by (simp add: u32_shr_def)
  define q where "q = push_bit j ?s"
  have p: "q = ?s * 2 ^ j" unfolding q_def by (rule push_bit_eq_mult)
  obtain c' where c': "leaf_hashes read_piece file (length (block_hashes d)) (2 ^ a) [q ..< q + 2 ^ j] c
      = Ret (Some (map ((!) (leaves_of d)) [q ..< q + 2 ^ j], c'))" "cache_ok a d c'"
    using leaf_hashes_true [OF r, of "[q ..< q + 2 ^ j]"] fit unfolding p by auto
  have "map ((!) (leaves_of d)) [q ..< q + 2 ^ j] = take (2 ^ j) (drop (?s * 2 ^ j) (leaves_of d))"
    unfolding p using fit by (intro map_nth_upt) simp
  moreover from fit have "length (take (2 ^ j) (drop (?s * 2 ^ j) (leaves_of d))) = 2 ^ j" by simp
  ultimately have "merkle_root (map ((!) (leaves_of d)) [q ..< q + 2 ^ j]) (2 ^ j) zero_hash = Ret (tree_layer d j ! ?s)"
    using tree_slice [OF fit] by (simp add: merkle_root_tree resize_def)
  then have leaves: "on_some (leaf_hashes read_piece file (length (block_hashes d)) (2 ^ a) [q ..< q + 2 ^ j] c)
        (\<lambda>(leaves, cache). on_ret (merkle_root leaves (length leaves) zero_hash) (\<lambda>h. Ret (Some (h, cache))))
      = Ret (Some (tree_layer d j ! ?s, c'))"
    by (simp add: c'(1))
  show ?thesis
  proof (cases "length d \<le> 2 ^ a * BLOCK \<or> j < a")
    case True
    then show ?thesis unfolding leaf_uncle_def shift on_ret_simps Let_def q_def [symmetric] leaves t using c'(2) by auto
  next
    case False
    then have "j - a < Suc (?h - a)" "a + (j - a) = j" using j(1) by auto
    then have "map (\<lambda>k. tree_layer d (a + k)) [0..<Suc (?h - a)] ! (j - a) = tree_layer d j" by (simp del: upt_Suc)
    then show ?thesis using False s j(1) r(2) length_tree_layer [of j d] by (auto simp: leaf_uncle_def shift Let_def t simp del: upt_Suc)
  qed
qed

lemma leaf_uncles_true:
  assumes "has_pieces a read_piece d file" "cache_ok a d c" "index < 2 ^ height_of d" "height_of d \<le> 32"
    and "t = (if length d \<le> 2 ^ a * BLOCK then None else Some (map (\<lambda>k. tree_layer d (a + k)) [0..<Suc (height_of d - a)]))"
  shows "leaf_uncles read_piece file (length (block_hashes d)) (2 ^ a) t a (height_of d) index js c =
    Ret (Some (proof_uncles (leaves_of d) index (takeWhile (\<lambda>j. j < height_of d) js)))"
  using assms(2)
proof (induction js arbitrary: c)
  case (Cons j js)
  show ?case
  proof (cases "j < height_of d")
    case True
    then obtain c' where c': "leaf_uncle read_piece file (length (block_hashes d)) (2 ^ a) t a index j c =
        Ret (Some (tree_layer d j ! (drop_bit j index XOR 1), c'))" "cache_ok a d c'"
      using leaf_uncle_true [OF assms(1) Cons.prems True assms(3,4,5)] by blast
    from Cons.IH [OF c'(2)] True show ?thesis by (simp add: c'(1) proof_uncles_def)
  qed (simp add: proof_uncles_def)
qed (simp add: proof_uncles_def)

lemma answer_leaves_true:
  assumes s: "serves a read_piece s d" and h: "height_of d \<le> 32"
  shows "answer_leaves s (bep52_root d) index len proof_layers read_piece = Ret
    (if len \<le> MAX_HASHES_PER_REQUEST \<and> range_allowed 0 (height_of d) index len
     then Some (true_range d 0 index len proof_layers) else None)"
proof -
  let ?h = "height_of d"
  obtain sf where sf: "map_of (hs_files s) (bep52_root d) = Some sf" "sf_length sf = length d"
    "sf_layer sf = layer_of_file a d" "has_pieces a read_piece d sf"
    using s by (auto simp: serves_def has_pieces_def)
  have s': "hs_piece_length s = 2 ^ a * BLOCK" using s by (simp add: serves_def)
  define t where "t = (if length d \<le> 2 ^ a * BLOCK then None else Some (map (\<lambda>k. tree_layer d (a + k)) [0..<Suc (?h - a)]))"
  have height: "(if layer_of_file a d = [] then trailing_zeros 64 (next_power_of_two (div_ceil (length d) BLOCK))
      else file_height (length d) (2 ^ a * BLOCK)) = ?h"
    using large_file_tree(1) [of a d] by (simp add: height_of_def block_count)
  have tree: "(if layer_of_file a d = [] then Ret None
      else on_ret (upper_layers (layer_of_file a d) a ?h) (\<lambda>t. Ret (Some t))) = Ret t"
    using large_file_tree(4) [of a d]
    by (auto simp: t_def upper_layers_padded funpow_add [THEN fun_cong, unfolded comp_apply, symmetric] add.commute simp del: upt_Suc)
  have allowed: "(?h = 0 \<or> len < 2 \<or> \<not> is_power_of_two len \<or> len > MAX_HASHES_PER_REQUEST \<or> index AND (len - 1) \<noteq> 0 \<or>
      index + len > 2 ^ ?h) \<longleftrightarrow> \<not> (len \<le> MAX_HASHES_PER_REQUEST \<and> range_allowed 0 ?h index len)"
    by (auto simp: range_allowed_def)
  have "on_some (leaf_hashes read_piece sf (length (block_hashes d)) (2 ^ a) [index ..< index + len] None) (\<lambda>(hashes, cache).
      on_some (leaf_uncles read_piece sf (length (block_hashes d)) (2 ^ a) t a ?h index
          [trailing_zeros 32 len ..< Suc proof_layers] cache) (\<lambda>uncles.
        Ret (Some \<lparr>hr_hashes = hashes, hr_uncles = uncles\<rparr>))) = Ret (Some (true_range d 0 index len proof_layers))"
    if ok: "range_allowed 0 ?h index len"
  proof -
    have le: "index + len \<le> 2 ^ ?h" "index < 2 ^ ?h" using ok by (auto simp: range_allowed_def)
    obtain c where c: "leaf_hashes read_piece sf (length (block_hashes d)) (2 ^ a) [index ..< index + len] None =
        Ret (Some (map ((!) (leaves_of d)) [index ..< index + len], c))" "cache_ok a d c"
      using leaf_hashes_true [OF sf(4), of None "[index ..< index + len]"] le by (auto simp: cache_ok_def)
    show ?thesis using leaf_uncles_true [OF sf(4) c(2) le(2) h t_def] le(1)
      by (simp add: c(1) map_nth_upt true_range_def proof_range_def)
  qed
  then show ?thesis
    by (simp only: answer_leaves_def sf(1,2,3) s' option.case Let_def height allowed piece_layer_power tree on_ret_simps block_count)
      (simp add: tree)
qed

section \<open>The source of a torrent\<close>

text \<open>
  The metadata of a file with the given contents: its length, and the root and the layer
  \<open>hash_file\<close> computes.
\<close>

definition describes :: "nat \<Rightarrow> layers \<Rightarrow> v2_file \<Rightarrow> bytes \<Rightarrow> bool" where
  "describes piece_length layers f d \<longleftrightarrow>
     vf_length f = length d \<and>
     (\<exists>h. hash_file d (length d) piece_length = Some (Ret (Inr h)) \<and> vf_root f = fh_root h \<and>
       (piece_length < length d \<longrightarrow> layers (the (fh_root h)) = Some (fh_layer h)))"

lemma describes_iff:
  "describes (2 ^ a * BLOCK) layers f d \<longleftrightarrow>
     vf_length f = length d \<and> vf_root f = (if d = [] then None else Some (bep52_root d)) \<and>
     (2 ^ a * BLOCK < length d \<longrightarrow> layers (bep52_root d) = Some (layer_of_file a d))"
proof (cases "d = []")
  case True
  then show ?thesis by (auto simp: describes_def hash_file_def)
next
  case False
  then show ?thesis using hash_file_result [of d "[]" a] by (auto simp: describes_def layer_of_file_def)
qed

text \<open>The pieces of a torrent, in the order of its files.\<close>

definition torrent_pieces :: "nat \<Rightarrow> bytes list \<Rightarrow> bytes list" where
  "torrent_pieces piece_length ds = concat (map (slice_chunks piece_length) ds)"

definition entry_ok :: "nat \<Rightarrow> bytes list \<Rightarrow> bytes list \<Rightarrow> hash \<times> source_file \<Rightarrow> bool" where
  "entry_ok a ds ps e \<longleftrightarrow>
     (\<exists>d\<in>set ds. d \<noteq> [] \<and> fst e = bep52_root d \<and> sf_length (snd e) = length d \<and> sf_layer (snd e) = layer_of_file a d \<and>
       sf_first_piece (snd e) + length (pieces_of a d) \<le> length ps \<and>
       (\<forall>i<length (pieces_of a d). ps ! (sf_first_piece (snd e) + i) = pieces_of a d ! i))"

lemma entry_okI:
  assumes "d \<in> set ds" "d \<noteq> []" "drop n ps = pieces_of a d @ rest"
  shows "entry_ok a ds ps (bep52_root d, \<lparr>sf_length = length d, sf_first_piece = n, sf_layer = layer_of_file a d\<rparr>)"
proof -
  have "length (drop n ps) = length (pieces_of a d) + length rest" by (simp add: assms(3))
  moreover have "0 < length (pieces_of a d)" using assms(2) by (simp add: slice_chunks_step)
  ultimately have le: "n + length (pieces_of a d) \<le> length ps" "n \<le> length ps" unfolding length_drop by linarith+
  have "ps ! (n + i) = pieces_of a d ! i" if "i < length (pieces_of a d)" for i
    using that le nth_drop [of n ps i] assms(3) by (simp add: nth_append)
  with le assms(1,2) show ?thesis by (auto simp: entry_ok_def)
qed

lemma source_files_true:
  assumes "list_all2 (describes (2 ^ a * BLOCK) layers) files ds" "set ds \<subseteq> set all_ds"
    "drop n ps = torrent_pieces (2 ^ a * BLOCK) ds" "n \<le> length ps" "length ps < 2 ^ 32" "list_all (entry_ok a all_ds ps) sources"
  shows "\<exists>srcs. source_files files layers (2 ^ a * BLOCK) n sources = Ret srcs \<and> list_all (entry_ok a all_ds ps) srcs \<and>
    fst ` set sources \<subseteq> fst ` set srcs \<and> (\<forall>d\<in>set ds. d \<noteq> [] \<longrightarrow> bep52_root d \<in> fst ` set srcs)"
  using assms
proof (induction files ds arbitrary: n sources rule: list_all2_induct)
  case (Cons f fs d ds)
  note f = Cons.hyps(1) [unfolded describes_iff]
  show ?case
  proof (cases "d = []")
    case True
    then show ?thesis using Cons.IH [of n sources] Cons.prems f by (auto simp: torrent_pieces_def)
  next
    case False
    let ?n = "n + length (pieces_of a d)"
    let ?e = "\<lparr>sf_length = length d, sf_first_piece = n, sf_layer = layer_of_file a d\<rparr>"
    have split: "drop n ps = pieces_of a d @ torrent_pieces (2 ^ a * BLOCK) ds" using Cons.prems(2) by (simp add: torrent_pieces_def)
    have "length ps - n = length (pieces_of a d) + length (torrent_pieces (2 ^ a * BLOCK) ds)" using arg_cong [OF split, of length] by simp
    then have n: "?n \<le> length ps" using Cons.prems(3) by linarith
    then have u: "u32_add n (as_u32 (div_ceil (length d) (2 ^ a * BLOCK))) = Ret ?n"
      using Cons.prems(4) as_u32_id [of "length (pieces_of a d)"] by (simp add: u32_add_def length_slice_chunks)
    have layer: "(if 2 ^ a * BLOCK < length d then layers (bep52_root d) else Some []) = Some (layer_of_file a d)"
      using f by (auto simp: layer_of_file_def)
    have "list_all (entry_ok a all_ds ps) (al_insert (bep52_root d) ?e sources)"
      using Cons.prems(1,5) entry_okI [OF _ False split, of all_ds] by (auto simp: al_insert_def al_remove_def list_all_iff)
    moreover have "drop ?n ps = torrent_pieces (2 ^ a * BLOCK) ds" using drop_drop [of "length (pieces_of a d)" n ps] split by (simp add: add.commute)
    ultimately obtain srcs where "source_files fs layers (2 ^ a * BLOCK) ?n (al_insert (bep52_root d) ?e sources) = Ret srcs"
      "list_all (entry_ok a all_ds ps) srcs"
      "fst ` set (al_insert (bep52_root d) ?e sources) \<subseteq> fst ` set srcs" "\<forall>d\<in>set ds. d \<noteq> [] \<longrightarrow> bep52_root d \<in> fst ` set srcs"
      using Cons.IH [of ?n "al_insert (bep52_root d) ?e sources"] Cons.prems n by auto
    moreover have "source_files (f # fs) layers (2 ^ a * BLOCK) n sources =
        source_files fs layers (2 ^ a * BLOCK) ?n (al_insert (bep52_root d) ?e sources)"
      using f False u layer by (simp add: Let_def)
    moreover have "insert (bep52_root d) (fst ` set sources) \<subseteq> fst ` set (al_insert (bep52_root d) ?e sources)"
      by (auto simp: al_insert_def al_remove_def)
    ultimately show ?thesis by auto
  qed
qed auto

text \<open>The source of a torrent has every file of it, and nothing else.\<close>

lemma source_serves:
  assumes "list_all2 (describes (2 ^ a * BLOCK) layers) files ds" "length (torrent_pieces (2 ^ a * BLOCK) ds) < 2 ^ 32"
    and inj: "inj_on bep52_root {d \<in> set ds. d \<noteq> []}"
    and read: "\<forall>i<length (torrent_pieces (2 ^ a * BLOCK) ds). read_piece i = Some (torrent_pieces (2 ^ a * BLOCK) ds ! i)"
    and d: "d \<in> set ds" "d \<noteq> []"
  obtains s where "hash_source_new files layers (2 ^ a * BLOCK) = Ret (Some s)" "serves a read_piece s d"
    "\<And>r. r \<notin> bep52_root ` {d \<in> set ds. d \<noteq> []} \<Longrightarrow> map_of (hs_files s) r = None"
proof -
  let ?ps = "torrent_pieces (2 ^ a * BLOCK) ds"
  obtain srcs where srcs: "source_files files layers (2 ^ a * BLOCK) 0 [] = Ret srcs" "list_all (entry_ok a ds ?ps) srcs"
    "\<forall>d\<in>set ds. d \<noteq> [] \<longrightarrow> bep52_root d \<in> fst ` set srcs"
    using source_files_true [OF assms(1) subset_refl, of 0 ?ps "[]"] assms(2) by auto
  let ?s = "\<lparr>hs_piece_length = 2 ^ a * BLOCK, hs_files = srcs\<rparr>"
  have in_srcs: "bep52_root d \<in> fst ` set srcs" using srcs(3) d by blast
  then obtain e where e: "map_of srcs (bep52_root d) = Some e" by (metis map_of_eq_None_iff option.exhaust)
  then have "entry_ok a ds ?ps (bep52_root d, e)" using srcs(2) by (auto simp: list_all_iff dest: map_of_SomeD)
  then obtain d' where d': "d' \<in> set ds" "d' \<noteq> []" "bep52_root d = bep52_root d'" "sf_length e = length d'"
    "sf_layer e = layer_of_file a d'" "sf_first_piece e + length (pieces_of a d') \<le> length ?ps"
    "\<forall>i<length (pieces_of a d'). ?ps ! (sf_first_piece e + i) = pieces_of a d' ! i" by (auto simp: entry_ok_def)
  then have "d' = d" using inj d by (auto dest: inj_onD)
  then have "serves a read_piece ?s d"
    using d'(4-7) e d(2) assms(2) read by (auto simp: serves_def intro!: exI [of _ "sf_first_piece e"])
  moreover have "map_of srcs r = None" if "r \<notin> bep52_root ` {d \<in> set ds. d \<noteq> []}" for r
    using that srcs(2) by (fastforce simp: map_of_eq_None_iff list_all_iff entry_ok_def)
  moreover have "srcs \<noteq> []" using in_srcs by auto
  ultimately show thesis using srcs(1) by (intro that [of ?s]) (simp_all add: hash_source_new_def)
qed

lemma hash_reply_true:
  assumes "serves a read_piece s d" "height_of d \<le> 32" "hr_root r = bep52_root d"
  shows "hash_reply (Some s) read_piece r = Ret
    (let b = unat (hr_base_layer r); i = unat (hr_index r); l = unat (hr_length r); p = unat (hr_proof_layers r)
     in if (b = 0 \<or> a \<le> b \<and> 2 ^ a * BLOCK < length d) \<and> l \<le> MAX_HASHES_PER_REQUEST \<and> range_allowed b (height_of d) i l
        then Hashes r (hr_hashes (true_range d b i l p) @ hr_uncles (true_range d b i l p)) else HashReject r)"
proof -
  have "hr_base_layer r = 0 \<longleftrightarrow> unat (hr_base_layer r) = 0" by (simp add: unat_eq_0)
  then show ?thesis
    using assms(3) by (auto simp: hash_reply_def hash_answer_def answer_true [OF assms(1)] answer_leaves_true [OF assms(1,2)] Let_def)
qed

lemma height_of_le_32: "length d \<le> 2 ^ 32 * BLOCK \<Longrightarrow> height_of d \<le> 32"
proof (rule ccontr)
  let ?n = "length (block_hashes d)"
  assume d: "length d \<le> 2 ^ 32 * BLOCK" and h: "\<not> height_of d \<le> 32"
  from d have le: "?n \<le> 2 ^ 32" unfolding block_count by (intro div_ceil_le) auto
  from h have ge: "(2::nat) ^ 33 \<le> next_power_of_two ?n" unfolding height_of_power by (intro power_increasing) auto
  show False
  proof (cases "?n \<le> 1")
    case True
    then show ?thesis using ge by (simp add: next_power_of_two.simps [of ?n])
  next
    case False
    then show ?thesis using next_power_of_two_half [of ?n] le ge by simp
  qed
qed


text \<open>A file of two pieces, its metadata and a way to read it.\<close>

definition sample_data :: bytes where
  "sample_data = replicate 16385 7"

definition sample_meta :: v2_file where
  "sample_meta = \<lparr>vf_path = [[97]], vf_length = 16385, vf_root = Some (bep52_root sample_data)\<rparr>"

definition sample_layers :: layers where
  "sample_layers = [bep52_root sample_data \<mapsto> layer_of_file 0 sample_data]"

definition sample_read :: "nat \<Rightarrow> bytes option" where
  "sample_read i = (if i < 2 then Some (slice_chunks 16384 sample_data ! i) else None)"

lemma sample_file:
  shows "length sample_data = 16385" "sample_data \<noteq> []" "height_of sample_data = 1" "valid_piece_length (int 16384)"
    "list_all2 (describes 16384 sample_layers) [sample_meta] [sample_data]"
    "length (torrent_pieces 16384 [sample_data]) < 2 ^ 32"
    "\<forall>i<length (torrent_pieces 16384 [sample_data]). sample_read i = Some (torrent_pieces 16384 [sample_data] ! i)"
    "inj_on bep52_root {d \<in> set [sample_data]. d \<noteq> []}"
proof -
  show len: "length sample_data = 16385" by (simp add: sample_data_def)
  then show d: "sample_data \<noteq> []" by auto
  show "valid_piece_length (int 16384)" using is_power_of_two_power [of 14] by (simp add: valid_piece_length_def BLOCK_def)
  show "list_all2 (describes 16384 sample_layers) [sample_meta] [sample_data]"
    using describes_iff [of 0 sample_layers sample_meta sample_data] by (simp add: len d BLOCK_def sample_meta_def sample_layers_def)
  have pieces: "length (torrent_pieces 16384 [sample_data]) = 2"
    by (simp add: torrent_pieces_def length_slice_chunks len div_ceil_def)
  then show "length (torrent_pieces 16384 [sample_data]) < 2 ^ 32" by simp
  show "\<forall>i<length (torrent_pieces 16384 [sample_data]). sample_read i = Some (torrent_pieces 16384 [sample_data] ! i)"
    by (simp add: pieces) (simp add: torrent_pieces_def sample_read_def)
  show "inj_on bep52_root {d \<in> set [sample_data]. d \<noteq> []}" by (auto simp: inj_on_def)
  have "length (block_hashes sample_data) = 2" by (simp add: block_count len div_ceil_def BLOCK_def)
  moreover have "trailing_zeros 64 (next_power_of_two 2) = 1" by code_simp
  ultimately show "height_of sample_data = 1" by (simp add: height_of_def)
qed


section \<open>Fetching from any peer\<close>

lemma step_by_slices:
  assumes "0 < n"
  shows "concat (map (\<lambda>i. take n (drop i xs)) (step_by (length xs) n)) = xs"
proof -
  have "map (\<lambda>i. take n (drop i xs)) (step_by (length xs) n) = slice_chunks n xs"
    by (rule nth_equalityI) (use assms in \<open>simp_all add: step_by_def length_slice_chunks slice_chunks_nth comp_def\<close>)
  then show ?thesis using assms by (simp add: concat_slice_chunks)
qed

lemma step_by_less: "0 < n \<Longrightarrow> i \<in> set (step_by m n) \<Longrightarrow> i < m"
proof (rule ccontr)
  assume n: "0 < n" and "i \<in> set (step_by m n)" and "\<not> i < m"
  then obtain j where "i = j * n" "j < div_ceil m n" unfolding step_by_def by auto
  then show False using div_ceil_le [OF n, of m j] \<open>\<not> i < m\<close> by simp
qed

lemma range_allowed_multiple:
  assumes "1 \<le> b" "Suc i * 2 ^ b \<le> 2 ^ (height - layer_number)" "layer_number < height"
  shows "range_allowed layer_number height (i * 2 ^ b) (2 ^ b)"
proof -
  have "i * 2 ^ b AND (2 ^ b - 1) = take_bit b (i * 2 ^ b)" by (simp only: take_bit_eq_mask mask_eq_exp_minus_1)
  also have "\<dots> = 0" by (simp add: take_bit_eq_mod)
  finally have "i * 2 ^ b AND (2 ^ b - 1) = 0" .
  moreover have "(2::nat) ^ 1 \<le> 2 ^ b" using assms(1) by (intro power_increasing) auto
  ultimately show ?thesis using assms by (simp add: range_allowed_def add.commute)
qed

lemma verify_range_returns: "verify_range root layer_number height index hashes uncles proof_layers \<noteq> Panic"
proof (cases "range_allowed layer_number height index (length hashes)")
  case True
  then obtain b where "length hashes = 2 ^ b" by (auto elim: range_allowedE)
  then show ?thesis by (auto simp: verify_range_def Let_def merkle_root_tree)
qed (simp add: verify_range_def)

definition received :: "peer_of \<Rightarrow> (wire_error + message) set" where
  "received peer = (\<Union>sent. set (peer sent))"

lemma await_hashes_received:
  "await_hashes r q = Inr (hs, q') \<Longrightarrow> Inr (Hashes r hs) \<in> set q \<and> set q' \<subseteq> set q"
  by (induction r q rule: await_hashes.induct) (auto split: if_splits)

text \<open>What \<open>fetch_ranges\<close> takes for an index: hashes the peer sent that lead to the root.\<close>

definition taken :: "peer_of \<Rightarrow> hash \<Rightarrow> nat \<Rightarrow> nat \<Rightarrow> nat \<Rightarrow> nat \<Rightarrow> nat \<Rightarrow> bytes list \<Rightarrow> bool" where
  "taken peer root at_layer height n proof_layers index hs \<longleftrightarrow>
     Inr (Hashes (layer_request root at_layer index n proof_layers) hs) \<in> received peer \<and> n \<le> length hs \<and>
     verify_range root at_layer height index (take n hs) (drop n hs) proof_layers = Ret True"

lemma fetch_ranges_checked:
  assumes "set (fe_unread f) \<subseteq> received peer"
  shows "\<exists>r f'. fetch_ranges peer stopped refused root at_layer height n proof_layers indices layer f = Ret (r, f') \<and>
    set (fe_unread f') \<subseteq> received peer \<and>
    (\<forall>out. r = Inr out \<longrightarrow> (\<exists>hss. list_all2 (taken peer root at_layer height n proof_layers) indices hss \<and>
       out = layer @ concat (map (take n) hss)))"
  using assms
proof (induction indices arbitrary: layer f)
  case (Cons i indices)
  define request where "request = layer_request root at_layer i n proof_layers"
  define sent where "sent = fe_sent f @ [request]"
  have q: "set (fe_unread f @ peer sent) \<subseteq> received peer" using Cons.prems by (auto simp: received_def)
  show ?case
  proof (cases "stopped (length (fe_sent f)) \<or> refused (length (fe_sent f)) \<or> (\<exists>e. await_hashes request (fe_unread f @ peer sent) = Inl e)")
    case True
    then show ?thesis using Cons.prems by (auto simp: Let_def request_def sent_def)
  next
    case False
    then obtain hs q' where hs: "await_hashes request (fe_unread f @ peer sent) = Inr (hs, q')"
      by (cases "await_hashes request (fe_unread f @ peer sent)") auto
    define f1 where "f1 = f\<lparr>fe_sent := sent, fe_unread := q'\<rparr>"
    have q': "set (fe_unread f1) \<subseteq> received peer" "Inr (Hashes request hs) \<in> received peer"
      using await_hashes_received [OF hs] q by (auto simp: f1_def)
    obtain ok where ok: "verify_range root at_layer height i (take n hs) (drop n hs) proof_layers = Ret ok"
      using verify_range_returns by (metis outcome.exhaust)
    have step: "fetch_ranges peer stopped refused root at_layer height n proof_layers (i # indices) layer f =
        (if length hs < n \<or> \<not> ok then Ret (Inl BadHashes, f1)
         else fetch_ranges peer stopped refused root at_layer height n proof_layers indices (layer @ take n hs) f1)"
      using False hs ok by (simp add: Let_def request_def [symmetric] sent_def [symmetric] f1_def [symmetric])
    show ?thesis
    proof (cases "length hs < n \<or> \<not> ok")
      case True
      then show ?thesis using step q'(1) by auto
    next
      case good: False
      then have "taken peer root at_layer height n proof_layers i hs" using q'(2) ok by (auto simp: taken_def request_def)
      then have cons: "list_all2 (taken peer root at_layer height n proof_layers) (i # indices) (hs # hss)"
        if "list_all2 (taken peer root at_layer height n proof_layers) indices hss" for hss using that by simp
      obtain r f' where "fetch_ranges peer stopped refused root at_layer height n proof_layers (i # indices) layer f = Ret (r, f')"
        "set (fe_unread f') \<subseteq> received peer"
        "\<forall>out. r = Inr out \<longrightarrow> (\<exists>hss. list_all2 (taken peer root at_layer height n proof_layers) indices hss \<and>
           out = layer @ take n hs @ concat (map (take n) hss))"
        using Cons.IH [OF q'(1), of "layer @ take n hs"] good step by auto
      moreover have "layer @ take n hs @ concat (map (take n) hss) = layer @ concat (map (take n) (hs # hss))" for hss by simp
      ultimately show ?thesis using cons by (metis (no_types, lifting))
    qed
  qed
qed auto

text \<open>
  A forged answer: the strings hashed in checking it, one of which has the SHA-256 of a
  different string hashed in building the file's own tree above the piece layer.
\<close>

definition check_strings :: "hash_request \<Rightarrow> bytes list \<Rightarrow> bytes list" where
  "check_strings r hs =
     (let n = unat (hr_length r); below = trailing_zeros 32 n
      in tree_strings below (take n hs) @ climb_strings (drop n hs) (drop_bit below (unat (hr_index r))) (tree below (take n hs)))"

definition forged :: "peer_of \<Rightarrow> nat \<Rightarrow> bytes \<Rightarrow> bool" where
  "forged peer k d \<longleftrightarrow>
     (\<exists>r hs. Inr (Hashes r hs) \<in> received peer \<and>
        collides (check_strings r hs) (tree_strings (height_of d - k) (tree_layer d k)))"

definition hashes_32 :: "peer_of \<Rightarrow> bool" where
  "hashes_32 peer \<longleftrightarrow> (\<forall>r hs. Inr (Hashes r hs) \<in> received peer \<longrightarrow> list_all (\<lambda>h. length h = 32) hs)"

lemma leaves_of_32: "list_all (\<lambda>h. length h = 32) (leaves_of d)"
  using set_resize [of "2 ^ height_of d" zero_hash "block_hashes d"]
  by (auto simp: leaves_of_def list_all_iff block_hashes_def zero_hash_def)

lemma taken_true:
  assumes t: "taken peer (bep52_root d) k (height_of d) n proof_layers i hs" and k: "k \<le> height_of d"
    and "hashes_32 peer" "n < 2 ^ 32" "i < 2 ^ 32"
  shows "take n hs = take n (drop i (tree_layer d k)) \<or> forged peer k d"
proof -
  let ?r = "layer_request (bep52_root d) k i n proof_layers"
  have r: "Inr (Hashes ?r hs) \<in> received peer" and n: "length (take n hs) = n" using t by (auto simp: taken_def)
  have "list_all (\<lambda>h. length h = 32) hs" using assms(3) r unfolding hashes_32_def by blast
  then have 32: "list_all (\<lambda>h. length h = 32) (take n hs @ drop n hs @ tree_layer d k)"
    using funpow_pairs_32 [OF leaves_of_32, of k d] by (auto simp: list_all_iff dest: in_set_takeD in_set_dropD)
  have "unat (hr_length ?r) = n" "unat (hr_index ?r) = i" using assms(4,5) by (simp_all add: layer_request_def unat_of_nat)
  then have eq: "check_strings ?r hs = tree_strings (trailing_zeros 32 n) (take n hs) @
      climb_strings (drop n hs) (drop_bit (trailing_zeros 32 n) i) (tree (trailing_zeros 32 n) (take n hs))"
    by (simp add: check_strings_def Let_def)
  have "verify_range (tree (height_of d - k) (tree_layer d k)) k (height_of d) i (take n hs) (drop n hs) proof_layers = Ret True"
    using t k by (simp add: taken_def tree_tree_layer)
  from range_checked [OF this length_tree_layer [OF k] 32] have "take n hs = take n (drop i (tree_layer d k)) \<or>
      collides (check_strings ?r hs) (tree_strings (height_of d - k) (tree_layer d k))" unfolding n Let_def eq .
  with r show ?thesis unfolding forged_def by blast
qed

lemma file_height_above:
  assumes "2 ^ a * BLOCK < len"
  obtains k where "file_height len (2 ^ a * BLOCK) = a + k" "0 < k"
    "div_ceil len (2 ^ a * BLOCK) \<le> MAX_PIECES_PER_FILE \<Longrightarrow> (2::nat) ^ k < 2 ^ 32"
proof -
  let ?d = "replicate len (0::u8)" let ?pieces = "div_ceil len (2 ^ a * BLOCK)"
  have "2 ^ a * BLOCK < length ?d" using assms by simp
  note t = large_file_tree(1,2) [OF this]
  obtain k where k: "next_power_of_two ?pieces = 2 ^ k" using next_power_of_two_power by blast
  with t have h: "file_height len (2 ^ a * BLOCK) = a + k" "0 < k" by (auto simp: file_height_def)
  then have "(1::nat) < 2 ^ k" by (intro one_less_power) auto
  then have "1 < ?pieces" using k by (cases "?pieces \<le> 1") (auto simp: next_power_of_two.simps [of ?pieces])
  then have "2 ^ k < 2 * ?pieces" using next_power_of_two_half [of ?pieces] k by simp
  with that [of k] h show thesis by (simp add: MAX_PIECES_PER_FILE_def)
qed

lemma fetch_file_true:
  assumes u: "set (fe_unread f) \<subseteq> received peer" and len: "2 ^ a * BLOCK < len"
  shows "\<exists>r f'. fetch_file peer stopped refused (2 ^ a * BLOCK) root len f = Ret (r, f') \<and> set (fe_unread f') \<subseteq> received peer \<and>
    (\<forall>layer d. r = Inr layer \<and> root = bep52_root d \<and> len = length d \<and> hashes_32 peer \<longrightarrow>
       layer = layer_of_file a d \<or> forged peer a d)"
proof (cases "div_ceil len (2 ^ a * BLOCK) > MAX_PIECES_PER_FILE")
  case True
  then show ?thesis using u by (auto simp: fetch_file_def Let_def)
next
  case False
  obtain k where k: "file_height len (2 ^ a * BLOCK) = a + k" "0 < k" and bound: "(2::nat) ^ k < 2 ^ 32"
    using len False by (metis file_height_above not_le)
  let ?pieces = "div_ceil len (2 ^ a * BLOCK)" let ?n = "min (2 ^ k) MAX_HASHES_PER_REQUEST"
  obtain r f' where r: "fetch_ranges peer stopped refused root a (a + k) ?n (k - 1) (step_by (2 ^ k) ?n) [] f = Ret (r, f')"
    "set (fe_unread f') \<subseteq> received peer"
    "\<And>out. r = Inr out \<Longrightarrow> \<exists>hss. list_all2 (taken peer root a (a + k) ?n (k - 1)) (step_by (2 ^ k) ?n) hss \<and> out = concat (map (take ?n) hss)"
    using fetch_ranges_checked [OF u, of stopped refused root a "a + k" ?n "k - 1" "step_by (2 ^ k) ?n" "[]"] by auto
  have step: "fetch_file peer stopped refused (2 ^ a * BLOCK) root len f =
      Ret (case r of Inl e \<Rightarrow> Inl e | Inr layer \<Rightarrow> Inr (take ?pieces layer), f')"
    using False k(1,2) r(1) by (simp add: fetch_file_def Let_def usize_sub_def)
  have "take ?pieces out = layer_of_file a d \<or> forged peer a d"
    if out: "r = Inr out" and d: "root = bep52_root d" "len = length d" "hashes_32 peer" for out d
  proof (rule disjCI)
    assume no: "\<not> forged peer a d"
    note t = large_file_tree [OF len [unfolded d(2)]]
    have h: "height_of d = a + k" using t(1) k(1) d(2) by simp
    have L: "length (tree_layer d a) = 2 ^ k" using length_tree_layer [of a d] h by simp
    obtain hss where hss: "list_all2 (taken peer root a (a + k) ?n (k - 1)) (step_by (2 ^ k) ?n) hss" "out = concat (map (take ?n) hss)"
      using r(3) [OF out] by blast
    have n: "0 < ?n" "?n < 2 ^ 32" using bound by (auto simp: MAX_HASHES_PER_REQUEST_def)
    have "list_all2 (\<lambda>i hs. take ?n hs = take ?n (drop i (tree_layer d a))) (step_by (2 ^ k) ?n) hss"
    proof (rule list.rel_mono_strong [OF hss(1)])
      fix i hs assume i: "i \<in> set (step_by (2 ^ k) ?n)" and t: "taken peer root a (a + k) ?n (k - 1) i hs"
      have "i < 2 ^ 32" using step_by_less [OF n(1) i] bound by (rule less_trans)
      then show "take ?n hs = take ?n (drop i (tree_layer d a))"
        using taken_true [OF t [unfolded d(1) h [symmetric]] _ d(3) n(2)] no h by simp
    qed
    then have "map (take ?n) hss = map (\<lambda>i. take ?n (drop i (tree_layer d a))) (step_by (2 ^ k) ?n)"
      by (auto simp: list_all2_conv_all_nth intro!: nth_equalityI)
    then have "out = tree_layer d a" using step_by_slices [of ?n "tree_layer d a"] L hss(2) by (simp add: MAX_HASHES_PER_REQUEST_def)
    also have "\<dots> = resize (2 ^ k) (zero_subtree a) (layer_of_file a d)" using t(4) h by (simp add: padded_layer_def)
    finally show "take ?pieces out = layer_of_file a d"
      using t(3) len d(2) h by (simp add: resize_ge layer_of_file_def length_slice_chunks)
  qed
  with step r(2) show ?thesis by (auto split: sum.splits)
qed

lemma fetch_files_true:
  assumes "set (fe_unread f) \<subseteq> received peer" "\<forall>(root, len)\<in>set missing. 2 ^ a * BLOCK < len" "hashes_32 peer"
    "\<forall>len. (bep52_root d, len) \<in> set missing \<longrightarrow> len = length d"
    "\<forall>layer. got (bep52_root d) = Some layer \<longrightarrow> layer = layer_of_file a d \<or> forged peer a d"
  shows "\<exists>got' e. fetch_files peer stopped refused (2 ^ a * BLOCK) missing got f = Ret (got', e) \<and>
    (e = None \<longrightarrow> dom got' = dom got \<union> fst ` set missing) \<and>
    (\<forall>layer. got' (bep52_root d) = Some layer \<longrightarrow> layer = layer_of_file a d \<or> forged peer a d)"
  using assms
proof (induction missing arbitrary: got f)
  case (Cons m missing)
  obtain root len where m: "m = (root, len)" by (cases m)
  obtain r f' where r: "fetch_file peer stopped refused (2 ^ a * BLOCK) root len f = Ret (r, f')" "set (fe_unread f') \<subseteq> received peer"
    "\<And>layer. r = Inr layer \<Longrightarrow> root = bep52_root d \<Longrightarrow> layer = layer_of_file a d \<or> forged peer a d"
    using fetch_file_true [OF Cons.prems(1), of a len stopped refused root] Cons.prems(2,3,4) m by auto
  show ?case
  proof (cases r)
    case (Inl e)
    then show ?thesis using r(1) Cons.prems(5) m by simp
  next
    case (Inr layer)
    have "\<forall>l. (got(root \<mapsto> layer)) (bep52_root d) = Some l \<longrightarrow> l = layer_of_file a d \<or> forged peer a d"
      using r(3) [OF Inr] Cons.prems(5) by auto
    with Cons.IH [OF r(2), of "got(root \<mapsto> layer)"] Cons.prems(2-4) m obtain got' e where
      "fetch_files peer stopped refused (2 ^ a * BLOCK) missing (got(root \<mapsto> layer)) f' = Ret (got', e)"
      "e = None \<longrightarrow> dom got' = dom (got(root \<mapsto> layer)) \<union> fst ` set missing"
      "\<forall>layer. got' (bep52_root d) = Some layer \<longrightarrow> layer = layer_of_file a d \<or> forged peer a d"
      by (auto simp del: fun_upd_apply)
    then show ?thesis using r(1) Inr m by (simp del: fun_upd_apply)
  qed
qed simp

text \<open>
  C14: Nothing a peer sends as piece layers is taken on trust. Whatever a peer sends, and
  wherever the exchange is cut short, fetching the layers of the files longer than a piece
  does not panic; if it ends without a failure there is a layer for every file asked for; and
  the layer kept for a file is the one made from the file's contents, unless an answer
  received from the peer, in being checked, hashes a string whose SHA-256 is that of a
  different string hashed in building the file's tree.
\<close>

theorem fetched_layers_true:
  assumes "valid_piece_length (int piece_length)" "\<forall>(root, len)\<in>set missing. piece_length < len" "hashes_32 peer"
    and "\<forall>len. (bep52_root d, len) \<in> set missing \<longrightarrow> len = length d"
  shows "\<exists>got e. fetch_from_peer peer stopped refused piece_length missing = Ret (got, e) \<and>
    (e = None \<longrightarrow> dom got = fst ` set missing) \<and>
    (\<forall>layer. got (bep52_root d) = Some layer \<longrightarrow>
       layer = layer_of_file (piece_layer piece_length) d \<or> forged peer (piece_layer piece_length) d)"
proof -
  obtain a where pl: "piece_length = 2 ^ a * BLOCK" using assms(1) by (rule valid_piece_lengthE)
  have "set (peer []) \<subseteq> received peer" by (auto simp: received_def)
  with fetch_files_true [of "\<lparr>fe_sent = [], fe_unread = peer []\<rparr>" peer missing a d Map.empty stopped refused] assms(2-4)
  show ?thesis by (simp add: pl fetch_from_peer_def)
qed

theorem fetched_layers_true_witness:
  "let peer = (\<lambda>sent. if sent = [] then [Inr Unchoke] else []); missing = [(bep52_root sample_data, 16385)] in
   hashes_32 peer \<and> (\<exists>got e. fetch_from_peer peer (\<lambda>_. False) (\<lambda>_. False) 16384 missing = Ret (got, e) \<and>
    (e = None \<longrightarrow> dom got = fst ` set missing) \<and>
    (\<forall>layer. got (bep52_root sample_data) = Some layer \<longrightarrow>
       layer = layer_of_file (piece_layer 16384) sample_data \<or> forged peer (piece_layer 16384) sample_data))"
proof -
  let ?peer = "\<lambda>sent :: hash_request list. if sent = [] then [Inr Unchoke :: wire_error + message] else []"
  have "hashes_32 ?peer" by (auto simp: hashes_32_def received_def split: if_splits)
  then show ?thesis
    using fetched_layers_true [OF sample_file(4), of "[(bep52_root sample_data, 16385)]" ?peer sample_data] sample_file(1)
    by (simp add: Let_def)
qed

section \<open>Fetching from a seeder\<close>

text \<open>
  A peer that answers as \<open>hash_reply\<close> does, with other messages before and after its answers.
\<close>

fun chatter :: "wire_error + message \<Rightarrow> bool" where
  "chatter (Inl e) = False"
| "chatter (Inr (Hashes r hs)) = False"
| "chatter (Inr (HashReject r)) = False"
| "chatter (Inr m) = True"

definition honest :: "hash_source \<Rightarrow> (nat \<Rightarrow> bytes option) \<Rightarrow> peer_of \<Rightarrow> bool" where
  "honest s read_piece peer \<longleftrightarrow>
     list_all chatter (peer []) \<and>
     (\<forall>sent r reply. hash_reply (Some s) read_piece r = Ret reply \<longrightarrow>
        (\<exists>before after. peer (sent @ [r]) = before @ Inr reply # after \<and> list_all chatter (before @ after)))"

lemma await_chatter: "list_all chatter q \<Longrightarrow> await_hashes r (q @ Inr (Hashes r hs) # rest) = Inr (hs, rest)"
  by (induction q) (auto elim!: chatter.elims)

lemma layer_request_reply:
  assumes s: "serves a read_piece s d" and d: "height_of d = a + k" "a + k \<le> 32" "2 ^ a * BLOCK < length d"
    and b: "1 \<le> b" "2 ^ b \<le> MAX_HASHES_PER_REQUEST" "Suc i * 2 ^ b \<le> 2 ^ k" and k: "k < 32" "k \<le> Suc p" "p < 32"
  defines "t \<equiv> true_range d a (i * 2 ^ b) (2 ^ b) p"
  shows "hash_reply (Some s) read_piece (layer_request (bep52_root d) a (i * 2 ^ b) (2 ^ b) p) =
      Ret (Hashes (layer_request (bep52_root d) a (i * 2 ^ b) (2 ^ b) p) (hr_hashes t @ hr_uncles t))"
    "hr_hashes t = take (2 ^ b) (drop (i * 2 ^ b) (tree_layer d a))" "length (hr_hashes t) = 2 ^ b"
    "verify_range (bep52_root d) a (a + k) (i * 2 ^ b) (hr_hashes t) (hr_uncles t) p = Ret True"
proof -
  have k0: "0 < k" using large_file_tree(2) [OF d(3)] d(1) by simp
  then have allowed: "range_allowed a (height_of d) (i * 2 ^ b) (2 ^ b)" using b d(1) by (intro range_allowed_multiple) auto
  have "(2::nat) ^ k < 2 ^ 32" using k(1) by (intro power_strict_increasing) auto
  moreover have "0 < (2::nat) ^ b" by simp
  ultimately have small: "i * 2 ^ b < 2 ^ 32" "(2::nat) ^ b < 2 ^ 32" "a < 2 ^ 32" "p < 2 ^ 32"
    using b(2,3) d(2) k(3) by (auto simp: MAX_HASHES_PER_REQUEST_def)
  let ?r = "layer_request (bep52_root d) a (i * 2 ^ b) (2 ^ b) p"
  have fields: "hr_root ?r = bep52_root d" "unat (hr_base_layer ?r) = a" "unat (hr_index ?r) = i * 2 ^ b" "unat (hr_length ?r) = 2 ^ b"
    "unat (hr_proof_layers ?r) = p"
    using small by (simp_all add: layer_request_def unat_of_nat del: of_nat_mult of_nat_power)
  show "hash_reply (Some s) read_piece ?r = Ret (Hashes ?r (hr_hashes t @ hr_uncles t))"
    using hash_reply_true [OF s _ fields(1)] d allowed b(2) by (simp add: fields(2-5) t_def Let_def)
  show "hr_hashes t = take (2 ^ b) (drop (i * 2 ^ b) (tree_layer d a))" by (simp add: t_def true_range_def)
  then show "length (hr_hashes t) = 2 ^ b" using length_tree_layer [of a d] b(3) d(1) by simp
  show "verify_range (bep52_root d) a (a + k) (i * 2 ^ b) (hr_hashes t) (hr_uncles t) p = Ret True"
    using true_range_verifies [OF allowed, of p] d(1) k(2) by (simp add: t_def)
qed

lemma fetch_ranges_honest:
  assumes s: "serves a read_piece s d" and d: "height_of d = a + k" "a + k \<le> 32" "2 ^ a * BLOCK < length d"
    and b: "1 \<le> b" "2 ^ b \<le> MAX_HASHES_PER_REQUEST" and k: "k < 32" "k \<le> Suc p" "p < 32"
    and peer: "honest s read_piece peer" and f: "list_all chatter (fe_unread f)" and js: "\<forall>j\<in>set js. Suc j * 2 ^ b \<le> 2 ^ k"
  shows "\<exists>f'. fetch_ranges peer (\<lambda>_. False) (\<lambda>_. False) (bep52_root d) a (a + k) (2 ^ b) p (map (\<lambda>j. j * 2 ^ b) js) layer f =
      Ret (Inr (layer @ concat (map (\<lambda>j. take (2 ^ b) (drop (j * 2 ^ b) (tree_layer d a))) js)), f') \<and> list_all chatter (fe_unread f')"
  using f js
proof (induction js arbitrary: layer f)
  case (Cons j js)
  define r where "r = layer_request (bep52_root d) a (j * 2 ^ b) (2 ^ b) p"
  define t where "t = true_range d a (j * 2 ^ b) (2 ^ b) p"
  have "Suc j * 2 ^ b \<le> 2 ^ k" using Cons.prems(2) by simp
  note t = layer_request_reply [OF s d b this k, folded r_def t_def]
  obtain before after where q: "peer (fe_sent f @ [r]) = before @ Inr (Hashes r (hr_hashes t @ hr_uncles t)) # after"
    "list_all chatter before" "list_all chatter after"
    using peer t(1) unfolding honest_def by (metis list_all_append)
  define f1 where "f1 = f\<lparr>fe_sent := fe_sent f @ [r], fe_unread := after\<rparr>"
  have "await_hashes r (fe_unread f @ peer (fe_sent f @ [r])) = Inr (hr_hashes t @ hr_uncles t, after)"
    using await_chatter [of "fe_unread f @ before" r "hr_hashes t @ hr_uncles t" after] q Cons.prems(1) by simp
  then have "fetch_ranges peer (\<lambda>_. False) (\<lambda>_. False) (bep52_root d) a (a + k) (2 ^ b) p (map (\<lambda>j. j * 2 ^ b) (j # js)) layer f =
      fetch_ranges peer (\<lambda>_. False) (\<lambda>_. False) (bep52_root d) a (a + k) (2 ^ b) p (map (\<lambda>j. j * 2 ^ b) js) (layer @ hr_hashes t) f1"
    using t(3,4) by (simp add: Let_def r_def [symmetric] f1_def [symmetric])
  moreover have "list_all chatter (fe_unread f1)" "\<forall>j\<in>set js. Suc j * 2 ^ b \<le> 2 ^ k" using q(3) Cons.prems(2) by (simp_all add: f1_def)
  ultimately show ?case using Cons.IH [of f1 "layer @ hr_hashes t"] t(2) by simp
qed simp

lemma fetch_file_honest:
  assumes s: "serves a read_piece s d" and d: "2 ^ a * BLOCK < length d" "height_of d \<le> 32" "length (pieces_of a d) \<le> MAX_PIECES_PER_FILE"
    and peer: "honest s read_piece peer" and f: "list_all chatter (fe_unread f)"
  shows "\<exists>f'. fetch_file peer (\<lambda>_. False) (\<lambda>_. False) (2 ^ a * BLOCK) (bep52_root d) (length d) f = Ret (Inr (layer_of_file a d), f') \<and>
    list_all chatter (fe_unread f')"
proof -
  note t = large_file_tree [OF d(1)]
  obtain k where k: "height_of d = a + k" "0 < k" and bound: "(2::nat) ^ k < 2 ^ 32"
    using d(1,3) t(1) by (metis file_height_above length_slice_chunks mult_pos_pos BLOCK_pos zero_less_numeral zero_less_power)
  have le: "k < 32" "k - 1 < 32" using power_less_imp_less_exp [of "2::nat" k 32] bound by auto
  define b where "b = min k 9"
  have "(2::nat) ^ k \<le> 2 ^ 9 \<longleftrightarrow> k \<le> 9" by (rule power_increasing_iff) simp
  then have n: "min (2 ^ k) MAX_HASHES_PER_REQUEST = 2 ^ b" by (auto simp: MAX_HASHES_PER_REQUEST_def b_def min_def)
  have b: "1 \<le> b" "2 ^ b \<le> MAX_HASHES_PER_REQUEST" "b \<le> k" using k(2) n by (auto simp: b_def simp flip: n)
  have split: "(2::nat) ^ k = 2 ^ (k - b) * 2 ^ b" using b(3) by (simp flip: power_add)
  have ceil: "div_ceil (2 ^ k) (2 ^ b) = 2 ^ (k - b)" unfolding split by (simp add: div_ceil_def)
  have js: "\<forall>j\<in>set [0..<2 ^ (k - b)]. Suc j * 2 ^ b \<le> 2 ^ k" unfolding split by (intro ballI mult_le_mono1) simp
  obtain f' where f': "fetch_ranges peer (\<lambda>_. False) (\<lambda>_. False) (bep52_root d) a (a + k) (2 ^ b) (k - 1) (step_by (2 ^ k) (2 ^ b)) [] f =
      Ret (Inr (concat (map (\<lambda>j. take (2 ^ b) (drop (j * 2 ^ b) (tree_layer d a))) [0..<2 ^ (k - b)])), f')" "list_all chatter (fe_unread f')"
    using fetch_ranges_honest [OF s k(1) _ d(1) b(1,2) le(1) _ le(2) peer f js, of "[]"] d(2) k by (auto simp: step_by_def ceil)
  have len: "length (tree_layer d a) = 2 ^ k" using length_tree_layer [of a d] k(1) by simp
  then have "concat (map (\<lambda>j. take (2 ^ b) (drop (j * 2 ^ b) (tree_layer d a))) [0..<2 ^ (k - b)]) = tree_layer d a"
    using step_by_slices [of "2 ^ b" "tree_layer d a"] by (simp add: step_by_def ceil comp_def)
  moreover have "take (length (pieces_of a d)) (tree_layer d a) = layer_of_file a d"
    using t(3,4) d(1) k(1) by (simp add: padded_layer_def resize_ge layer_of_file_def flip: t(4))
  ultimately show ?thesis
    using f' d(1,3) t(1) k by (auto simp: fetch_file_def Let_def usize_sub_def n length_slice_chunks)
qed

definition put_layer :: "nat \<Rightarrow> bytes \<Rightarrow> layers \<Rightarrow> layers" where
  "put_layer a d got = got(bep52_root d \<mapsto> layer_of_file a d)"

lemma put_layers:
  assumes "inj_on bep52_root D" "set ms \<subseteq> D" "d \<in> D"
  shows "fold (put_layer a) ms got (bep52_root d) = (if d \<in> set ms then Some (layer_of_file a d) else got (bep52_root d))"
  using assms(2)
proof (induction ms arbitrary: got)
  case (Cons m ms)
  then have "bep52_root d = bep52_root m \<longleftrightarrow> d = m" using assms(1,3) by (auto dest: inj_onD)
  with Cons show ?case by (auto simp: put_layer_def)
qed simp

lemma fetch_files_honest:
  assumes "\<forall>d\<in>set ms. serves a read_piece s d \<and> 2 ^ a * BLOCK < length d \<and> height_of d \<le> 32 \<and>
      length (pieces_of a d) \<le> MAX_PIECES_PER_FILE"
    and peer: "honest s read_piece peer" and "list_all chatter (fe_unread f)"
  shows "fetch_files peer (\<lambda>_. False) (\<lambda>_. False) (2 ^ a * BLOCK) (map (\<lambda>d. (bep52_root d, length d)) ms) got f =
    Ret (fold (put_layer a) ms got, None)"
  using assms(1,3)
proof (induction ms arbitrary: got f)
  case (Cons d ms)
  obtain f' where "fetch_file peer (\<lambda>_. False) (\<lambda>_. False) (2 ^ a * BLOCK) (bep52_root d) (length d) f = Ret (Inr (layer_of_file a d), f')"
    "list_all chatter (fe_unread f')" using fetch_file_honest [OF _ _ _ _ peer Cons.prems(2), of a d] Cons.prems(1) by auto
  then show ?case using Cons.IH [of f' "put_layer a d got"] Cons.prems(1) by (simp add: put_layer_def [of a d got, symmetric])
qed simp

lemma true_layers_validate:
  assumes "list_all2 (describes (2 ^ a * BLOCK) layers) files ds"
    and "\<forall>d\<in>set ds. d \<noteq> [] \<longrightarrow> got (bep52_root d) \<in> {None, Some (layer_of_file a d)}"
  shows "validate_files (filter (\<lambda>f. vf_length f > 2 ^ a * BLOCK) files) got (2 ^ a * BLOCK) = Ret (Inr ())"
  using assms
proof (induction files ds rule: list_all2_induct)
  case (Cons f fs d ds)
  have "validate_file got (2 ^ a * BLOCK) f = Ret (Inr ())" if "vf_length f > 2 ^ a * BLOCK"
    using Cons.hyps(1) Cons.prems that layer_root [of a d]
    by (auto simp: describes_iff validate_file_def layer_of_file_def length_slice_chunks split: option.splits)
  with Cons show ?case by auto
qed simp


text \<open>A peer that answers every request and says nothing else.\<close>

definition seeder :: "hash_source \<Rightarrow> (nat \<Rightarrow> bytes option) \<Rightarrow> peer_of" where
  "seeder s read_piece sent =
     (if sent = [] then []
      else case hash_reply (Some s) read_piece (last sent) of Panic \<Rightarrow> [] | Ret reply \<Rightarrow> [Inr reply])"


end
