(* ===== verification/Assembler.thy ===== *)
theory Assembler
  imports V2_Meta
begin

text \<open>
  One piece while it downloads, \<^verbatim>\<open>src/src/downloader/piece_assembler.rs\<close>: which blocks
  have been requested, which have arrived, and the buffer they are put into. Offsets and
  lengths are \<open>u32\<close> in the code; they are naturals here with the checked addition and the
  truncations written out, and what would index out of range is \<open>Panic\<close>. SHA-1 comes from
  a crate and is the parameter \<open>sha1\<close>; the check of a v2 piece is the one of \<open>Merkle\<close>.
\<close>

section \<open>The code\<close>

definition BLOCK_SIZE :: nat where
  "BLOCK_SIZE = 16 * 1024"

record merkle =
  mk_root :: hash
  mk_width :: nat

record piece_work =
  pw_index :: nat
  pw_hash :: bytes
  pw_length :: nat
  pw_merkle :: "merkle option"

definition matches :: "(bytes \<Rightarrow> bytes) \<Rightarrow> piece_work \<Rightarrow> bytes \<Rightarrow> bool outcome" where
  "matches sha1 work data =
     (case pw_merkle work of
        Some merkle \<Rightarrow> merkle_matches data (mk_width merkle) (mk_root merkle)
      | None \<Rightarrow> Ret (sha1 data = pw_hash work))"

datatype assembler_error =
    AlreadyComplete
  | BlockOutOfRange nat nat nat
  | UnexpectedBlockSize nat nat nat
  | HashMismatch

type_synonym block_request = "nat \<times> nat \<times> nat"

record partial_piece =
  pp_data :: bytes
  pp_received :: "bool list"

definition blocks_held :: "partial_piece \<Rightarrow> nat" where
  "blocks_held p = length (filter (\<lambda>r. r) (pp_received p))"

definition from_parts :: "bytes \<Rightarrow> bool list \<Rightarrow> partial_piece option" where
  "from_parts data received =
     (if length received = div_ceil (length data) BLOCK_SIZE \<and> list_ex (\<lambda>r. r) received
      then Some \<lparr>pp_data = data, pp_received = received\<rparr> else None)"

record piece_assembler =
  pa_work :: piece_work
  pa_buf :: bytes
  pa_received :: "bool list"
  pa_next :: nat
  pa_refused :: "nat list"

definition assembler_new :: "piece_work \<Rightarrow> piece_assembler" where
  "assembler_new work =
     \<lparr>pa_work = work, pa_buf = replicate (pw_length work) 0,
      pa_received = replicate (div_ceil (pw_length work) BLOCK_SIZE) False, pa_next = 0, pa_refused = []\<rparr>"

definition assembler_resume :: "piece_work \<Rightarrow> partial_piece \<Rightarrow> piece_assembler" where
  "assembler_resume work p =
     (let fresh = assembler_new work
      in if length (pp_data p) = length (pa_buf fresh) \<and> length (pp_received p) = length (pa_received fresh)
         then fresh\<lparr>pa_buf := pp_data p, pa_received := pp_received p\<rparr> else fresh)"

definition into_partial :: "piece_assembler \<Rightarrow> partial_piece option" where
  "into_partial a =
     (let p = \<lparr>pp_data = pa_buf a, pp_received = pa_received a\<rparr>
      in if blocks_held p > 0 then Some p else None)"

definition num_blocks :: "piece_assembler \<Rightarrow> nat" where
  "num_blocks a = as_u32 (length (pa_received a))"

definition block_len :: "piece_assembler \<Rightarrow> nat \<Rightarrow> nat outcome" where
  "block_len a block_idx =
     (let begin = block_idx * BLOCK_SIZE
      in if 2 ^ 32 \<le> begin \<or> pw_length (pa_work a) < begin then Panic
         else Ret (min (pw_length (pa_work a) - begin) BLOCK_SIZE))"

text \<open>The two loops of \<open>next_requests\<close>: refused blocks from the end, then fresh ones.\<close>

function take_refused :: "nat \<Rightarrow> block_request list \<Rightarrow> piece_assembler \<Rightarrow> (block_request list \<times> piece_assembler) outcome" where
  "take_refused max_new out a =
     (if length out < max_new \<and> pa_refused a \<noteq> [] then
        let i = last (pa_refused a); a' = a\<lparr>pa_refused := butlast (pa_refused a)\<rparr>
        in if length (pa_received a) \<le> i then Panic
           else if \<not> pa_received a ! i
             then on_ret (block_len a i) (\<lambda>l. take_refused max_new (out @ [(pw_index (pa_work a), i * BLOCK_SIZE, l)]) a')
             else take_refused max_new out a'
      else Ret (out, a))"
  by auto
termination by (relation "measure (\<lambda>(m, out, a). length (pa_refused a))") auto

function take_fresh :: "nat \<Rightarrow> block_request list \<Rightarrow> piece_assembler \<Rightarrow> (block_request list \<times> piece_assembler) outcome" where
  "take_fresh max_new out a =
     (if length out < max_new \<and> pa_next a < num_blocks a then
        let i = pa_next a; a' = a\<lparr>pa_next := i + 1\<rparr>
        in if length (pa_received a) \<le> i then Panic
           else if pa_received a ! i then take_fresh max_new out a'
           else on_ret (block_len a i) (\<lambda>l. take_fresh max_new (out @ [(pw_index (pa_work a), i * BLOCK_SIZE, l)]) a')
      else Ret (out, a))"
  by auto
termination by (relation "measure (\<lambda>(m, out, a). num_blocks a - pa_next a)") (auto simp: num_blocks_def)

declare take_refused.simps [simp del] take_fresh.simps [simp del]

definition next_requests :: "nat \<Rightarrow> piece_assembler \<Rightarrow> (block_request list \<times> piece_assembler) outcome" where
  "next_requests max_new a = on_ret (take_refused max_new [] a) (\<lambda>(out, a'). take_fresh max_new out a')"

definition forget_requests :: "piece_assembler \<Rightarrow> piece_assembler" where
  "forget_requests a = a\<lparr>pa_next := 0, pa_refused := []\<rparr>"

definition refuse_request :: "nat \<Rightarrow> piece_assembler \<Rightarrow> piece_assembler outcome" where
  "refuse_request begin a =
     (let i = begin div BLOCK_SIZE; asked = i < pa_next a; on_a_boundary = i * BLOCK_SIZE = begin
      in if asked \<and> on_a_boundary then
           if length (pa_received a) \<le> i then Panic
           else if \<not> pa_received a ! i \<and> i \<notin> set (pa_refused a) then Ret (a\<lparr>pa_refused := pa_refused a @ [i]\<rparr>)
           else Ret a
         else Ret a)"

definition is_complete :: "piece_assembler \<Rightarrow> bool" where
  "is_complete a \<longleftrightarrow> list_all (\<lambda>r. r) (pa_received a)"

definition missing_block_count :: "piece_assembler \<Rightarrow> nat" where
  "missing_block_count a = length (filter (\<lambda>r. \<not> r) (pa_received a))"

definition record_block :: "nat \<Rightarrow> bytes \<Rightarrow> piece_assembler \<Rightarrow> (assembler_error + piece_assembler) outcome" where
  "record_block begin data a =
     (let len = as_u32 (length data); total = pw_length (pa_work a)
      in if is_complete a then Ret (Inl AlreadyComplete)
         else if 2 ^ 32 \<le> begin + len \<or> total < begin + len then Ret (Inl (BlockOutOfRange begin len total))
         else on_ret (block_len a (begin div BLOCK_SIZE)) (\<lambda>expected.
           if len \<noteq> expected then Ret (Inl (UnexpectedBlockSize begin expected len))
           else if length (pa_buf a) < begin + len \<or> length data \<noteq> len then Panic
           else if length (pa_received a) \<le> begin div BLOCK_SIZE then Panic
           else Ret (Inr (a\<lparr>pa_buf := copy_into (pa_buf a) begin data,
                           pa_received := (pa_received a)[begin div BLOCK_SIZE := True]\<rparr>))))"

definition finish :: "(bytes \<Rightarrow> bytes) \<Rightarrow> piece_assembler \<Rightarrow> (assembler_error + bytes) outcome" where
  "finish sha1 a =
     (if \<not> is_complete a then Ret (Inl AlreadyComplete)
      else on_ret (matches sha1 (pa_work a) (pa_buf a)) (\<lambda>ok.
        Ret (if \<not> ok then Inl HashMismatch else Inr (pa_buf a))))"

section \<open>The invariant\<close>

lemma BLOCK_SIZE_pos [simp]: "0 < BLOCK_SIZE"
  by (simp add: BLOCK_SIZE_def)

lemma div_ceil_less: "0 < b \<Longrightarrow> i < div_ceil a b \<longleftrightarrow> i * b < a"
proof -
  assume b: "0 < b"
  then have "i < div_ceil a b \<longleftrightarrow> Suc i \<le> (a + b - 1) div b" by (simp add: div_ceil_alt Suc_le_eq)
  also have "\<dots> \<longleftrightarrow> Suc i * b \<le> a + b - 1" by (rule less_eq_div_iff_mult_less_eq [OF b])
  also have "\<dots> \<longleftrightarrow> i * b < a" using b by (simp add: Suc_le_eq) linarith
  finally show ?thesis .
qed

definition assembler_ok :: "piece_assembler \<Rightarrow> bool" where
  "assembler_ok a \<longleftrightarrow>
     pw_length (pa_work a) < 2 ^ 32 \<and> length (pa_buf a) = pw_length (pa_work a) \<and>
     length (pa_received a) = div_ceil (pw_length (pa_work a)) BLOCK_SIZE \<and>
     pa_next a \<le> length (pa_received a) \<and> distinct (pa_refused a) \<and> (\<forall>i\<in>set (pa_refused a). i < pa_next a)"

lemma assembler_ok_num_blocks [simp]:
  assumes "assembler_ok a"
  shows "num_blocks a = length (pa_received a)"
proof -
  have "div_ceil (pw_length (pa_work a)) BLOCK_SIZE \<le> pw_length (pa_work a)"
    by (rule div_ceil_le) (simp_all add: BLOCK_SIZE_def)
  then show ?thesis using assms by (simp add: assembler_ok_def num_blocks_def as_u32_id)
qed

lemma assembler_ok_block_len:
  assumes "assembler_ok a" "i < length (pa_received a)"
  shows "block_len a i = Ret (min (pw_length (pa_work a) - i * BLOCK_SIZE) BLOCK_SIZE)"
proof -
  have "i * BLOCK_SIZE < pw_length (pa_work a)" using assms by (simp add: assembler_ok_def div_ceil_less)
  then show ?thesis using assms(1) by (simp add: block_len_def assembler_ok_def)
qed

lemma assembler_ok_new: "pw_length work < 2 ^ 32 \<Longrightarrow> assembler_ok (assembler_new work)"
  by (simp add: assembler_ok_def assembler_new_def)

lemma assembler_ok_resume: "pw_length work < 2 ^ 32 \<Longrightarrow> assembler_ok (assembler_resume work p)"
  by (simp add: assembler_ok_def assembler_resume_def assembler_new_def Let_def)

lemma assembler_ok_forget: "assembler_ok a \<Longrightarrow> assembler_ok (forget_requests a)"
  by (simp add: assembler_ok_def forget_requests_def)

lemma refuse_request_ok:
  assumes "assembler_ok a"
  shows "\<exists>a'. refuse_request begin a = Ret a' \<and> assembler_ok a' \<and> pa_received a' = pa_received a \<and>
    pa_work a' = pa_work a \<and> pa_buf a' = pa_buf a"
  using assms by (auto simp: refuse_request_def Let_def assembler_ok_def)

section \<open>Handing out requests\<close>

definition request_of :: "piece_assembler \<Rightarrow> nat \<Rightarrow> block_request" where
  "request_of a i =
     (pw_index (pa_work a), i * BLOCK_SIZE, min (pw_length (pa_work a) - i * BLOCK_SIZE) BLOCK_SIZE)"

lemma request_of_update [simp]:
  "request_of (a\<lparr>pa_refused := r\<rparr>) = request_of a" "request_of (a\<lparr>pa_next := n\<rparr>) = request_of a"
  by (simp_all add: request_of_def [abs_def])

lemma take_refused_spec:
  "assembler_ok a \<Longrightarrow> length out \<le> m \<Longrightarrow>
   \<exists>rs js. pa_refused a = rs @ rev js \<and>
     (let is = filter (\<lambda>i. \<not> pa_received a ! i) js
      in take_refused m out a = Ret (out @ map (request_of a) is, a\<lparr>pa_refused := rs\<rparr>) \<and>
         length out + length is \<le> m \<and> (rs = [] \<or> length out + length is = m))"
proof (induction "length (pa_refused a)" arbitrary: a out)
  case 0
  then show ?case
    by (intro exI [of _ "[]"]) (auto simp: take_refused.simps [of m out a])
next
  case (Suc n)
  show ?case
  proof (cases "length out < m")
    case False
    with Suc.prems show ?thesis
      by (intro exI [of _ "pa_refused a"] exI [of _ "[]"]) (auto simp: take_refused.simps [of m out a])
  next
    case True
    define i where "i = last (pa_refused a)"
    define a' where "a' = a\<lparr>pa_refused := butlast (pa_refused a)\<rparr>"
    define out' where "out' = (if pa_received a ! i then out else out @ [request_of a i])"
    have ne: "pa_refused a \<noteq> []" using Suc(2) by auto
    have i: "i < length (pa_received a)"
      using Suc.prems(1) last_in_set [OF ne] by (fastforce simp: assembler_ok_def i_def)
    have ok': "assembler_ok a'" using Suc.prems(1) unfolding assembler_ok_def a'_def
      by (auto simp: distinct_butlast dest: in_set_butlastD)
    have step: "take_refused m out a = take_refused m out' a'"
      using True ne i assembler_ok_block_len [OF Suc.prems(1) i]
      by (simp add: take_refused.simps [of m out a] Let_def request_of_def a'_def out'_def flip: i_def)
    have "n = length (pa_refused a')" "length out' \<le> m" using Suc(2) True by (auto simp: a'_def out'_def)
    from Suc.hyps(1) [OF this(1) ok' this(2)] obtain rs js where r: "pa_refused a' = rs @ rev js"
      "let is = filter (\<lambda>i. \<not> pa_received a ! i) js
        in take_refused m out' a' = Ret (out' @ map (request_of a) is, a\<lparr>pa_refused := rs\<rparr>) \<and>
           length out' + length is \<le> m \<and> (rs = [] \<or> length out' + length is = m)" by (auto simp: a'_def)
    have "pa_refused a = rs @ rev (i # js)" using r(1) append_butlast_last_id [OF ne] by (simp add: a'_def i_def)
    with r(2) step show ?thesis
      by (intro exI [of _ rs] exI [of _ "i # js"]) (simp add: Let_def out'_def split: if_splits)
  qed
qed

lemma take_fresh_spec:
  "assembler_ok a \<Longrightarrow> length out \<le> m \<Longrightarrow>
   \<exists>n. pa_next a \<le> n \<and> n \<le> length (pa_received a) \<and>
     (let is = filter (\<lambda>i. \<not> pa_received a ! i) [pa_next a..<n]
      in take_fresh m out a = Ret (out @ map (request_of a) is, a\<lparr>pa_next := n\<rparr>) \<and>
         length out + length is \<le> m \<and> (n = length (pa_received a) \<or> length out + length is = m))"
proof (induction "length (pa_received a) - pa_next a" arbitrary: a out)
  case 0
  then have "num_blocks a \<le> pa_next a" by simp
  with 0 show ?case
    by (intro exI [of _ "pa_next a"]) (auto simp: take_fresh.simps [of m out a] assembler_ok_def)
next
  case (Suc k)
  have nb: "num_blocks a = length (pa_received a)" using Suc.prems(1) by simp
  show ?case
  proof (cases "length out < m")
    case False
    with Suc.prems show ?thesis
      by (intro exI [of _ "pa_next a"]) (auto simp: take_fresh.simps [of m out a] assembler_ok_def)
  next
    case True
    define i where "i = pa_next a"
    define a' where "a' = a\<lparr>pa_next := i + 1\<rparr>"
    define out' where "out' = (if pa_received a ! i then out else out @ [request_of a i])"
    have i: "i < length (pa_received a)" using Suc(2) by (simp add: i_def)
    have ok': "assembler_ok a'" using Suc.prems(1) i by (fastforce simp: assembler_ok_def a'_def i_def)
    have step: "take_fresh m out a = take_fresh m out' a'"
      using True i nb assembler_ok_block_len [OF Suc.prems(1) i]
      by (simp add: take_fresh.simps [of m out a] Let_def request_of_def a'_def out'_def flip: i_def)
    have "k = length (pa_received a') - pa_next a'" "length out' \<le> m" using Suc(2) True by (auto simp: a'_def i_def out'_def)
    from Suc.hyps(1) [OF this(1) ok' this(2)] obtain n where n: "Suc i \<le> n" "n \<le> length (pa_received a)"
      "let is = filter (\<lambda>i. \<not> pa_received a ! i) [Suc i..<n]
        in take_fresh m out' a' = Ret (out' @ map (request_of a) is, a\<lparr>pa_next := n\<rparr>) \<and>
           length out' + length is \<le> m \<and> (n = length (pa_received a) \<or> length out' + length is = m)"
      by (auto simp: a'_def)
    have "[pa_next a..<n] = i # [Suc i..<n]" using n(1) by (simp add: upt_conv_Cons i_def)
    with n step show ?thesis
      by (intro exI [of _ n]) (simp add: Let_def out'_def i_def split: if_splits)
  qed
qed

text \<open>The blocks asked for and not refused since.\<close>

definition waiting :: "piece_assembler \<Rightarrow> nat set" where
  "waiting a = {i. i < pa_next a \<and> i \<notin> set (pa_refused a)}"

definition missing :: "piece_assembler \<Rightarrow> nat set" where
  "missing a = {i. i < length (pa_received a) \<and> \<not> pa_received a ! i}"

lemma next_requests_spec:
  assumes ok: "assembler_ok a"
  shows "\<exists>is refused next. next_requests m a = Ret (map (request_of a) is, a\<lparr>pa_refused := refused, pa_next := next\<rparr>) \<and>
    assembler_ok (a\<lparr>pa_refused := refused, pa_next := next\<rparr>) \<and>
    length is \<le> m \<and> distinct is \<and> set is \<subseteq> missing a - waiting a \<and>
    waiting a \<union> set is \<subseteq> waiting (a\<lparr>pa_refused := refused, pa_next := next\<rparr>) \<and>
    (length is < m \<longrightarrow> refused = [] \<and> next = length (pa_received a))"
proof -
  let ?miss = "\<lambda>i. \<not> pa_received a ! i"
  obtain rs js where r: "pa_refused a = rs @ rev js"
    "take_refused m [] a = Ret (map (request_of a) (filter ?miss js), a\<lparr>pa_refused := rs\<rparr>)"
    "length (filter ?miss js) \<le> m" "rs = [] \<or> length (filter ?miss js) = m"
    using take_refused_spec [OF ok, of "[]" m] by (auto simp: Let_def)
  have ok': "assembler_ok (a\<lparr>pa_refused := rs\<rparr>)" using ok r(1) by (auto simp: assembler_ok_def)
  obtain n where n: "pa_next a \<le> n" "n \<le> length (pa_received a)"
    "take_fresh m (map (request_of a) (filter ?miss js)) (a\<lparr>pa_refused := rs\<rparr>) =
       Ret (map (request_of a) (filter ?miss js @ filter ?miss [pa_next a..<n]), a\<lparr>pa_refused := rs, pa_next := n\<rparr>)"
    "length (filter ?miss js) + length (filter ?miss [pa_next a..<n]) \<le> m"
    "n = length (pa_received a) \<or> length (filter ?miss js) + length (filter ?miss [pa_next a..<n]) = m"
    using take_fresh_spec [OF ok', of "map (request_of a) (filter ?miss js)" m] r(3) by (auto simp: Let_def)
  let ?is = "filter ?miss js @ filter ?miss [pa_next a..<n]"
  have js: "\<forall>i\<in>set js. i < pa_next a" "pa_next a \<le> length (pa_received a)" "distinct js" "set js \<inter> set rs = {}"
    using ok r(1) by (auto simp: assembler_ok_def)
  have rs: "\<forall>i\<in>set rs. i < pa_next a" using ok r(1) by (auto simp: assembler_ok_def)
  have "next_requests m a = Ret (map (request_of a) ?is, a\<lparr>pa_refused := rs, pa_next := n\<rparr>)"
    using r(2) n(3) by (simp add: next_requests_def)
  moreover have "assembler_ok (a\<lparr>pa_refused := rs, pa_next := n\<rparr>)" using ok' n(1,2) by (fastforce simp: assembler_ok_def)
  moreover have "distinct ?is" using js(1,3) by auto
  moreover have "set ?is \<subseteq> missing a - waiting a" using js(1,2) n(2) r(1) by (auto simp: missing_def waiting_def)
  moreover have "waiting a \<union> set ?is \<subseteq> waiting (a\<lparr>pa_refused := rs, pa_next := n\<rparr>)"
    using js n(1) r(1) rs by (fastforce simp: waiting_def)
  moreover have "length ?is \<le> m" "length ?is < m \<longrightarrow> rs = [] \<and> n = length (pa_received a)"
    using n(4,5) r(4) by auto
  ultimately show ?thesis by blast
qed

section \<open>Recording blocks\<close>

text \<open>The bytes of block \<open>i\<close>.\<close>

definition block :: "nat \<Rightarrow> bytes \<Rightarrow> bytes" where
  "block i d = take BLOCK_SIZE (drop (i * BLOCK_SIZE) d)"

lemma record_block_at_boundary:
  assumes ok: "assembler_ok a" and "\<not> is_complete a" and i: "i < length (pa_received a)"
    and len: "length data = min (pw_length (pa_work a) - i * BLOCK_SIZE) BLOCK_SIZE"
  shows "record_block (i * BLOCK_SIZE) data a =
    Ret (Inr (a\<lparr>pa_buf := copy_into (pa_buf a) (i * BLOCK_SIZE) data, pa_received := (pa_received a)[i := True]\<rparr>))"
proof -
  have le: "i * BLOCK_SIZE < pw_length (pa_work a)" using ok i by (simp add: assembler_ok_def div_ceil_less)
  have "length data < 2 ^ 32" using len by (simp add: BLOCK_SIZE_def)
  then have u: "as_u32 (length data) = length data" by (rule as_u32_id)
  have fit: "i * BLOCK_SIZE + length data \<le> pw_length (pa_work a)" using le len by linarith
  then show ?thesis
    using assms assembler_ok_block_len [OF ok i] u by (simp add: record_block_def Let_def assembler_ok_def)
qed

lemma record_block_Ret:
  assumes "record_block begin data a = Ret (Inr a')"
  shows "\<exists>i. i = begin div BLOCK_SIZE \<and> i < length (pa_received a) \<and> begin + length data \<le> length (pa_buf a) \<and>
    a' = a\<lparr>pa_buf := copy_into (pa_buf a) begin data, pa_received := (pa_received a)[i := True]\<rparr>"
  using assms by (auto simp: record_block_def Let_def res_iff split: if_splits)

lemma record_block_length:
  assumes "assembler_ok a" "record_block begin data a = Ret (Inr a')"
  shows "length data = min (pw_length (pa_work a) - begin div BLOCK_SIZE * BLOCK_SIZE) BLOCK_SIZE"
proof -
  have "begin div BLOCK_SIZE < length (pa_received a)" using record_block_Ret [OF assms(2)] by auto
  from assembler_ok_block_len [OF assms(1) this] assms(2) show ?thesis
    by (auto simp: record_block_def Let_def res_iff split: if_splits)
qed

lemma assembler_ok_record:
  "assembler_ok a \<Longrightarrow> record_block begin data a = Ret (Inr a') \<Longrightarrow> assembler_ok a'"
  by (drule record_block_Ret) (auto simp: assembler_ok_def length_copy_into)

lemma record_block_panic:
  assumes ok: "assembler_ok a" and u32: "length data < 2 ^ 32"
  shows "record_block begin data a = Panic \<longleftrightarrow>
    \<not> is_complete a \<and> data = [] \<and> begin = pw_length (pa_work a) \<and> begin mod BLOCK_SIZE = 0"
proof -
  let ?L = "pw_length (pa_work a)" and ?i = "begin div BLOCK_SIZE"
  have u: "as_u32 (length data) = length data" using u32 by (rule as_u32_id)
  have L: "?L < 2 ^ 32" "length (pa_buf a) = ?L" "length (pa_received a) = div_ceil ?L BLOCK_SIZE"
    using ok by (simp_all add: assembler_ok_def)
  have le: "?i * BLOCK_SIZE \<le> begin" by simp
  have past: "length (pa_received a) \<le> ?i \<longleftrightarrow> ?L \<le> ?i * BLOCK_SIZE"
    using div_ceil_less [OF BLOCK_SIZE_pos, of ?i ?L] L(3) by linarith
  show ?thesis
  proof (cases "is_complete a \<or> ?L < begin + length data")
    case True
    then show ?thesis using L(1) by (auto simp: record_block_def Let_def u)
  next
    case False
    then have at: "begin \<le> ?L" by simp
    then have "?i * BLOCK_SIZE \<le> ?L" using le by linarith
    then have bl: "block_len a ?i = Ret (min (?L - ?i * BLOCK_SIZE) BLOCK_SIZE)"
      using L(1) by (simp add: block_len_def Let_def)
    have "record_block begin data a = Panic \<longleftrightarrow>
        length data = min (?L - ?i * BLOCK_SIZE) BLOCK_SIZE \<and> ?L \<le> ?i * BLOCK_SIZE"
      using False L(1,2) bl past by (simp add: record_block_def Let_def u)
    also have "\<dots> \<longleftrightarrow> data = [] \<and> ?L = ?i * BLOCK_SIZE"
      using \<open>?i * BLOCK_SIZE \<le> ?L\<close> by (auto simp del: times_div_less_eq_dividend div_times_less_eq_dividend)
    also have "\<dots> \<longleftrightarrow> data = [] \<and> begin = ?L \<and> begin mod BLOCK_SIZE = 0"
      using le at div_mult_mod_eq [of "begin" BLOCK_SIZE] by linarith
    finally show ?thesis using False by auto
  qed
qed

section \<open>The assembler as a machine\<close>

datatype assembler_op = NextRequests nat | ForgetRequests | RefuseRequest nat | RecordBlock nat bytes

text \<open>One call; a call that fails or panics leaves the assembler as it was.\<close>

definition assembler_step :: "assembler_op \<Rightarrow> piece_assembler \<Rightarrow> piece_assembler" where
  "assembler_step op a =
     (case op of
        NextRequests n \<Rightarrow> (case next_requests n a of Ret (_, a') \<Rightarrow> a' | Panic \<Rightarrow> a)
      | ForgetRequests \<Rightarrow> forget_requests a
      | RefuseRequest begin \<Rightarrow> (case refuse_request begin a of Ret a' \<Rightarrow> a' | Panic \<Rightarrow> a)
      | RecordBlock begin data \<Rightarrow> (case record_block begin data a of Ret (Inr a') \<Rightarrow> a' | _ \<Rightarrow> a))"

definition received_set :: "piece_assembler \<Rightarrow> nat set" where
  "received_set a = {i. i < length (pa_received a) \<and> pa_received a ! i}"

lemma assembler_step_ok:
  assumes "assembler_ok a"
  shows "assembler_ok (assembler_step op a) \<and> received_set a \<subseteq> received_set (assembler_step op a) \<and>
    pa_work (assembler_step op a) = pa_work a"
proof (cases op)
  case (NextRequests n)
  then show ?thesis using next_requests_spec [OF assms, of n] by (auto simp: assembler_step_def received_set_def)
next
  case ForgetRequests
  then show ?thesis using assembler_ok_forget [OF assms]
    by (simp add: assembler_step_def forget_requests_def received_set_def)
next
  case (RefuseRequest b)
  then show ?thesis using refuse_request_ok [OF assms, of b] by (auto simp: assembler_step_def received_set_def)
next
  case (RecordBlock b data)
  show ?thesis
  proof (cases "\<exists>a'. record_block b data a = Ret (Inr a')")
    case True
    then obtain a' where a': "record_block b data a = Ret (Inr a')" by blast
    then have "received_set a \<subseteq> received_set a'" "pa_work a' = pa_work a"
      using record_block_Ret [OF a'] by (auto simp: received_set_def nth_list_update)
    then show ?thesis using a' assembler_ok_record [OF assms a'] RecordBlock by (simp add: assembler_step_def)
  next
    case False
    then have "assembler_step op a = a" using RecordBlock by (auto simp: assembler_step_def split: outcome.splits sum.splits)
    then show ?thesis using assms by simp
  qed
qed

interpretation assembler_machine: growing_machine assembler_step assembler_ok received_set
  by unfold_locales (use assembler_step_ok in blast)+

text \<open>Every received block of the buffer is that of \<open>d\<close>.\<close>

definition assembles :: "bytes \<Rightarrow> piece_assembler \<Rightarrow> bool" where
  "assembles d a \<longleftrightarrow> assembler_ok a \<and> length d = pw_length (pa_work a) \<and>
     (\<forall>k<length d. pa_received a ! (k div BLOCK_SIZE) \<longrightarrow> pa_buf a ! k = d ! k)"

fun true_to :: "bytes \<Rightarrow> assembler_op \<Rightarrow> bool" where
  "true_to d (RecordBlock begin data) \<longleftrightarrow> begin mod BLOCK_SIZE = 0 \<and> data = take (length data) (drop begin d)"
| "true_to d _ \<longleftrightarrow> True"

lemma nth_copy_into:
  "pos + length data \<le> length buf \<Longrightarrow> k < length buf \<Longrightarrow>
   copy_into buf pos data ! k = (if pos \<le> k \<and> k < pos + length data then data ! (k - pos) else buf ! k)"
  by (auto simp: copy_into_def nth_append)

lemma assembles_record:
  assumes "assembles d a" "record_block begin data a = Ret (Inr a')" "true_to d (RecordBlock begin data)"
  shows "assembles d a'"
proof -
  let ?i = "begin div BLOCK_SIZE"
  have ok: "assembler_ok a" "length d = pw_length (pa_work a)" "length (pa_buf a) = length d"
    using assms(1) by (auto simp: assembles_def assembler_ok_def)
  have a': "a' = a\<lparr>pa_buf := copy_into (pa_buf a) begin data, pa_received := (pa_received a)[?i := True]\<rparr>"
    "?i < length (pa_received a)" "begin + length data \<le> length (pa_buf a)"
    using record_block_Ret [OF assms(2)] by auto
  have begin': "?i * BLOCK_SIZE = begin" and data: "data = take (length data) (drop begin d)"
    using assms(3) div_mult_mod_eq [of "begin" BLOCK_SIZE] by simp_all
  have len: "length data = min (length d - begin) BLOCK_SIZE"
    using record_block_length [OF ok(1) assms(2)] ok(2) begin' by simp
  have "pa_buf a' ! k = d ! k" if k: "k < length d" "pa_received a' ! (k div BLOCK_SIZE)" for k
  proof (cases "begin \<le> k \<and> k < begin + length data")
    case True
    then have "take (length data) (drop begin d) ! (k - begin) = d ! k"
      using k(1) by (subst nth_take) auto
    then have "data ! (k - begin) = d ! k" by (simp only: data [symmetric])
    then show ?thesis using True a' k(1) ok(3) by (simp add: nth_copy_into)
  next
    case False
    have "k div BLOCK_SIZE \<noteq> ?i"
    proof
      assume eq: "k div BLOCK_SIZE = ?i"
      then have "?i * BLOCK_SIZE \<le> k" "k < ?i * BLOCK_SIZE + BLOCK_SIZE"
        using div_times_less_eq_dividend [of k BLOCK_SIZE] dividend_less_div_times [OF BLOCK_SIZE_pos, of k] by simp_all
      then show False using False begin' len k(1) by linarith
    qed
    then have "pa_buf a ! k = d ! k" using assms(1) k a' by (simp add: assembles_def)
    then show ?thesis using False a' k(1) ok(3) by (auto simp: nth_copy_into)
  qed
  then show ?thesis using assembler_ok_record [OF ok(1) assms(2)] ok(2) a'(1) by (simp add: assembles_def)
qed

lemma assembles_step: "assembles d a \<Longrightarrow> true_to d op \<Longrightarrow> assembles d (assembler_step op a)"
proof (cases op)
  case (NextRequests n)
  assume "assembles d a"
  then show ?thesis using NextRequests next_requests_spec [of a n] by (auto simp: assembler_step_def assembles_def)
next
  case ForgetRequests
  assume "assembles d a"
  then show ?thesis using ForgetRequests assembler_ok_forget [of a]
    by (simp add: assembler_step_def assembles_def forget_requests_def)
next
  case (RefuseRequest b)
  assume "assembles d a"
  then show ?thesis using RefuseRequest refuse_request_ok [of a b] by (auto simp: assembler_step_def assembles_def)
next
  case (RecordBlock b data)
  assume "assembles d a" "true_to d op"
  then show ?thesis using RecordBlock assembles_record [of d a b data]
    by (auto simp: assembler_step_def split: outcome.splits sum.splits)
qed

lemma assembles_run:
  "assembles d a \<Longrightarrow> list_all (true_to d) ops \<Longrightarrow> assembles d (fold assembler_step ops a)"
  by (induction ops arbitrary: a) (auto intro: assembles_step)

lemma assembles_complete:
  assumes "assembles d a" "is_complete a"
  shows "pa_buf a = d"
proof (rule nth_equalityI)
  show "length (pa_buf a) = length d" using assms(1) by (simp add: assembles_def assembler_ok_def)
  fix k assume "k < length (pa_buf a)"
  then have k: "k < length d" using assms(1) by (simp add: assembles_def assembler_ok_def)
  have "k div BLOCK_SIZE * BLOCK_SIZE < length d" using k div_times_less_eq_dividend [of k BLOCK_SIZE] by linarith
  then have "k div BLOCK_SIZE < length (pa_received a)"
    using assms(1) by (simp add: assembles_def assembler_ok_def div_ceil_less)
  then show "pa_buf a ! k = d ! k" using assms k by (simp add: is_complete_def assembles_def list_all_length)
qed

lemma record_block_completes:
  assumes "assembler_ok a" "i < length (pa_received a)" "length d = pw_length (pa_work a)"
  shows "i \<in> received_set (assembler_step (RecordBlock (i * BLOCK_SIZE) (block i d)) a)"
proof (cases "is_complete a")
  case True
  then have "record_block (i * BLOCK_SIZE) (block i d) a = Ret (Inl AlreadyComplete)" by (simp add: record_block_def Let_def)
  then show ?thesis using True assms(2) by (simp add: assembler_step_def received_set_def is_complete_def list_all_length)
next
  case False
  have "length (block i d) = min (pw_length (pa_work a) - i * BLOCK_SIZE) BLOCK_SIZE" using assms(3) by (simp add: block_def)
  from record_block_at_boundary [OF assms(1) False assms(2) this] show ?thesis
    using assms(2) by (simp add: assembler_step_def received_set_def)
qed

lemma assembler_run_work: "assembler_ok a \<Longrightarrow> pa_work (fold assembler_step ops a) = pa_work a"
  by (induction ops arbitrary: a) (auto simp: assembler_step_ok)

lemma assembles_new:
  assumes "pw_length work < 2 ^ 32" "length d = pw_length work"
  shows "assembles d (assembler_new work)"
proof -
  have "k div BLOCK_SIZE < div_ceil (length d) BLOCK_SIZE" if "k < length d" for k
    using le_less_trans [OF div_times_less_eq_dividend that] by (simp add: div_ceil_less)
  then show ?thesis using assembler_ok_new [OF assms(1)] assms(2) by (simp add: assembles_def assembler_new_def)
qed

lemma recorded_run:
  assumes "assembler_ok a" "length d = pw_length (pa_work a)" "RecordBlock (i * BLOCK_SIZE) (block i d) \<in> set ops"
    "i < div_ceil (pw_length (pa_work a)) BLOCK_SIZE"
  shows "i \<in> received_set (fold assembler_step ops a)"
  using assms
proof (induction ops arbitrary: a)
  case (Cons op ops)
  let ?b = "assembler_step op a"
  have b: "assembler_ok ?b" "pa_work ?b = pa_work a" using assembler_step_ok [OF Cons.prems(1), of op] by auto
  show ?case
  proof (cases "op = RecordBlock (i * BLOCK_SIZE) (block i d)")
    case True
    have "i \<in> received_set ?b"
      using record_block_completes [of a i d] Cons.prems True by (auto simp: assembler_ok_def)
    then show ?thesis using assembler_machine.part_run [OF b(1), of ops] by auto
  next
    case False
    then show ?thesis using Cons.IH [OF b(1)] Cons.prems b(2) by simp
  qed
qed simp

lemma matches_no_panic: "matches sha1 work data \<noteq> Panic"
proof (cases "pw_merkle work")
  case (Some mk)
  then show ?thesis using merkle_matches_no_panic by (simp add: matches_def)
qed (simp add: matches_def)

lemma blocks_held_pos: "blocks_held p > 0 \<longleftrightarrow> (\<exists>i<length (pp_received p). pp_received p ! i)"
  by (simp add: blocks_held_def filter_empty_conv) (metis in_set_conv_nth)

lemma into_partial_None: "into_partial a = None \<longleftrightarrow> received_set a = {}"
  by (auto simp: into_partial_def Let_def blocks_held_pos received_set_def)

lemma into_partial_Some:
  assumes ok: "assembler_ok a" and "into_partial a = Some q"
  shows "from_parts (pp_data q) (pp_received q) = Some q \<and>
    pa_buf (assembler_resume (pa_work a) q) = pa_buf a \<and>
    pa_received (assembler_resume (pa_work a) q) = pa_received a \<and>
    missing (assembler_resume (pa_work a) q) = missing a"
proof -
  have q: "q = \<lparr>pp_data = pa_buf a, pp_received = pa_received a\<rparr>" "\<exists>i<length (pa_received a). pa_received a ! i"
    using assms(2) by (auto simp: into_partial_def Let_def blocks_held_pos split: if_splits)
  have "from_parts (pa_buf a) (pa_received a) = Some q"
    using q ok by (simp add: from_parts_def assembler_ok_def list_ex_length)
  moreover have "assembler_resume (pa_work a) q = assembler_new (pa_work a)\<lparr>pa_buf := pa_buf a, pa_received := pa_received a\<rparr>"
    using ok q(1) by (simp add: assembler_resume_def assembler_new_def assembler_ok_def Let_def)
  ultimately show ?thesis using q(1) by (simp add: missing_def)
qed

section \<open>Properties\<close>

text \<open>
  C1: Only a complete and verified piece leaves the assembler. Whatever was done to it
  before, \<open>finish\<close> returns bytes exactly when every block has arrived and the buffer passes
  the check of the piece (SHA-1, or its merkle tree), and the bytes are that buffer, of the
  length of the piece; it never panics.
\<close>

theorem finish_trust_boundary:
  assumes "pw_length work < 2 ^ 32"
  shows "let a = fold assembler_step ops (assembler_resume work p)
    in finish sha1 a \<noteq> Panic \<and>
       (\<forall>d. finish sha1 a = Ret (Inr d) \<longleftrightarrow>
          (is_complete a \<and> matches sha1 work d = Ret True \<and> d = pa_buf a \<and> length d = pw_length work))"
proof -
  let ?a = "fold assembler_step ops (assembler_resume work p)"
  have ok: "assembler_ok ?a" by (intro assembler_machine.inv_run assembler_ok_resume assms(1))
  have "pa_work ?a = work"
    using assembler_run_work [OF assembler_ok_resume [OF assms(1), of p]]
    by (simp add: assembler_resume_def assembler_new_def Let_def)
  with ok show ?thesis using matches_no_panic [of sha1 work "pa_buf ?a"]
    by (auto simp: Let_def finish_def res_iff assembler_ok_def)
qed

text \<open>
  C9: The blocks may come in any order. Over any sequence of calls in which the recorded
  blocks are aligned blocks of the piece \<open>d\<close> (repeated, interleaved with new requests,
  refusals and forgotten requests) and in which each block is recorded at least once, the
  assembler ends complete with exactly \<open>d\<close> in its buffer, and \<open>finish\<close> returns \<open>d\<close> when \<open>d\<close>
  passes the piece's check.
\<close>

theorem assemble_any_order:
  assumes "length d = pw_length work" "pw_length work < 2 ^ 32" "list_all (true_to d) ops"
    and all: "\<forall>i < div_ceil (pw_length work) BLOCK_SIZE. RecordBlock (i * BLOCK_SIZE) (block i d) \<in> set ops"
    and check: "matches sha1 work d = Ret True"
  shows "is_complete (fold assembler_step ops (assembler_new work)) \<and>
    finish sha1 (fold assembler_step ops (assembler_new work)) = Ret (Inr d)"
proof -
  let ?a = "fold assembler_step ops (assembler_new work)"
  have ok: "assembler_ok (assembler_new work)" by (rule assembler_ok_new [OF assms(2)])
  have a: "assembles d ?a" by (rule assembles_run [OF assembles_new [OF assms(2,1)] assms(3)])
  have w: "pa_work ?a = work" using assembler_run_work [OF ok] by (simp add: assembler_new_def)
  have "i \<in> received_set ?a" if "i < length (pa_received ?a)" for i
    using recorded_run [OF ok _ all [rule_format]] that a w assms(1) by (simp add: assembles_def assembler_ok_def assembler_new_def)
  then have "is_complete ?a" by (auto simp: is_complete_def list_all_length received_set_def)
  with assembles_complete [OF a] check w show ?thesis by (simp add: finish_def)
qed

text \<open>
  C38: Requests are never wasted. In every reachable state \<open>next_requests\<close> returns without
  panic at most as many requests as asked for, each for a different whole block of the
  piece that has not arrived and that is not already being waited for; afterwards all of
  them are waited for, and if it returned fewer than asked for, every missing block is.
\<close>

theorem next_requests_fresh:
  assumes "pw_length work < 2 ^ 32"
  shows "let a = fold assembler_step ops (assembler_resume work p)
    in \<exists>is a'. next_requests m a = Ret (map (request_of a) is, a') \<and> length is \<le> m \<and> distinct is \<and>
       set is \<subseteq> missing a - waiting a \<and> waiting a \<union> set is \<subseteq> waiting a' \<and>
       (length is < m \<longrightarrow> missing a \<subseteq> waiting a')"
proof -
  let ?a = "fold assembler_step ops (assembler_resume work p)"
  have "assembler_ok ?a" by (intro assembler_machine.inv_run assembler_ok_resume assms)
  from next_requests_spec [OF this, of m] obtain "is" refused "next" where r:
    "next_requests m ?a = Ret (map (request_of ?a) is, ?a\<lparr>pa_refused := refused, pa_next := next\<rparr>)"
    "length is \<le> m" "distinct is" "set is \<subseteq> missing ?a - waiting ?a"
    "waiting ?a \<union> set is \<subseteq> waiting (?a\<lparr>pa_refused := refused, pa_next := next\<rparr>)"
    "length is < m \<longrightarrow> refused = [] \<and> next = length (pa_received ?a)" by blast
  from r(6) have "length is < m \<longrightarrow> missing ?a \<subseteq> waiting (?a\<lparr>pa_refused := refused, pa_next := next\<rparr>)"
    by (auto simp: missing_def waiting_def)
  with r show ?thesis unfolding Let_def by blast
qed

text \<open>
  C24: The one input that makes recording a block panic. In every reachable state, and for
  every offset and every payload, \<open>record_block\<close> indexes out of range exactly when the
  piece is not complete, its length is a multiple of the block size, and the payload is
  empty with the offset at the very end of the piece: such a block passes both length
  checks and then marks a block that does not exist.
\<close>

theorem record_block_panics_exactly:
  assumes "pw_length work < 2 ^ 32" "length data < 2 ^ 32"
  shows "let a = fold assembler_step ops (assembler_resume work p)
    in record_block begin data a = Panic \<longleftrightarrow>
       (\<not> is_complete a \<and> data = [] \<and> begin = pw_length work \<and> pw_length work mod BLOCK_SIZE = 0)"
proof -
  let ?a = "fold assembler_step ops (assembler_resume work p)"
  have ok: "assembler_ok ?a" by (intro assembler_machine.inv_run assembler_ok_resume assms(1))
  have "pa_work ?a = work"
    using assembler_run_work [OF assembler_ok_resume [OF assms(1), of p]]
    by (simp add: assembler_resume_def assembler_new_def Let_def)
  then show ?thesis using record_block_panic [OF ok assms(2), of "begin"] by (auto simp: Let_def)
qed

text \<open>
  C36: Handing a piece on loses nothing. What \<open>into_partial\<close> saves of a reachable assembler
  is accepted by \<open>from_parts\<close>, and resuming from it gives an assembler with the same
  buffer and the same received blocks, none of them requested again; nothing is saved
  exactly when nothing has arrived.
\<close>

theorem partial_roundtrip:
  assumes "pw_length work < 2 ^ 32"
  shows "let a = fold assembler_step ops (assembler_resume work p)
    in (into_partial a = None \<longleftrightarrow> received_set a = {}) \<and>
       (\<forall>q. into_partial a = Some q \<longrightarrow>
          from_parts (pp_data q) (pp_received q) = Some q \<and>
          pa_buf (assembler_resume work q) = pa_buf a \<and> pa_received (assembler_resume work q) = pa_received a \<and>
          missing (assembler_resume work q) = missing a)"
proof -
  let ?a = "fold assembler_step ops (assembler_resume work p)"
  have ok: "assembler_ok ?a" by (intro assembler_machine.inv_run assembler_ok_resume assms(1))
  have w: "pa_work ?a = work"
    using assembler_run_work [OF assembler_ok_resume [OF assms(1), of p]]
    by (simp add: assembler_resume_def assembler_new_def Let_def)
  show ?thesis
    using into_partial_None [of ?a] into_partial_Some [OF ok] unfolding Let_def w by blast
qed

section \<open>Witnesses\<close>

text \<open>A piece of three bytes, with a stand-in for SHA-1 that keeps the first twenty bytes.\<close>

definition sample_sha1 :: "bytes \<Rightarrow> bytes" where
  "sample_sha1 d = take 20 (d @ replicate 20 0)"

definition sample_work :: piece_work where
  "sample_work = \<lparr>pw_index = 0, pw_hash = sample_sha1 [1, 2, 3], pw_length = 3, pw_merkle = None\<rparr>"

definition sample_run :: piece_assembler where
  "sample_run = fold assembler_step [RecordBlock 0 [1, 2, 3]] (assembler_resume sample_work \<lparr>pp_data = [], pp_received = []\<rparr>)"

lemma sample_run_eval:
  "sample_run = \<lparr>pa_work = sample_work, pa_buf = [1, 2, 3], pa_received = [True], pa_next = 0, pa_refused = []\<rparr>"
  by (simp add: sample_run_def sample_work_def assembler_resume_def assembler_new_def assembler_step_def record_block_def
    block_len_def is_complete_def as_u32_def div_ceil_def BLOCK_SIZE_def copy_into_def Let_def)

lemma sample_missing: "missing sample_run = {}"
  unfolding missing_def sample_run_eval by (auto simp: nth_Cons' split: if_splits)

theorem finish_trust_boundary_witness: "finish sample_sha1 sample_run = Ret (Inr [1, 2, 3])"
  using finish_trust_boundary [of sample_work "[RecordBlock 0 [1, 2, 3]]" "\<lparr>pp_data = [], pp_received = []\<rparr>" sample_sha1]
  unfolding sample_run_def [symmetric] Let_def sample_run_eval
  by (simp add: sample_work_def is_complete_def matches_def)

theorem assemble_any_order_witness:
  "finish sample_sha1 (fold assembler_step [NextRequests 4, RecordBlock 0 [1, 2, 3]] (assembler_new sample_work)) = Ret (Inr [1, 2, 3])"
  using assemble_any_order [of "[1, 2, 3]" sample_work "[NextRequests 4, RecordBlock 0 [1, 2, 3]]" sample_sha1]
  by (simp add: sample_work_def matches_def block_def BLOCK_SIZE_def div_ceil_def)

theorem next_requests_fresh_witness:
  "\<exists>is a'. next_requests 4 sample_run = Ret (map (request_of sample_run) is, a') \<and> set is \<subseteq> {} \<and> missing sample_run = {}"
  using next_requests_fresh [of sample_work "[RecordBlock 0 [1, 2, 3]]" "\<lparr>pp_data = [], pp_received = []\<rparr>" 4]
  unfolding sample_run_def [symmetric] Let_def sample_missing by (auto simp: sample_work_def)

text \<open>A piece of one whole block, and the empty block at its end.\<close>

theorem record_block_panics_exactly_witness:
  "record_block 16384 [] (assembler_new \<lparr>pw_index = 0, pw_hash = [], pw_length = 16384, pw_merkle = None\<rparr>) = Panic"
  using record_block_panics_exactly [of "\<lparr>pw_index = 0, pw_hash = [], pw_length = 16384, pw_merkle = None\<rparr>"
      "[]" "[]" "\<lparr>pp_data = [], pp_received = []\<rparr>" 16384]
  by (simp add: assembler_resume_def assembler_new_def is_complete_def div_ceil_def BLOCK_SIZE_def Let_def)

theorem partial_roundtrip_witness:
  "\<exists>q. into_partial sample_run = Some q \<and> pa_buf (assembler_resume sample_work q) = [1, 2, 3] \<and>
     missing (assembler_resume sample_work q) = {}"
proof -
  have "into_partial sample_run \<noteq> None"
    by (simp add: into_partial_def sample_run_eval blocks_held_def Let_def)
  then obtain q where q: "into_partial sample_run = Some q" by blast
  have "pa_buf sample_run = [1, 2, 3]" by (simp add: sample_run_eval)
  then show ?thesis
    using partial_roundtrip [of sample_work "[RecordBlock 0 [1, 2, 3]]" "\<lparr>pp_data = [], pp_received = []\<rparr>"] q
    unfolding sample_run_def [symmetric] Let_def sample_missing by (auto simp: sample_work_def)
qed

end
