(* ===== verification/Work_Queue.thy ===== *)
theory Work_Queue
  imports Assembler "HOL-Library.Product_Lexorder"
begin

text \<open>
  The queue of pieces the workers share, \<^verbatim>\<open>src/src/downloader/queue.rs\<close>: which pieces are
  pending, claimed and done, the stash of partly downloaded pieces, and the choice of the
  next piece for a peer. Every method holds the queue's locks from its first to its last
  line, so it is one step of a machine. Hash maps are association lists; their iteration
  order does not matter, because the rank of a piece ends in its index.
\<close>

section \<open>The code\<close>

datatype order = RarestFirst | Sequential

datatype take = TakePiece piece_work | NothingForThisPeer | TakeDone

record work_queue =
  wq_pending :: "piece_work list"
  wq_claimed :: "(nat \<times> piece_work) list"
  wq_done :: "nat set"
  wq_partial :: "(nat \<times> partial_piece) list"
  wq_availability :: "u32 list"
  wq_order :: order
  wq_preferred :: "nat set"

definition MAX_STASHED_BYTES :: nat where
  "MAX_STASHED_BYTES = 64 * 1024 * 1024"

definition queue_new :: "piece_work list \<Rightarrow> nat \<Rightarrow> work_queue" where
  "queue_new pieces total_pieces =
     \<lparr>wq_pending = pieces, wq_claimed = [], wq_done = {}, wq_partial = [],
      wq_availability = replicate total_pieces 0, wq_order = RarestFirst, wq_preferred = {}\<rparr>"

definition with_preferred :: "nat set \<Rightarrow> work_queue \<Rightarrow> work_queue" where
  "with_preferred preferred q = q\<lparr>wq_preferred := preferred\<rparr>"

definition with_order :: "order \<Rightarrow> work_queue \<Rightarrow> work_queue" where
  "with_order ord q = q\<lparr>wq_order := ord\<rparr>"

definition rank :: "work_queue \<Rightarrow> piece_work \<Rightarrow> nat \<times> u32 \<times> nat" where
  "rank q w =
     (let later = (if pw_index w \<in> wq_preferred q then 0 else 1)
      in case wq_order q of
           RarestFirst \<Rightarrow>
             (later, if pw_index w < length (wq_availability q) then wq_availability q ! pw_index w else 0, pw_index w)
         | Sequential \<Rightarrow> (later, 0, pw_index w))"

definition take_next :: "(nat \<Rightarrow> bool) \<Rightarrow> bool \<Rightarrow> work_queue \<Rightarrow> take \<times> work_queue" where
  "take_next has endgame_duplicates q =
     (case min_by_key (\<lambda>(i, w). rank q w) (filter (\<lambda>(i, w). has (pw_index w)) (enumerate 0 (wq_pending q))) of
        Some (i, _) \<Rightarrow>
          let work = wq_pending q ! i
          in (TakePiece work, q\<lparr>wq_pending := swap_remove i (wq_pending q),
                                wq_claimed := al_insert (pw_index work) work (wq_claimed q)\<rparr>)
      | None \<Rightarrow>
          let otherwise = if wq_pending q = [] \<and> wq_claimed q = [] then TakeDone else NothingForThisPeer
          in if endgame_duplicates \<and> wq_pending q = [] then
               case min_by_key (rank q) (filter (\<lambda>w. has (pw_index w)) (map snd (wq_claimed q))) of
                 Some work \<Rightarrow> (TakePiece work, q)
               | None \<Rightarrow> (otherwise, q)
             else (otherwise, q))"

definition take_for :: "(nat \<Rightarrow> bool) \<Rightarrow> work_queue \<Rightarrow> take \<times> work_queue" where
  "take_for has q = take_next has True q"

definition piece_taken :: "take \<Rightarrow> piece_work option" where
  "piece_taken t = (case t of TakePiece work \<Rightarrow> Some work | _ \<Rightarrow> None)"

definition take_pending_for :: "(nat \<Rightarrow> bool) \<Rightarrow> work_queue \<Rightarrow> piece_work option \<times> work_queue" where
  "take_pending_for has q = (case take_next has False q of (t, q') \<Rightarrow> (piece_taken t, q'))"

definition pop :: "work_queue \<Rightarrow> piece_work option \<times> work_queue" where
  "pop q = (case take_for (\<lambda>_. True) q of (t, q') \<Rightarrow> (piece_taken t, q'))"

definition push_back :: "piece_work \<Rightarrow> work_queue \<Rightarrow> work_queue" where
  "push_back work q =
     (if pw_index work \<in> wq_done q then q
      else let q1 = q\<lparr>wq_claimed := al_remove (pw_index work) (wq_claimed q)\<rparr>
           in if list_ex (\<lambda>w. pw_index w = pw_index work) (wq_pending q1) then q1
              else q1\<lparr>wq_pending := wq_pending q1 @ [work]\<rparr>)"

definition partial_size :: "partial_piece \<Rightarrow> nat" where
  "partial_size p = length (pp_data p)"

definition stash_partial :: "nat \<Rightarrow> partial_piece \<Rightarrow> work_queue \<Rightarrow> work_queue" where
  "stash_partial index p q =
     (if index \<in> wq_done q then q
      else let held = sum_list (map (partial_size \<circ> snd) (filter (\<lambda>e. fst e \<noteq> index) (wq_partial q)))
           in if held + partial_size p > MAX_STASHED_BYTES then q
              else case map_of (wq_partial q) index of
                     Some existing \<Rightarrow> if blocks_held existing \<ge> blocks_held p then q
                                      else q\<lparr>wq_partial := al_insert index p (wq_partial q)\<rparr>
                   | None \<Rightarrow> q\<lparr>wq_partial := al_insert index p (wq_partial q)\<rparr>)"

definition take_partial :: "nat \<Rightarrow> work_queue \<Rightarrow> partial_piece option \<times> work_queue" where
  "take_partial index q = (map_of (wq_partial q) index, q\<lparr>wq_partial := al_remove index (wq_partial q)\<rparr>)"

definition partials :: "work_queue \<Rightarrow> (nat \<times> partial_piece) list" where
  "partials q = sort_key fst (wq_partial q)"

definition is_wanted :: "nat \<Rightarrow> work_queue \<Rightarrow> bool" where
  "is_wanted index q \<longleftrightarrow> index \<notin> wq_done q \<and>
     (index \<in> fst ` set (wq_claimed q) \<or> list_ex (\<lambda>w. pw_index w = index) (wq_pending q))"

definition any_wanted_in :: "bool list \<Rightarrow> work_queue \<Rightarrow> bool" where
  "any_wanted_in has q =
     (let held = (\<lambda>i. i < length has \<and> has ! i)
      in list_ex (\<lambda>w. held (pw_index w)) (wq_pending q) \<or>
         list_ex (\<lambda>(i, _). i \<notin> wq_done q \<and> held i) (wq_claimed q))"

definition mark_done :: "nat \<Rightarrow> work_queue \<Rightarrow> bool \<times> work_queue" where
  "mark_done index q =
     (index \<notin> wq_done q,
      q\<lparr>wq_done := insert index (wq_done q), wq_claimed := al_remove index (wq_claimed q),
        wq_pending := filter (\<lambda>w. pw_index w \<noteq> index) (wq_pending q),
        wq_partial := al_remove index (wq_partial q)\<rparr>)"

definition is_done :: "nat \<Rightarrow> work_queue \<Rightarrow> bool" where
  "is_done index q \<longleftrightarrow> index \<in> wq_done q"

definition queue_is_empty :: "work_queue \<Rightarrow> bool" where
  "queue_is_empty q \<longleftrightarrow> wq_pending q = [] \<and> wq_claimed q = []"

definition queue_len :: "work_queue \<Rightarrow> nat" where
  "queue_len q = length (wq_pending q) + length (wq_claimed q)"

definition in_endgame :: "work_queue \<Rightarrow> bool" where
  "in_endgame q \<longleftrightarrow> wq_pending q = [] \<and> wq_claimed q \<noteq> []"

text \<open>The counts are \<open>u32\<close>; a release build wraps.\<close>

definition note_have :: "nat \<Rightarrow> work_queue \<Rightarrow> work_queue" where
  "note_have i q =
     (if i < length (wq_availability q)
      then q\<lparr>wq_availability := (wq_availability q)[i := wq_availability q ! i + 1]\<rparr> else q)"

fun count_bits :: "u32 list \<Rightarrow> bool list \<Rightarrow> u32 list" where
  "count_bits (c # cs) (h # hs) = (if h then c + 1 else c) # count_bits cs hs"
| "count_bits cs _ = cs"

definition note_bitfield :: "bool list \<Rightarrow> work_queue \<Rightarrow> work_queue" where
  "note_bitfield have_bits q = q\<lparr>wq_availability := count_bits (wq_availability q) have_bits\<rparr>"

definition total_pieces :: "work_queue \<Rightarrow> nat" where
  "total_pieces q = length (wq_availability q)"

section \<open>The queue as a machine\<close>

datatype queue_op =
    OpTake "nat \<Rightarrow> bool" bool
  | OpPushBack piece_work
  | OpStash nat partial_piece
  | OpTakePartial nat
  | OpMarkDone nat
  | OpNoteHave nat
  | OpNoteBitfield "bool list"

definition queue_step :: "queue_op \<Rightarrow> work_queue \<Rightarrow> work_queue" where
  "queue_step op q =
     (case op of
        OpTake has dup \<Rightarrow> snd (take_next has dup q)
      | OpPushBack work \<Rightarrow> push_back work q
      | OpStash i p \<Rightarrow> stash_partial i p q
      | OpTakePartial i \<Rightarrow> snd (take_partial i q)
      | OpMarkDone i \<Rightarrow> snd (mark_done i q)
      | OpNoteHave i \<Rightarrow> note_have i q
      | OpNoteBitfield h \<Rightarrow> note_bitfield h q)"

text \<open>The pieces still to be fetched.\<close>

definition todo :: "work_queue \<Rightarrow> nat set" where
  "todo q = pw_index ` set (wq_pending q) \<union> fst ` set (wq_claimed q)"

definition stashed_bytes :: "work_queue \<Rightarrow> nat" where
  "stashed_bytes q = sum_list (map (partial_size \<circ> snd) (wq_partial q))"

definition queue_ok :: "work_queue \<Rightarrow> bool" where
  "queue_ok q \<longleftrightarrow>
     distinct (map pw_index (wq_pending q)) \<and> distinct (map fst (wq_claimed q)) \<and>
     (\<forall>(i, w)\<in>set (wq_claimed q). pw_index w = i) \<and>
     pw_index ` set (wq_pending q) \<inter> fst ` set (wq_claimed q) = {} \<and>
     todo q \<inter> wq_done q = {} \<and>
     distinct (map fst (wq_partial q)) \<and> fst ` set (wq_partial q) \<inter> wq_done q = {} \<and>
     stashed_bytes q \<le> MAX_STASHED_BYTES"

lemma take_next_pending:
  assumes "w0 \<in> set (wq_pending q)" "has (pw_index w0)"
  obtains i where "i < length (wq_pending q)" "has (pw_index (wq_pending q ! i))"
    "\<forall>w\<in>set (wq_pending q). has (pw_index w) \<longrightarrow> rank q (wq_pending q ! i) \<le> rank q w"
    "take_next has dup q = (TakePiece (wq_pending q ! i), q\<lparr>wq_pending := swap_remove i (wq_pending q),
       wq_claimed := al_insert (pw_index (wq_pending q ! i)) (wq_pending q ! i) (wq_claimed q)\<rparr>)"
proof -
  let ?offered = "filter (\<lambda>(i, w). has (pw_index w)) (enumerate 0 (wq_pending q))"
  have mem: "(i, w) \<in> set ?offered \<longleftrightarrow> i < length (wq_pending q) \<and> w = wq_pending q ! i \<and> has (pw_index w)" for i w
    by (auto simp: in_set_enumerate_eq)
  obtain k where "k < length (wq_pending q)" "wq_pending q ! k = w0" using assms(1) by (auto simp: in_set_conv_nth)
  then have "(k, w0) \<in> set ?offered" using mem assms(2) by blast
  then have "?offered \<noteq> []" by (metis empty_iff empty_set)
  then obtain i w where m: "min_by_key (\<lambda>(i, w). rank q w) ?offered = Some (i, w)"
    by (metis min_by_key_None not_None_eq surj_pair)
  from min_by_key_Some [OF m] mem have i: "i < length (wq_pending q)" "w = wq_pending q ! i" "has (pw_index w)"
    and least: "\<forall>(j, v)\<in>set ?offered. rank q w \<le> rank q v" by auto
  have "\<forall>v\<in>set (wq_pending q). has (pw_index v) \<longrightarrow> rank q w \<le> rank q v"
  proof (intro ballI impI)
    fix v assume "v \<in> set (wq_pending q)" "has (pw_index v)"
    then obtain j where "(j, v) \<in> set ?offered" using mem by (metis in_set_conv_nth)
    then show "rank q w \<le> rank q v" using least by blast
  qed
  then show thesis using that [of i] i m by (simp add: take_next_def Let_def)
qed

lemma take_next_none_pending:
  assumes "\<forall>w\<in>set (wq_pending q). \<not> has (pw_index w)"
  shows "take_next has dup q =
    (let otherwise = if wq_pending q = [] \<and> wq_claimed q = [] then TakeDone else NothingForThisPeer
     in if dup \<and> wq_pending q = [] then
          case min_by_key (rank q) (filter (\<lambda>w. has (pw_index w)) (map snd (wq_claimed q))) of
            Some work \<Rightarrow> (TakePiece work, q)
          | None \<Rightarrow> (otherwise, q)
        else (otherwise, q))"
proof -
  have "filter (\<lambda>(i, w). has (pw_index w)) (enumerate 0 (wq_pending q)) = []"
    using assms by (auto simp: filter_empty_conv in_set_enumerate_eq)
  then show ?thesis by (simp only: take_next_def min_by_key.simps option.case)
qed

lemma queue_ok_take: "queue_ok q \<Longrightarrow> queue_ok (snd (take_next has dup q)) \<and> todo (snd (take_next has dup q)) = todo q"
proof (cases "\<exists>w\<in>set (wq_pending q). has (pw_index w)")
  case True
  assume ok: "queue_ok q"
  from True obtain w0 where "w0 \<in> set (wq_pending q)" "has (pw_index w0)" by blast
  then obtain i where i: "i < length (wq_pending q)"
    "take_next has dup q = (TakePiece (wq_pending q ! i), q\<lparr>wq_pending := swap_remove i (wq_pending q),
       wq_claimed := al_insert (pw_index (wq_pending q ! i)) (wq_pending q ! i) (wq_claimed q)\<rparr>)"
    by (rule take_next_pending)
  have sr: "distinct (map pw_index (swap_remove i (wq_pending q)))"
    "pw_index ` set (swap_remove i (wq_pending q)) = pw_index ` set (wq_pending q) - {pw_index (wq_pending q ! i)}"
    using swap_remove_distinct [OF i(1), of pw_index] ok by (simp_all add: queue_ok_def)
  have mem: "pw_index (wq_pending q ! i) \<in> pw_index ` set (wq_pending q)" using i(1) by simp
  then have td: "todo (snd (take_next has dup q)) = todo q" using sr(2) i(2) by (auto simp: todo_def)
  have "\<forall>(j, w)\<in>set (al_insert (pw_index (wq_pending q ! i)) (wq_pending q ! i) (wq_claimed q)). pw_index w = j"
    using ok by (auto simp: al_insert_def queue_ok_def)
  then have "queue_ok (snd (take_next has dup q))"
    using ok sr i(2) td unfolding queue_ok_def by (auto simp: stashed_bytes_def)
  with td show ?thesis by simp
next
  case False
  assume "queue_ok q"
  then show ?thesis using False
    by (auto simp: take_next_none_pending Let_def split: option.splits)
qed

lemma queue_ok_push_back:
  "queue_ok q \<Longrightarrow> queue_ok (push_back work q) \<and>
   todo (push_back work q) = (if pw_index work \<in> wq_done q then todo q else insert (pw_index work) (todo q))"
proof (cases "pw_index work \<in> wq_done q")
  case False
  assume ok: "queue_ok q"
  let ?q1 = "q\<lparr>wq_claimed := al_remove (pw_index work) (wq_claimed q)\<rparr>"
  have ok1: "queue_ok ?q1" using ok by (auto simp: queue_ok_def todo_def stashed_bytes_def al_remove_def distinct_map_filter)
  show ?thesis
  proof (cases "list_ex (\<lambda>w. pw_index w = pw_index work) (wq_pending q)")
    case True
    then have "push_back work q = ?q1" using False by (simp add: push_back_def Let_def)
    moreover from True obtain w where "w \<in> set (wq_pending q)" "pw_index w = pw_index work"
      by (auto simp: list_ex_iff)
    then have "pw_index work \<in> pw_index ` set (wq_pending q)" by (simp only: rev_image_eqI)
    ultimately show ?thesis using ok1 False unfolding todo_def by auto
  next
    case no: False
    then have "push_back work q = ?q1\<lparr>wq_pending := wq_pending q @ [work]\<rparr>" using False by (simp add: push_back_def Let_def)
    then show ?thesis using ok1 no False by (auto simp: queue_ok_def todo_def stashed_bytes_def list_ex_iff)
  qed
qed (simp add: push_back_def)

lemma stash_partial_result:
  "stash_partial index p q = q \<or>
   index \<notin> wq_done q \<and> stash_partial index p q = q\<lparr>wq_partial := al_insert index p (wq_partial q)\<rparr> \<and>
   sum_list (map (partial_size \<circ> snd) (al_insert index p (wq_partial q))) \<le> MAX_STASHED_BYTES"
  by (auto simp: stash_partial_def Let_def al_insert_def not_less add.commute split: option.splits)

lemma queue_ok_stash: "queue_ok q \<Longrightarrow> queue_ok (stash_partial i p q) \<and> todo (stash_partial i p q) = todo q"
  using stash_partial_result [of i p q]
  by (elim disjE) (auto simp: queue_ok_def todo_def stashed_bytes_def)

lemma stashed_al_remove: "sum_list (map (partial_size \<circ> snd) (al_remove i m)) \<le> sum_list (map (partial_size \<circ> snd) m)"
  by (induction m) (auto simp: al_remove_def)

lemma queue_ok_take_partial:
  "queue_ok q \<Longrightarrow> queue_ok (snd (take_partial i q)) \<and> todo (snd (take_partial i q)) = todo q"
  using stashed_al_remove [of i "wq_partial q"]
  by (auto simp: take_partial_def queue_ok_def todo_def stashed_bytes_def)

lemma queue_ok_mark_done:
  "queue_ok q \<Longrightarrow> queue_ok (snd (mark_done i q)) \<and> todo (snd (mark_done i q)) = todo q - {i}"
  using stashed_al_remove [of i "wq_partial q"]
  by (auto simp: mark_done_def queue_ok_def todo_def stashed_bytes_def distinct_map_filter al_remove_def)

lemma queue_ok_note:
  "queue_ok q \<Longrightarrow> queue_ok (note_have i q) \<and> todo (note_have i q) = todo q"
  "queue_ok q \<Longrightarrow> queue_ok (note_bitfield h q) \<and> todo (note_bitfield h q) = todo q"
  by (auto simp: note_have_def note_bitfield_def queue_ok_def todo_def stashed_bytes_def)

section \<open>The abstract queue\<close>

text \<open>What the queue promises: a set of pieces to do and a set of pieces done.\<close>

definition abs_queue :: "work_queue \<Rightarrow> nat set \<times> nat set" where
  "abs_queue q = (todo q, wq_done q)"

fun abs_step :: "queue_op \<Rightarrow> nat set \<times> nat set \<Rightarrow> nat set \<times> nat set" where
  "abs_step (OpPushBack work) (T, D) = (if pw_index work \<in> D then T else insert (pw_index work) T, D)"
| "abs_step (OpMarkDone i) (T, D) = (T - {i}, insert i D)"
| "abs_step _ s = s"

lemma queue_step_refines:
  assumes "queue_ok q"
  shows "queue_ok (queue_step op q) \<and> abs_queue (queue_step op q) = abs_step op (abs_queue q)"
proof (cases op)
  case (OpTake has dup)
  have "wq_done (snd (take_next has dup q)) = wq_done q"
    by (auto simp: take_next_def Let_def split: option.splits)
  then show ?thesis using queue_ok_take [OF assms] OpTake by (simp add: queue_step_def abs_queue_def)
next
  case (OpPushBack w)
  have "wq_done (push_back w q) = wq_done q" by (auto simp: push_back_def Let_def)
  then show ?thesis using queue_ok_push_back [OF assms] OpPushBack by (simp add: queue_step_def abs_queue_def)
next
  case (OpStash i p)
  have "wq_done (stash_partial i p q) = wq_done q" using stash_partial_result [of i p q] by auto
  then show ?thesis using queue_ok_stash [OF assms] OpStash by (simp add: queue_step_def abs_queue_def)
next
  case (OpTakePartial i)
  then show ?thesis using queue_ok_take_partial [OF assms] by (simp add: queue_step_def abs_queue_def take_partial_def)
next
  case (OpMarkDone i)
  then show ?thesis using queue_ok_mark_done [OF assms] by (simp add: queue_step_def abs_queue_def mark_done_def)
next
  case (OpNoteHave i)
  then show ?thesis using queue_ok_note(1) [OF assms] by (simp add: queue_step_def abs_queue_def note_have_def)
next
  case (OpNoteBitfield h)
  then show ?thesis using queue_ok_note(2) [OF assms] by (simp add: queue_step_def abs_queue_def note_bitfield_def)
qed

interpretation queue_machine: growing_machine queue_step queue_ok "\<lambda>q. todo q \<union> wq_done q"
proof
  fix s op assume ok: "queue_ok s"
  then show "queue_ok (queue_step op s)" using queue_step_refines by blast
  show "todo s \<union> wq_done s \<subseteq> todo (queue_step op s) \<union> wq_done (queue_step op s)"
    using queue_step_refines [OF ok, of op] by (cases op) (auto simp: abs_queue_def split: if_splits)
qed

lemma queue_run_refines:
  "queue_ok q \<Longrightarrow> abs_queue (fold queue_step ops q) = fold abs_step ops (abs_queue q)"
  by (induction ops arbitrary: q) (auto simp: queue_step_refines)

lemma queue_ok_new: "distinct (map pw_index pieces) \<Longrightarrow> queue_ok (queue_new pieces n)"
  by (simp add: queue_ok_def queue_new_def todo_def stashed_bytes_def)

lemma queue_ok_with: "queue_ok (with_order ord q) = queue_ok q" "queue_ok (with_preferred P q) = queue_ok q"
  by (simp_all add: queue_ok_def with_order_def with_preferred_def todo_def stashed_bytes_def)

lemma card_todo: "queue_ok q \<Longrightarrow> card (todo q) = queue_len q"
proof -
  assume ok: "queue_ok q"
  have "card (todo q) = card (pw_index ` set (wq_pending q)) + card (fst ` set (wq_claimed q))"
    using ok unfolding todo_def queue_ok_def by (intro card_Un_disjoint) auto
  also have "card (pw_index ` set (wq_pending q)) = length (wq_pending q)"
    using ok distinct_card [of "map pw_index (wq_pending q)"] by (simp add: queue_ok_def)
  also have "card (fst ` set (wq_claimed q)) = length (wq_claimed q)"
    using ok distinct_card [of "map fst (wq_claimed q)"] by (simp add: queue_ok_def)
  finally show ?thesis by (simp add: queue_len_def)
qed

section \<open>The choice of a piece\<close>

definition works :: "work_queue \<Rightarrow> piece_work set" where
  "works q = set (wq_pending q) \<union> snd ` set (wq_claimed q)"

text \<open>The piece handed out: the least of the pending ones on offer, or in endgame of the claimed ones.\<close>

definition best_for :: "(nat \<Rightarrow> bool) \<Rightarrow> bool \<Rightarrow> work_queue \<Rightarrow> piece_work \<Rightarrow> bool" where
  "best_for has dup q w \<longleftrightarrow> has (pw_index w) \<and>
     (w \<in> set (wq_pending q) \<and> (\<forall>v\<in>set (wq_pending q). has (pw_index v) \<longrightarrow> rank q w \<le> rank q v) \<or>
      dup \<and> wq_pending q = [] \<and> w \<in> snd ` set (wq_claimed q) \<and>
        (\<forall>v\<in>snd ` set (wq_claimed q). has (pw_index v) \<longrightarrow> rank q w \<le> rank q v))"

definition on_offer :: "(nat \<Rightarrow> bool) \<Rightarrow> bool \<Rightarrow> work_queue \<Rightarrow> piece_work set" where
  "on_offer has dup q =
     {w. has (pw_index w) \<and> (w \<in> set (wq_pending q) \<or> dup \<and> wq_pending q = [] \<and> w \<in> snd ` set (wq_claimed q))}"

lemma take_next_result:
  "case fst (take_next has dup q) of
     TakePiece w \<Rightarrow> best_for has dup q w
   | NothingForThisPeer \<Rightarrow> on_offer has dup q = {} \<and> todo q \<noteq> {}
   | TakeDone \<Rightarrow> todo q = {}"
proof (cases "\<exists>w\<in>set (wq_pending q). has (pw_index w)")
  case True
  then obtain w0 where "w0 \<in> set (wq_pending q)" "has (pw_index w0)" by blast
  then obtain i where "i < length (wq_pending q)" "has (pw_index (wq_pending q ! i))"
    "\<forall>w\<in>set (wq_pending q). has (pw_index w) \<longrightarrow> rank q (wq_pending q ! i) \<le> rank q w"
    "fst (take_next has dup q) = TakePiece (wq_pending q ! i)"
    by (rule take_next_pending [where dup = dup]) simp
  then show ?thesis by (simp add: best_for_def)
next
  case False
  let ?m = "min_by_key (rank q) (filter (\<lambda>w. has (pw_index w)) (map snd (wq_claimed q)))"
  show ?thesis
  proof (cases "dup \<and> wq_pending q = []")
    case True
    show ?thesis
    proof (cases ?m)
      case None
      then have "\<forall>w\<in>snd ` set (wq_claimed q). \<not> has (pw_index w)" by (auto simp: filter_empty_conv)
      then show ?thesis using None True False
        by (auto simp: take_next_none_pending Let_def on_offer_def todo_def)
    next
      case (Some w)
      then show ?thesis using True False min_by_key_Some [OF Some]
        by (auto simp: take_next_none_pending best_for_def)
    qed
  next
    case no: False
    then have "take_next has dup q = (if wq_pending q = [] \<and> wq_claimed q = [] then TakeDone else NothingForThisPeer, q)"
      using False by (auto simp: take_next_none_pending Let_def)
    then show ?thesis using no False by (auto simp: on_offer_def todo_def)
  qed
qed

lemma best_for_works: "best_for has dup q w \<Longrightarrow> w \<in> works q"
  unfolding best_for_def works_def by blast

lemma works_todo: "queue_ok q \<Longrightarrow> pw_index ` works q = todo q"
proof -
  assume "queue_ok q"
  then have "\<forall>e\<in>set (wq_claimed q). pw_index (snd e) = fst e" by (auto simp: queue_ok_def)
  then have "(\<lambda>e. pw_index (snd e)) ` set (wq_claimed q) = fst ` set (wq_claimed q)" by (intro image_cong) auto
  then show ?thesis by (simp add: works_def todo_def image_Un image_image)
qed

lemma works_take: "works (snd (take_next has dup q)) \<subseteq> works q"
proof (cases "\<exists>w\<in>set (wq_pending q). has (pw_index w)")
  case True
  then obtain w0 where "w0 \<in> set (wq_pending q)" "has (pw_index w0)" by blast
  then obtain i where i: "i < length (wq_pending q)"
    "snd (take_next has dup q) = q\<lparr>wq_pending := swap_remove i (wq_pending q),
       wq_claimed := al_insert (pw_index (wq_pending q ! i)) (wq_pending q ! i) (wq_claimed q)\<rparr>"
    by (rule take_next_pending [where dup = dup]) simp
  have "set (swap_remove i (wq_pending q)) \<subseteq> set (wq_pending q)"
    using mset_eq_setD [OF swap_remove_perm [OF i(1)]] by auto
  then show ?thesis using i by (auto simp: works_def al_insert_def)
next
  case False
  then have "snd (take_next has dup q) = q" by (auto simp: take_next_none_pending Let_def split: option.splits)
  then show ?thesis by simp
qed

lemma works_mark_done: "works (snd (mark_done i q)) \<subseteq> works q"
  unfolding works_def mark_done_def al_remove_def by (simp add: image_mono subset_iff) blast

lemma rank_cong:
  "wq_order q' = wq_order q \<Longrightarrow> wq_preferred q' = wq_preferred q \<Longrightarrow> wq_availability q' = wq_availability q \<Longrightarrow>
   rank q' = rank q"
  by (auto simp: fun_eq_iff rank_def Let_def split: order.split)

lemma take_next_fields:
  "\<exists>p c. snd (take_next has dup q) = q\<lparr>wq_pending := p, wq_claimed := c\<rparr>"
proof (cases "\<exists>w\<in>set (wq_pending q). has (pw_index w)")
  case True
  then obtain w0 where "w0 \<in> set (wq_pending q)" "has (pw_index w0)" by blast
  then show ?thesis by (rule take_next_pending [where dup = dup]) auto
next
  case False
  then have "snd (take_next has dup q) = q" by (auto simp: take_next_none_pending Let_def split: option.splits)
  then show ?thesis by (intro exI [of _ "wq_pending q"] exI [of _ "wq_claimed q"]) simp
qed

lemma rank_unchanged: "rank (snd (take_next has dup q)) = rank q" "rank (snd (mark_done i q)) = rank q"
proof -
  obtain p c where "snd (take_next has dup q) = q\<lparr>wq_pending := p, wq_claimed := c\<rparr>" using take_next_fields by blast
  then show "rank (snd (take_next has dup q)) = rank q" by (intro rank_cong) simp_all
  show "rank (snd (mark_done i q)) = rank q" by (intro rank_cong) (simp_all add: mark_done_def)
qed

section \<open>Draining the queue\<close>

text \<open>A source that has every piece and finishes each piece it is given.\<close>

fun drain :: "nat \<Rightarrow> work_queue \<Rightarrow> piece_work list \<times> work_queue" where
  "drain 0 q = ([], q)"
| "drain (Suc n) q =
     (case pop q of
        (None, q') \<Rightarrow> ([], q')
      | (Some w, q') \<Rightarrow> (case drain n (snd (mark_done (pw_index w) q')) of (ws, q'') \<Rightarrow> (w # ws, q'')))"

lemma pop_todo:
  assumes "queue_ok q" "todo q \<noteq> {}"
  obtains w q' where "pop q = (Some w, q')" "take_next (\<lambda>_. True) True q = (TakePiece w, q')" "w \<in> works q"
    "best_for (\<lambda>_. True) True q w"
proof -
  obtain t q' where t: "take_next (\<lambda>_. True) True q = (t, q')" by fastforce
  have "on_offer (\<lambda>_. True) True q \<noteq> {}"
    using assms(2) by (cases "wq_pending q") (auto simp: on_offer_def todo_def)
  then obtain w where "t = TakePiece w" "best_for (\<lambda>_. True) True q w"
    using take_next_result [of "\<lambda>_. True" True q] assms(2) t by (cases t) auto
  then show thesis using that best_for_works t by (simp add: pop_def take_for_def piece_taken_def)
qed

lemma take_claims_only:
  assumes "wq_claimed q = []" "w0 \<in> set (wq_pending q)" "take_next (\<lambda>_. True) dup q = (TakePiece w, q')"
  shows "wq_claimed q' = [(pw_index w, w)]"
proof -
  obtain i where "take_next (\<lambda>_. True) dup q = (TakePiece (wq_pending q ! i), q\<lparr>wq_pending := swap_remove i (wq_pending q),
       wq_claimed := al_insert (pw_index (wq_pending q ! i)) (wq_pending q ! i) (wq_claimed q)\<rparr>)"
    using assms(2) by (rule take_next_pending [where dup = dup and has = "\<lambda>_. True"]) simp_all
  then show ?thesis using assms(1,3) by (auto simp: al_insert_def)
qed

lemma drain_todo:
  assumes "queue_ok q"
  shows "\<exists>ws q'. drain (queue_len q) q = (ws, q') \<and> queue_is_empty q' \<and> queue_ok q' \<and>
    distinct (map pw_index ws) \<and> pw_index ` set ws = todo q \<and> set ws \<subseteq> works q \<and>
    (wq_claimed q = [] \<longrightarrow> sorted (map (rank q) ws))"
  using assms
proof (induction "queue_len q" arbitrary: q)
  case 0
  then have "todo q = {}" using card_todo [OF 0(2)] by (simp add: todo_def)
  then have "queue_is_empty q" by (simp add: todo_def queue_is_empty_def)
  with 0 \<open>todo q = {}\<close> show ?case by (simp flip: 0(1))
next
  case (Suc n)
  have "todo q \<noteq> {}" using card_todo [OF Suc(3)] Suc(2) by auto
  with Suc(3) obtain w q1 where p: "pop q = (Some w, q1)" "take_next (\<lambda>_. True) True q = (TakePiece w, q1)"
    and w: "w \<in> works q" "best_for (\<lambda>_. True) True q w" by (rule pop_todo)
  define q2 where "q2 = snd (mark_done (pw_index w) q1)"
  have q1: "queue_ok q1" "todo q1 = todo q" using queue_ok_take [OF Suc(3), of "\<lambda>_. True" True] p(2) by simp_all
  have q2: "queue_ok q2" "todo q2 = todo q - {pw_index w}"
    using queue_ok_mark_done [OF q1(1)] q1(2) by (simp_all add: q2_def)
  have wt: "pw_index w \<in> todo q" using w(1) works_todo [OF Suc(3)] by blast
  have "finite (todo q)" by (simp add: todo_def)
  then have "n = queue_len q2" using card_todo [OF q2(1)] card_todo [OF Suc(3)] Suc(2) q2(2) wt by simp
  from Suc(1) [OF this q2(1)] obtain ws q' where ws: "drain n q2 = (ws, q')" "queue_is_empty q'" "queue_ok q'"
    "distinct (map pw_index ws)" "pw_index ` set ws = todo q2" "set ws \<subseteq> works q2"
    "wq_claimed q2 = [] \<longrightarrow> sorted (map (rank q2) ws)" using \<open>n = queue_len q2\<close> by auto
  have "drain (queue_len q) q = (w # ws, q')" using ws(1) p(1) by (simp flip: Suc(2) q2_def)
  moreover have sub: "works q2 \<subseteq> works q"
    using works_mark_done [of "pw_index w" q1] works_take [of "\<lambda>_. True" True q] p(2) by (auto simp: q2_def)
  moreover have "sorted (map (rank q) (w # ws))" if c: "wq_claimed q = []"
  proof -
    have pend: "w \<in> set (wq_pending q)" "\<forall>v\<in>set (wq_pending q). rank q w \<le> rank q v"
      using w(2) c by (auto simp: best_for_def)
    have "wq_claimed q2 = []"
      using take_claims_only [OF c pend(1) p(2)] by (simp add: q2_def mark_done_def al_remove_def)
    moreover have "rank q2 = rank q"
      using rank_unchanged(1) [of "\<lambda>_. True" True q] p(2) by (simp add: q2_def rank_unchanged)
    moreover have "set ws \<subseteq> set (wq_pending q)" using ws(6) sub c by (auto simp: works_def)
    ultimately show ?thesis using ws(7) pend(2) by auto
  qed
  ultimately show ?case using ws q2(2) wt w(1) by (intro exI [of _ "w # ws"] exI [of _ q']) auto
qed

section \<open>Properties\<close>

definition queue_start :: "order \<Rightarrow> nat set \<Rightarrow> piece_work list \<Rightarrow> nat \<Rightarrow> work_queue" where
  "queue_start ord P pieces n = with_order ord (with_preferred P (queue_new pieces n))"

lemma queue_start_ok:
  "distinct (map pw_index pieces) \<Longrightarrow> queue_ok (queue_start ord P pieces n) \<and>
   abs_queue (queue_start ord P pieces n) = (pw_index ` set pieces, {}) \<and> wq_claimed (queue_start ord P pieces n) = [] \<and>
   wq_pending (queue_start ord P pieces n) = pieces"
  by (simp add: queue_start_def queue_ok_with queue_ok_new)
    (simp add: with_order_def with_preferred_def queue_new_def abs_queue_def todo_def)

lemma is_wanted_todo: "queue_ok q \<Longrightarrow> is_wanted i q \<longleftrightarrow> i \<in> todo q"
  by (auto simp: is_wanted_def todo_def queue_ok_def list_ex_iff)

text \<open>
  C4: The queue keeps a set of pieces to do and a set of pieces done, and loses none.
  Over any interleaving of its methods, with any order and any preferred pieces, its state
  implements the abstract pair of sets; pending, claimed and done pieces are kept apart
  with every index once; no piece it was built with is ever lost; the stash of partial
  pieces stays under its bound; and \<open>len\<close>, \<open>is_empty\<close> and \<open>is_wanted\<close> tell the size,
  emptiness and members of the set of pieces to do.
\<close>

theorem queue_refines_sets:
  assumes "distinct (map pw_index pieces)"
  shows "let q = fold queue_step ops (queue_start ord P pieces n);
             (T, D) = fold abs_step ops (pw_index ` set pieces, {})
    in abs_queue q = (T, D) \<and> queue_ok q \<and> pw_index ` set pieces \<subseteq> T \<union> D \<and>
       queue_len q = card T \<and> (queue_is_empty q \<longleftrightarrow> T = {}) \<and> (\<forall>i. is_wanted i q \<longleftrightarrow> i \<in> T)"
proof -
  let ?s = "queue_start ord P pieces n" let ?q = "fold queue_step ops ?s"
  have s: "queue_ok ?s" "abs_queue ?s = (pw_index ` set pieces, {})" using queue_start_ok [OF assms] by blast+
  have ok: "queue_ok ?q" by (rule queue_machine.inv_run [OF s(1)])
  have abs: "fold abs_step ops (pw_index ` set pieces, {}) = (todo ?q, wq_done ?q)"
    using queue_run_refines [OF s(1), of ops] s(2) by (simp add: abs_queue_def)
  have "pw_index ` set pieces \<subseteq> todo ?q \<union> wq_done ?q"
    using queue_machine.part_run [OF s(1), of ops] s(2) by (simp add: abs_queue_def)
  moreover have "queue_is_empty ?q \<longleftrightarrow> todo ?q = {}" by (simp add: queue_is_empty_def todo_def)
  ultimately show ?thesis
    using ok card_todo [OF ok] is_wanted_todo [OF ok] by (simp only: Let_def abs prod.case abs_queue_def) simp
qed

text \<open>
  C34: A peer is given the best piece it has. In every reachable state, for every peer and
  with or without endgame duplicates, a piece handed out is one the peer has, still to be
  fetched, and of least rank (preferred first, then rarest or in sequence, then by index)
  among the pending pieces it has, or among the claimed ones when nothing is pending; it is
  told there is nothing for it only if there is nothing on offer although pieces remain,
  and that all is done exactly when nothing remains.
\<close>

theorem take_best_piece:
  assumes "distinct (map pw_index pieces)"
  shows "let q = fold queue_step ops (queue_start ord P pieces n)
    in case fst (take_next has dup q) of
         TakePiece w \<Rightarrow> best_for has dup q w \<and> is_wanted (pw_index w) q
       | NothingForThisPeer \<Rightarrow> on_offer has dup q = {} \<and> todo q \<noteq> {}
       | TakeDone \<Rightarrow> todo q = {}"
proof -
  let ?q = "fold queue_step ops (queue_start ord P pieces n)"
  have ok: "queue_ok ?q" using queue_start_ok [OF assms] queue_machine.inv_run by blast
  have "best_for has dup ?q w \<Longrightarrow> is_wanted (pw_index w) ?q" for w
    using works_todo [OF ok] best_for_works is_wanted_todo [OF ok] by blast
  then show ?thesis using take_next_result [of has dup ?q] by (auto simp: Let_def split: take.splits)
qed

text \<open>
  C33: A source that has every piece finishes the download. Popping a piece and marking it
  done, as many times as pieces remain in a reachable queue, hands out every remaining piece
  exactly once and leaves the queue empty, also when some pieces were claimed by others
  (endgame); in a queue with nothing claimed the pieces come in order of rank.
\<close>

theorem drain_finishes:
  assumes "distinct (map pw_index pieces)"
  shows "let q = fold queue_step ops (queue_start ord P pieces n)
    in case drain (queue_len q) q of (ws, q') \<Rightarrow>
         queue_is_empty q' \<and> distinct (map pw_index ws) \<and> pw_index ` set ws = todo q \<and>
         (wq_claimed q = [] \<longrightarrow> sorted (map (rank q) ws))"
proof -
  let ?q = "fold queue_step ops (queue_start ord P pieces n)"
  have "queue_ok ?q" using queue_start_ok [OF assms] queue_machine.inv_run by blast
  from drain_todo [OF this] show ?thesis unfolding Let_def by auto
qed

section \<open>Witnesses\<close>

definition sample_piece :: "nat \<Rightarrow> piece_work" where
  "sample_piece i = \<lparr>pw_index = i, pw_hash = [], pw_length = 3, pw_merkle = None\<rparr>"

definition sample_ops :: "queue_op list" where
  "sample_ops = [OpNoteHave 0, OpNoteHave 1, OpNoteHave 0, OpTake (\<lambda>i. i = 2) True, OpMarkDone 2]"

lemma sample_distinct: "distinct (map pw_index (map sample_piece [0, 1, 2]))"
  by (simp add: sample_piece_def)

lemma sample_pieces: "pw_index ` set (map sample_piece [0, 1, 2]) = {0, 1, 2}"
  by (auto simp: sample_piece_def)

theorem queue_refines_sets_witness:
  "abs_queue (fold queue_step sample_ops (queue_start RarestFirst {} (map sample_piece [0, 1, 2]) 3)) = ({0, 1}, {2})"
proof -
  have "fold abs_step sample_ops (pw_index ` set (map sample_piece [0, 1, 2]), {}) = ({0, 1}, {2})"
    unfolding sample_pieces by (auto simp: sample_ops_def)
  then show ?thesis
    using queue_refines_sets [OF sample_distinct, of sample_ops RarestFirst "{}" 3] by (simp add: Let_def)
qed

lemma sample_queue_eval:
  "fold queue_step sample_ops (queue_start RarestFirst {} (map sample_piece [0, 1, 2]) 3) =
     \<lparr>wq_pending = [sample_piece 0, sample_piece 1], wq_claimed = [], wq_done = {2}, wq_partial = [],
      wq_availability = [2, 1, 0], wq_order = RarestFirst, wq_preferred = {}\<rparr>"
  by (simp add: sample_ops_def queue_step_def queue_start_def with_order_def with_preferred_def queue_new_def
    note_have_def take_next_def mark_done_def swap_remove_def al_insert_def al_remove_def rank_def sample_piece_def
    numeral_3_eq_3 Let_def)

text \<open>Piece 1 has been seen at one peer and piece 0 at two: piece 1 comes first.\<close>

theorem take_best_piece_witness:
  "let q = fold queue_step sample_ops (queue_start RarestFirst {} (map sample_piece [0, 1, 2]) 3)
   in fst (take_next (\<lambda>_. True) True q) = TakePiece (sample_piece 1) \<and> best_for (\<lambda>_. True) True q (sample_piece 1)"
proof -
  let ?q = "fold queue_step sample_ops (queue_start RarestFirst {} (map sample_piece [0, 1, 2]) 3)"
  have "fst (take_next (\<lambda>_. True) True ?q) = TakePiece (sample_piece 1)"
    unfolding sample_queue_eval by (simp add: take_next_def rank_def sample_piece_def Let_def word_le_nat_alt)
  then show ?thesis
    using take_best_piece [OF sample_distinct, of sample_ops RarestFirst "{}" 3 "\<lambda>_. True" True] by (simp add: Let_def)
qed

theorem drain_finishes_witness:
  "let q = fold queue_step sample_ops (queue_start RarestFirst {} (map sample_piece [0, 1, 2]) 3)
   in case drain 2 q of (ws, q') \<Rightarrow> queue_is_empty q' \<and> pw_index ` set ws = {0, 1} \<and> sorted (map (rank q) ws)"
proof -
  let ?q = "fold queue_step sample_ops (queue_start RarestFirst {} (map sample_piece [0, 1, 2]) 3)"
  have "queue_len ?q = 2" "todo ?q = {0, 1}" "wq_claimed ?q = []"
    unfolding sample_queue_eval by (auto simp: queue_len_def todo_def sample_piece_def)
  then show ?thesis
    using drain_finishes [OF sample_distinct, of sample_ops RarestFirst "{}" 3] by (simp add: Let_def split: prod.splits)
qed

end
