(* ===== verification/File_Spans.thy ===== *)
theory File_Spans
  imports Rust_Std
begin

text \<open>
  \<open>downloader/file_writer.rs\<close>: the flat byte space of a torrent laid over the files on
  disk. The disk is a map from paths to file contents, and creating or opening a file may
  be refused, which is a parameter. Offsets are natural numbers; where the code adds or
  multiplies \<open>u64\<close>s that may overflow the model panics, as a checked build does.
\<close>

section \<open>Paths and the disk\<close>

type_synonym path = bytes
type_synonym disk = "path \<rightharpoonup> bytes"

text \<open>\<open>PathBuf::join\<close> on a Unix system: an absolute part replaces the path.\<close>

definition path_join :: "path \<Rightarrow> bytes \<Rightarrow> path" where
  "path_join p part =
     (if part \<noteq> [] \<and> hd part = 47 then part
      else if p = [] \<or> last p = 47 then p @ part else p @ [47] @ part)"

definition u64_add :: "nat \<Rightarrow> nat \<Rightarrow> nat outcome" where
  "u64_add a b = (if a + b < 2 ^ 64 then Ret (a + b) else Panic)"

definition u64_mul :: "nat \<Rightarrow> nat \<Rightarrow> nat outcome" where
  "u64_mul a b = (if a * b < 2 ^ 64 then Ret (a * b) else Panic)"

definition i64_as_u64 :: "int \<Rightarrow> nat" where
  "i64_as_u64 i = nat (i mod 2 ^ 64)"

definition next_multiple_of :: "nat \<Rightarrow> nat \<Rightarrow> nat outcome" where
  "next_multiple_of a m = (if a mod m = 0 then Ret a else u64_add a (m - a mod m))"

section \<open>The table of spans\<close>

record file_span =
  fs_path :: path
  fs_start :: nat
  fs_end :: nat
  fs_padding :: bool

fun spans_padded_from :: "path \<Rightarrow> (bytes list \<times> int) list \<Rightarrow> bool list \<Rightarrow> nat \<Rightarrow> file_span list outcome" where
  "spans_padded_from base_dir [] padding cursor = Ret []"
| "spans_padded_from base_dir ((path_parts, len) # files) padding cursor =
     on_ret (u64_add cursor (i64_as_u64 len)) (\<lambda>cursor'.
     on_ret (spans_padded_from base_dir files (drop 1 padding) cursor') (\<lambda>spans.
     Ret (\<lparr>fs_path = foldl path_join base_dir path_parts, fs_start = cursor, fs_end = cursor',
           fs_padding = (case padding of [] \<Rightarrow> False | p # _ \<Rightarrow> p)\<rparr> # spans)))"

definition build_file_spans_padded :: "path \<Rightarrow> (bytes list \<times> int) list \<Rightarrow> bool list \<Rightarrow> file_span list outcome" where
  "build_file_spans_padded base_dir files padding = spans_padded_from base_dir files padding 0"

definition build_file_spans :: "path \<Rightarrow> (bytes list \<times> int) list \<Rightarrow> file_span list outcome" where
  "build_file_spans base_dir files = build_file_spans_padded base_dir files []"

fun spans_aligned_from :: "path \<Rightarrow> (bytes list \<times> int) list \<Rightarrow> nat \<Rightarrow> nat \<Rightarrow> file_span list outcome" where
  "spans_aligned_from base_dir [] piece_length cursor = Ret []"
| "spans_aligned_from base_dir ((path_parts, len) # files) piece_length cursor =
     on_ret (u64_add cursor (i64_as_u64 len)) (\<lambda>end'.
     on_ret (next_multiple_of end' (max piece_length 1)) (\<lambda>cursor'.
     on_ret (spans_aligned_from base_dir files piece_length cursor') (\<lambda>spans.
     Ret (\<lparr>fs_path = foldl path_join base_dir path_parts, fs_start = cursor, fs_end = end', fs_padding = False\<rparr> # spans))))"

definition build_file_spans_aligned :: "path \<Rightarrow> (bytes list \<times> int) list \<Rightarrow> nat \<Rightarrow> file_span list outcome" where
  "build_file_spans_aligned base_dir files piece_length = spans_aligned_from base_dir files piece_length 0"

text \<open>
  \<open>partition_point\<close>: on a slice in which the elements satisfying the predicate come
  first, how many they are.
\<close>

definition partition_point :: "('a \<Rightarrow> bool) \<Rightarrow> 'a list \<Rightarrow> nat" where
  "partition_point P xs = length (takeWhile P xs)"

definition span_at :: "file_span list \<Rightarrow> nat \<Rightarrow> file_span option" where
  "span_at spans offset =
     (let first_ending_after = partition_point (\<lambda>s. fs_end s \<le> offset) spans
      in if first_ending_after < length spans \<and> fs_start (spans ! first_ending_after) \<le> offset
         then Some (spans ! first_ending_after) else None)"

lemma span_atD: "span_at spans offset = Some s \<Longrightarrow> s \<in> set spans \<and> fs_start s \<le> offset \<and> offset < fs_end s"
  using nth_length_takeWhile [of "\<lambda>s. fs_end s \<le> offset" spans]
  by (auto simp: span_at_def partition_point_def Let_def split: if_splits)

section \<open>Writing\<close>

datatype io_error = OutsideFiles nat | Refused path | NotFound path | UnexpectedEof

text \<open>\<open>seek\<close> and \<open>write_all\<close>: a gap before the position is filled with zeros.\<close>

definition write_bytes :: "bytes \<Rightarrow> nat \<Rightarrow> bytes \<Rightarrow> bytes" where
  "write_bytes c pos data = copy_into (c @ replicate (pos - length c) 0) pos data"

text \<open>
  \<open>write_at_global_offset\<close> goes file by file; what it wrote before an error stays
  written, so the disk is returned with the result. The parameter says for which paths
  the system refuses to make the directories or open the file for writing.
\<close>

function write_at_global_offset ::
  "(path \<Rightarrow> bool) \<Rightarrow> file_span list \<Rightarrow> nat \<Rightarrow> bytes \<Rightarrow> disk \<Rightarrow> (io_error + unit) \<times> disk" where
  "write_at_global_offset refused spans offset remaining d =
     (if remaining = [] then (Inr (), d)
      else case span_at spans offset of
        None \<Rightarrow> (Inl (OutsideFiles offset), d)
      | Some span \<Rightarrow>
          let file_offset = offset - fs_start span;
              available_in_file = fs_end span - offset;
              chunk_len = min (length remaining) available_in_file
          in if fs_padding span then write_at_global_offset refused spans (offset + chunk_len) (drop chunk_len remaining) d
             else if refused (fs_path span) then (Inl (Refused (fs_path span)), d)
             else
               let old = (case d (fs_path span) of None \<Rightarrow> [] | Some c \<Rightarrow> c)
               in write_at_global_offset refused spans (offset + chunk_len) (drop chunk_len remaining)
                    (d(fs_path span \<mapsto> write_bytes old file_offset (take chunk_len remaining))))"
  by auto
termination
  by (relation "measure (\<lambda>(refused, spans, offset, remaining, d). length remaining)")
    (auto dest: span_atD)

declare write_at_global_offset.simps [simp del]

definition write_piece ::
  "(path \<Rightarrow> bool) \<Rightarrow> file_span list \<Rightarrow> nat \<Rightarrow> nat \<Rightarrow> bytes \<Rightarrow> disk \<Rightarrow> ((io_error + unit) \<times> disk) outcome" where
  "write_piece refused spans piece_index piece_length data d =
     on_ret (u64_mul piece_index piece_length) (\<lambda>global_offset.
     Ret (write_at_global_offset refused spans global_offset data d))"

text \<open>The index of a span is what \<open>enumerate\<close> gives it.\<close>

fun create_empty_from ::
  "(path \<Rightarrow> bool) \<Rightarrow> (nat \<Rightarrow> bool) \<Rightarrow> nat \<Rightarrow> file_span list \<Rightarrow> nat \<Rightarrow> disk \<Rightarrow> (io_error + nat) \<times> disk" where
  "create_empty_from refused wanted index [] created d = (Inr created, d)"
| "create_empty_from refused wanted index (span # spans) created d =
     (if fs_padding span \<or> fs_start span \<noteq> fs_end span \<or> \<not> wanted index \<or> d (fs_path span) \<noteq> None
      then create_empty_from refused wanted (Suc index) spans created d
      else if refused (fs_path span) then (Inl (Refused (fs_path span)), d)
      else create_empty_from refused wanted (Suc index) spans (created + 1) (d(fs_path span \<mapsto> [])))"

definition create_empty_files ::
  "(path \<Rightarrow> bool) \<Rightarrow> file_span list \<Rightarrow> (nat \<Rightarrow> bool) \<Rightarrow> disk \<Rightarrow> (io_error + nat) \<times> disk" where
  "create_empty_files refused spans wanted d = create_empty_from refused wanted 0 spans 0 d"

section \<open>Reading\<close>

text \<open>The accumulator is the output so far; opening a file fails if there is none.\<close>

function read_from_offset :: "file_span list \<Rightarrow> nat \<Rightarrow> nat \<Rightarrow> bytes \<Rightarrow> disk \<Rightarrow> io_error + bytes" where
  "read_from_offset spans offset remaining out d =
     (if remaining = 0 then Inr out
      else case span_at spans offset of
        None \<Rightarrow> Inl (OutsideFiles offset)
      | Some span \<Rightarrow>
          let file_offset = offset - fs_start span;
              available_in_file = fs_end span - offset;
              chunk_len = min remaining available_in_file
          in if fs_padding span
             then read_from_offset spans (offset + chunk_len) (remaining - chunk_len) (resize (length out + chunk_len) 0 out) d
             else case d (fs_path span) of
               None \<Rightarrow> Inl (NotFound (fs_path span))
             | Some c \<Rightarrow>
                 if length c < file_offset + chunk_len then Inl UnexpectedEof
                 else read_from_offset spans (offset + chunk_len) (remaining - chunk_len)
                        (out @ take chunk_len (drop file_offset c)) d)"
  by auto
termination
  by (relation "measure (\<lambda>(spans, offset, remaining, out, d). remaining)") (auto dest: span_atD)

declare read_from_offset.simps [simp del]

definition read_at_global_offset :: "file_span list \<Rightarrow> nat \<Rightarrow> nat \<Rightarrow> disk \<Rightarrow> io_error + bytes" where
  "read_at_global_offset spans global_offset len d = read_from_offset spans global_offset len [] d"

definition read_block :: "file_span list \<Rightarrow> nat \<Rightarrow> nat \<Rightarrow> nat \<Rightarrow> nat \<Rightarrow> disk \<Rightarrow> (io_error + bytes) outcome" where
  "read_block spans piece_index piece_length begin' len d =
     on_ret (u64_mul piece_index piece_length) (\<lambda>at_piece.
     on_ret (u64_add at_piece begin') (\<lambda>global_offset.
     Ret (read_at_global_offset spans global_offset len d)))"

section \<open>The byte space\<close>

text \<open>
  What reading and writing come down to, byte by byte: the byte of the torrent held at an
  offset, which offsets are padding, and which can be written.
\<close>

definition byte_at :: "file_span list \<Rightarrow> disk \<Rightarrow> nat \<Rightarrow> u8 option" where
  "byte_at spans d at =
     (case span_at spans at of
        None \<Rightarrow> None
      | Some s \<Rightarrow>
          if fs_padding s then Some 0
          else case d (fs_path s) of
            None \<Rightarrow> None
          | Some c \<Rightarrow> if at - fs_start s < length c then Some (c ! (at - fs_start s)) else None)"

definition padding_at :: "file_span list \<Rightarrow> nat \<Rightarrow> bool" where
  "padding_at spans at = (case span_at spans at of None \<Rightarrow> False | Some s \<Rightarrow> fs_padding s)"

definition writable_at :: "(path \<Rightarrow> bool) \<Rightarrow> file_span list \<Rightarrow> nat \<Rightarrow> bool" where
  "writable_at refused spans at =
     (case span_at spans at of None \<Rightarrow> False | Some s \<Rightarrow> fs_padding s \<or> \<not> refused (fs_path s))"

definition spans_ok :: "file_span list \<Rightarrow> bool" where
  "spans_ok spans \<longleftrightarrow>
     sorted_wrt (\<lambda>s t. fs_end s \<le> fs_start t) spans \<and> (\<forall>s\<in>set spans. fs_start s \<le> fs_end s) \<and>
     distinct (map fs_path (filter (\<lambda>s. \<not> fs_padding s) spans))"

lemma span_at_sorted:
  assumes "sorted_wrt (\<lambda>s t. fs_end s \<le> fs_start t) spans" "\<forall>s\<in>set spans. fs_start s \<le> fs_end s"
    "s \<in> set spans" "fs_start s \<le> at" "at < fs_end s"
  shows "span_at spans at = Some s"
  using assms
proof (induction spans)
  case (Cons t spans)
  show ?case
  proof (cases "s = t")
    case True
    with Cons.prems show ?thesis by (simp add: span_at_def partition_point_def)
  next
    case False
    with Cons.prems have "fs_end t \<le> at" by auto
    moreover have "span_at spans at = Some s" using Cons False by auto
    ultimately show ?thesis by (simp add: span_at_def partition_point_def Let_def split: if_splits)
  qed
qed simp

lemma span_at_iff:
  "spans_ok spans \<Longrightarrow> span_at spans at = Some s \<longleftrightarrow> s \<in> set spans \<and> fs_start s \<le> at \<and> at < fs_end s"
  using span_at_sorted [of spans s at] span_atD [of spans at s] unfolding spans_ok_def by blast

lemma span_at_within:
  "spans_ok spans \<Longrightarrow> span_at spans at = Some s \<Longrightarrow> at \<le> at' \<Longrightarrow> at' < fs_end s \<Longrightarrow> span_at spans at' = Some s"
  by (auto simp: span_at_iff)

lemma distinct_map_filterD:
  "distinct (map f (filter P xs)) \<Longrightarrow> x \<in> set xs \<Longrightarrow> y \<in> set xs \<Longrightarrow> P x \<Longrightarrow> P y \<Longrightarrow> f x = f y \<Longrightarrow> x = y"
  by (auto simp: distinct_map inj_on_def)

subsection \<open>Reading is the byte space\<close>

lemma byte_at_chunk:
  assumes "spans_ok spans" "span_at spans at = Some s" "at + n \<le> fs_end s"
  shows "map (byte_at spans d) [at..<at + n] =
    (if fs_padding s then replicate n (Some 0)
     else case d (fs_path s) of
       None \<Rightarrow> replicate n None
     | Some c \<Rightarrow> map (\<lambda>i. if at - fs_start s + i < length c then Some (c ! (at - fs_start s + i)) else None) [0..<n])"
proof -
  have "fs_start s \<le> at" using span_atD [OF assms(2)] by blast
  moreover have "span_at spans (at + i) = Some s" if "i < n" for i
    using span_at_within [OF assms(1,2)] that assms(3) by simp
  ultimately have "byte_at spans d (at + i) =
      (if fs_padding s then Some 0 else case d (fs_path s) of None \<Rightarrow> None
       | Some c \<Rightarrow> if at - fs_start s + i < length c then Some (c ! (at - fs_start s + i)) else None)" if "i < n" for i
    using that by (cases "d (fs_path s)") (simp_all add: byte_at_def)
  then show ?thesis by (intro nth_equalityI) (auto split: option.splits)
qed

lemma map_Some_eq: "map Some xs = map Some ys \<longleftrightarrow> xs = ys"
  by (simp add: inj_map_eq_map)

lemma map_append_Some:
  "map f (xs @ ys) = map Some zs \<longleftrightarrow> (\<exists>us vs. zs = us @ vs \<and> map f xs = map Some us \<and> map f ys = map Some vs)"
  by (auto simp: map_eq_append_conv append_eq_map_conv)

lemma chunk_Some_iff:
  "0 < n \<Longrightarrow> map (\<lambda>i. if k + i < length c then Some (c ! (k + i)) else None) [0..<n] = map Some ys \<longleftrightarrow>
   k + n \<le> length c \<and> ys = take n (drop k c)"
proof (intro iffI conjI)
  assume n: "0 < n" and eq: "map (\<lambda>i. if k + i < length c then Some (c ! (k + i)) else None) [0..<n] = map Some ys"
  have len: "length ys = n" using arg_cong [OF eq, of length] by simp
  have each: "(if k + i < length c then Some (c ! (k + i)) else None) = Some (ys ! i)" if "i < n" for i
    using arg_cong [OF eq, of "\<lambda>l. l ! i"] that len by (cases "k + i < length c") simp_all
  show b: "k + n \<le> length c" using each [of "n - 1"] n by (simp split: if_splits)
  show "ys = take n (drop k c)" by (rule nth_equalityI) (use each b len in \<open>simp_all split: if_splits\<close>)
next
  assume "k + n \<le> length c \<and> ys = take n (drop k c)"
  then show "map (\<lambda>i. if k + i < length c then Some (c ! (k + i)) else None) [0..<n] = map Some ys"
    by (auto intro!: nth_equalityI)
qed

lemma upt_split: "m \<le> n \<Longrightarrow> [at..<at + n] = [at..<at + m] @ [at + m..<at + m + (n - m)]" for at :: nat
  by (metis add.assoc le_add1 le_add_diff_inverse upt_add_eq_append)

lemma read_from_offset_iff:
  assumes ok: "spans_ok spans"
  shows "read_from_offset spans at n out d = Inr res \<longleftrightarrow>
    (\<exists>ys. res = out @ ys \<and> map (byte_at spans d) [at..<at + n] = map Some ys)"
proof (induction n arbitrary: at out rule: less_induct)
  case (less n)
  show ?case
  proof (cases "n = 0 \<or> span_at spans at = None")
    case True
    then show ?thesis by (auto simp: read_from_offset.simps [of spans at n] upt_conv_Cons byte_at_def)
  next
    case False
    then obtain s where n: "0 < n" and s: "span_at spans at = Some s" by auto
    define m where "m = min n (fs_end s - at)"
    have m: "0 < m" "m \<le> n" "at + m \<le> fs_end s" using span_atD [OF s] n by (auto simp: m_def)
    then have IH: "read_from_offset spans (at + m) (n - m) out' d = Inr res \<longleftrightarrow>
        (\<exists>ys. res = out' @ ys \<and> map (byte_at spans d) [at + m..<at + m + (n - m)] = map Some ys)" for out'
      using n by (intro less.IH) simp
    note bytes = map_append_Some [of "byte_at spans d" "[at..<at + m]" "[at + m..<at + m + (n - m)]", folded upt_split [OF m(2)]]
      byte_at_chunk [OF ok s m(3), of d]
    note unfold = read_from_offset.simps [of spans at n out d] Let_def m_def [symmetric]
    show ?thesis
    proof (cases "fs_padding s")
      case True
      then have "read_from_offset spans at n out d = read_from_offset spans (at + m) (n - m) (out @ replicate m 0) d"
        using n s by (simp add: unfold resize_ge)
      moreover have "replicate m (Some 0) = map Some us \<longleftrightarrow> us = replicate m (0 :: u8)" for us
        by (metis map_Some_eq map_replicate)
      ultimately show ?thesis using True by (simp only: IH bytes) auto
    next
      case pad: False
      show ?thesis
      proof (cases "d (fs_path s)")
        case None
        then have "read_from_offset spans at n out d = Inl (NotFound (fs_path s))" using n s pad by (simp add: unfold)
        moreover have "replicate m None \<noteq> map Some us" for us :: bytes using m(1) by (cases m; cases us) auto
        ultimately show ?thesis using pad None by (simp only: bytes) auto
      next
        case (Some c)
        then have "read_from_offset spans at n out d =
            (if length c < at - fs_start s + m then Inl UnexpectedEof
             else read_from_offset spans (at + m) (n - m) (out @ take m (drop (at - fs_start s) c)) d)"
          using n s pad by (simp add: unfold)
        then show ?thesis using pad Some
          by (cases "length c < at - fs_start s + m") (simp_all only: IH bytes chunk_Some_iff [OF m(1)] option.case if_False if_True, auto)
      qed
    qed
  qed
qed

subsection \<open>Writing changes the byte space as it should\<close>

lemma write_bytes_nth:
  "length (write_bytes c pos data) = max (length c) (pos + length data)"
  "i < max (length c) (pos + length data) \<Longrightarrow> write_bytes c pos data ! i =
     (if pos \<le> i \<and> i < pos + length data then data ! (i - pos) else if i < length c then c ! i else 0)"
  by (auto simp: write_bytes_def copy_into_def nth_append min_def max_def split: if_splits)

definition store_chunk :: "file_span \<Rightarrow> nat \<Rightarrow> bytes \<Rightarrow> disk \<Rightarrow> disk" where
  "store_chunk s at data d =
     d(fs_path s \<mapsto> write_bytes (case d (fs_path s) of None \<Rightarrow> [] | Some c \<Rightarrow> c) (at - fs_start s) data)"

lemma store_chunk_byte_at:
  assumes ok: "spans_ok spans" and s: "span_at spans at = Some s" "\<not> fs_padding s" "at + length data \<le> fs_end s"
  shows "at \<le> k \<Longrightarrow> k < at + length data \<Longrightarrow> byte_at spans (store_chunk s at data d) k = Some (data ! (k - at))"
    and "\<not> (at \<le> k \<and> k < at + length data) \<Longrightarrow> byte_at spans d k = Some b \<Longrightarrow> byte_at spans (store_chunk s at data d) k = Some b"
proof -
  have st: "fs_start s \<le> at" "s \<in> set spans" using span_atD [OF s(1)] by blast+
  show "byte_at spans (store_chunk s at data d) k = Some (data ! (k - at))" if "at \<le> k" "k < at + length data"
  proof -
    have "span_at spans k = Some s" using span_at_within [OF ok s(1)] that s(3) by simp
    moreover have "at - fs_start s \<le> k - fs_start s" "k - fs_start s < at - fs_start s + length data"
      "k - fs_start s - (at - fs_start s) = k - at" using that st by simp_all
    ultimately show ?thesis using s(2) by (simp add: byte_at_def store_chunk_def write_bytes_nth less_max_iff_disj)
  qed
  show "byte_at spans (store_chunk s at data d) k = Some b"
    if out: "\<not> (at \<le> k \<and> k < at + length data)" and b: "byte_at spans d k = Some b"
  proof -
    from b obtain t where t: "span_at spans k = Some t" by (auto simp: byte_at_def split: option.splits)
    show ?thesis
    proof (cases "fs_padding t \<or> fs_path t \<noteq> fs_path s")
      case True
      with b t show ?thesis by (auto simp: byte_at_def store_chunk_def split: if_splits)
    next
      case False
      with s(2) st span_atD [OF t] ok have "t = s" unfolding spans_ok_def by (meson distinct_map_filterD)
      with t have k: "fs_start s \<le> k" using span_atD by blast
      have "\<not> (at - fs_start s \<le> k - fs_start s \<and> k - fs_start s < at - fs_start s + length data)"
        using out k st by linarith
      then show ?thesis using b t s(2) \<open>t = s\<close>
        by (auto simp: byte_at_def store_chunk_def write_bytes_nth less_max_iff_disj split: option.splits if_splits)
    qed
  qed
qed

text \<open>One turn of the loop: a chunk within one file, then the rest.\<close>

lemma write_step:
  assumes "remaining \<noteq> []" "span_at spans at = Some s"
  defines "m \<equiv> min (length remaining) (fs_end s - at)"
  shows "write_at_global_offset refused spans at remaining d =
    (if fs_padding s then write_at_global_offset refused spans (at + m) (drop m remaining) d
     else if refused (fs_path s) then (Inl (Refused (fs_path s)), d)
     else write_at_global_offset refused spans (at + m) (drop m remaining) (store_chunk s at (take m remaining) d))"
    "0 < m" "m \<le> length remaining" "at + m \<le> fs_end s"
  using span_atD [OF assms(2)] assms(1)
  by (simp_all add: write_at_global_offset.simps [of refused spans at remaining d] assms(2) store_chunk_def Let_def flip: m_def)
    (auto simp: m_def)

lemma write_stop:
  "write_at_global_offset refused spans at [] d = (Inr (), d)"
  "remaining \<noteq> [] \<Longrightarrow> span_at spans at = None \<Longrightarrow>
   write_at_global_offset refused spans at remaining d = (Inl (OutsideFiles at), d)"
  by (simp_all add: write_at_global_offset.simps)

lemma write_frame:
  assumes ok: "spans_ok spans"
  shows "\<not> (at \<le> k \<and> k < at + length data) \<Longrightarrow> byte_at spans d k = Some b \<Longrightarrow>
    byte_at spans (snd (write_at_global_offset refused spans at data d)) k = Some b"
proof (induction "length data" arbitrary: at data d rule: less_induct)
  case less
  show ?case
  proof (cases "data = [] \<or> span_at spans at = None")
    case True
    with less.prems show ?thesis by (cases "data = []") (simp_all add: write_stop)
  next
    case False
    then obtain s where s: "data \<noteq> []" "span_at spans at = Some s" by auto
    define m where "m = min (length data) (fs_end s - at)"
    note step = write_step [OF s, folded m_def]
    have IH: "byte_at spans d1 k = Some b \<Longrightarrow>
        byte_at spans (snd (write_at_global_offset refused spans (at + m) (drop m data) d1)) k = Some b" for d1
      using less.prems(1) step(2,3) by (intro less.hyps) auto
    have "\<not> fs_padding s \<Longrightarrow> byte_at spans (store_chunk s at (take m data) d) k = Some b"
      using less.prems step(3,4) by (intro store_chunk_byte_at(2) [OF ok s(2)]) auto
    then show ?thesis using less.prems IH by (simp add: step(1))
  qed
qed

lemma write_ok_iff:
  assumes ok: "spans_ok spans"
  shows "fst (write_at_global_offset refused spans at data d) = Inr () \<longleftrightarrow>
    (\<forall>k. at \<le> k \<and> k < at + length data \<longrightarrow> writable_at refused spans k)"
proof (induction "length data" arbitrary: at data d rule: less_induct)
  case less
  show ?case
  proof (cases "data = [] \<or> span_at spans at = None")
    case True
    then show ?thesis by (cases "data = []") (auto simp: write_stop writable_at_def intro!: exI [of _ at])
  next
    case False
    then obtain s where s: "data \<noteq> []" "span_at spans at = Some s" by auto
    define m where "m = min (length data) (fs_end s - at)"
    note step = write_step [OF s, folded m_def]
    have w: "writable_at refused spans k = (fs_padding s \<or> \<not> refused (fs_path s))" if "at \<le> k" "k < at + m" for k
      using span_at_within [OF ok s(2) that(1)] that(2) step(4) by (simp add: writable_at_def)
    then have "(\<forall>k. at \<le> k \<and> k < at + m \<longrightarrow> writable_at refused spans k) \<longleftrightarrow> fs_padding s \<or> \<not> refused (fs_path s)"
      using w [of at] step(2) by auto
    moreover have "(\<forall>k. at \<le> k \<and> k < at + length data \<longrightarrow> writable_at refused spans k) \<longleftrightarrow>
        (\<forall>k. at \<le> k \<and> k < at + m \<longrightarrow> writable_at refused spans k) \<and>
        (\<forall>k. at + m \<le> k \<and> k < at + m + length (drop m data) \<longrightarrow> writable_at refused spans k)"
      using step(3) by auto (meson leI)
    moreover have "fst (write_at_global_offset refused spans (at + m) (drop m data) d1) = Inr () \<longleftrightarrow>
        (\<forall>k. at + m \<le> k \<and> k < at + m + length (drop m data) \<longrightarrow> writable_at refused spans k)" for d1
      using step(2,3) by (intro less.hyps) auto
    ultimately show ?thesis by (cases "fs_padding s"; cases "refused (fs_path s)") (simp_all add: step(1))
  qed
qed

lemma write_byte_at:
  assumes ok: "spans_ok spans"
  shows "fst (write_at_global_offset refused spans at data d) = Inr () \<Longrightarrow> at \<le> k \<Longrightarrow> k < at + length data \<Longrightarrow>
    byte_at spans (snd (write_at_global_offset refused spans at data d)) k =
      Some (if padding_at spans k then 0 else data ! (k - at))"
proof (induction "length data" arbitrary: at data d rule: less_induct)
  case less
  from less.prems(2,3) have ne: "data \<noteq> []" by auto
  with less.prems(1) obtain s where s: "span_at spans at = Some s" by (cases "span_at spans at") (auto simp: write_stop)
  define m where "m = min (length data) (fs_end s - at)"
  note step = write_step [OF ne s, folded m_def]
  define d1 where "d1 = (if fs_padding s then d else store_chunk s at (take m data) d)"
  have w: "write_at_global_offset refused spans at data d = write_at_global_offset refused spans (at + m) (drop m data) d1"
    using less.prems(1) by (cases "fs_padding s"; cases "refused (fs_path s)") (simp_all add: step(1) d1_def)
  show ?case
  proof (cases "k < at + m")
    case True
    then have sk: "span_at spans k = Some s" using span_at_within [OF ok s less.prems(2)] step(4) by simp
    have "byte_at spans d1 k = Some (if padding_at spans k then 0 else data ! (k - at))"
    proof (cases "fs_padding s")
      case pad: True
      then show ?thesis using sk by (simp add: d1_def padding_at_def byte_at_def)
    next
      case pad: False
      then show ?thesis
        using store_chunk_byte_at(1) [OF ok s pad, of "take m data" k d] True step(3,4) less.prems(2) sk
        by (simp add: d1_def padding_at_def min_absorb2)
    qed
    then show ?thesis unfolding w using True by (intro write_frame [OF ok]) auto
  next
    case False
    then have "byte_at spans (snd (write_at_global_offset refused spans (at + m) (drop m data) d1)) k =
        Some (if padding_at spans k then 0 else drop m data ! (k - (at + m)))"
      using less.prems step(2,3) w by (intro less.hyps) auto
    then show ?thesis unfolding w using False step(3) less.prems by simp
  qed
qed

lemma write_other_files:
  "p \<notin> fs_path ` {s \<in> set spans. \<not> fs_padding s} \<Longrightarrow> snd (write_at_global_offset refused spans at data d) p = d p"
proof (induction "length data" arbitrary: at data d rule: less_induct)
  case less
  show ?case
  proof (cases "data = [] \<or> span_at spans at = None")
    case True
    then show ?thesis by (cases "data = []") (simp_all add: write_stop)
  next
    case False
    then obtain s where s: "data \<noteq> []" "span_at spans at = Some s" by auto
    define m where "m = min (length data) (fs_end s - at)"
    note step = write_step [OF s, folded m_def]
    have IH: "snd (write_at_global_offset refused spans (at + m) (drop m data) d1) p = d1 p" for d1
      using less.prems step(2,3) by (intro less.hyps) auto
    have "\<not> fs_padding s \<Longrightarrow> p \<noteq> fs_path s" using less.prems span_atD [OF s(2)] by auto
    then show ?thesis by (cases "fs_padding s") (simp_all add: step(1) IH store_chunk_def)
  qed
qed

section \<open>The tables the builders make\<close>

definition plain_part :: "bytes \<Rightarrow> bool" where
  "plain_part part \<longleftrightarrow> part \<noteq> [] \<and> 47 \<notin> set part"

definition dir_prefix :: "path \<Rightarrow> path" where
  "dir_prefix base = (if base = [] \<or> last base = 47 then base else base @ [47])"

fun join_parts :: "bytes list \<Rightarrow> path" where
  "join_parts [] = []"
| "join_parts [p] = p"
| "join_parts (p # ps) = p @ [47] @ join_parts ps"

lemma path_join_plain: "plain_part p \<Longrightarrow> path_join base p = dir_prefix base @ p"
  by (cases p) (auto simp: path_join_def dir_prefix_def plain_part_def)

lemma fold_path_join:
  "list_all plain_part ps \<Longrightarrow> ps \<noteq> [] \<Longrightarrow> foldl path_join base ps = dir_prefix base @ join_parts ps"
proof (induction ps arbitrary: base)
  case (Cons p ps)
  then have p: "plain_part p" by simp
  then have "dir_prefix (dir_prefix base @ p) = dir_prefix base @ p @ [47]"
    by (metis append_is_Nil_conv append_assoc dir_prefix_def last_appendR last_in_set plain_part_def)
  with Cons.prems Cons.IH [of "dir_prefix base @ p"] p show ?case
    by (cases "ps = []") (auto simp: path_join_plain neq_Nil_conv)
qed simp

lemma takeWhile_join_parts: "plain_part p \<Longrightarrow> takeWhile (\<lambda>c. c \<noteq> 47) (join_parts (p # ps)) = p"
  by (cases ps) (auto simp: plain_part_def takeWhile_append)

lemma join_parts_inj:
  "list_all plain_part ps \<Longrightarrow> list_all plain_part qs \<Longrightarrow> ps \<noteq> [] \<Longrightarrow> qs \<noteq> [] \<Longrightarrow> join_parts ps = join_parts qs \<Longrightarrow> ps = qs"
proof (induction ps arbitrary: qs)
  case (Cons p ps)
  then obtain q qs' where q: "qs = q # qs'" "plain_part q" "plain_part p" by (cases qs) auto
  with Cons.prems(5) have "p = q" using takeWhile_join_parts by metis
  have ne: "plain_part r \<Longrightarrow> join_parts (r # rs) \<noteq> []" for r rs by (cases rs) (auto simp: plain_part_def)
  show ?case
  proof (cases "ps = [] \<or> qs' = []")
    case True
    then show ?thesis using Cons.prems(5) \<open>p = q\<close> by (cases ps; cases qs') (auto simp: q)
  next
    case False
    then have "join_parts ps = join_parts qs'" using Cons.prems(5) \<open>p = q\<close> by (cases ps; cases qs') (auto simp: q)
    with False Cons q have "ps = qs'" by auto
    with q \<open>p = q\<close> show ?thesis by simp
  qed
qed simp

text \<open>The files that are not padding, by the same reading of the list of flags.\<close>

fun unpadded :: "(bytes list \<times> int) list \<Rightarrow> bool list \<Rightarrow> (bytes list \<times> int) list" where
  "unpadded [] padding = []"
| "unpadded (f # files) [] = f # files"
| "unpadded (f # files) (p # padding) = (if p then unpadded files padding else f # unpadded files padding)"

definition files_ok :: "(bytes list \<times> int) list \<Rightarrow> bool list \<Rightarrow> bool" where
  "files_ok files padding \<longleftrightarrow>
     list_all (\<lambda>(ps, len). ps \<noteq> [] \<and> list_all plain_part ps \<and> 0 \<le> len \<and> len < 2 ^ 63) files \<and>
     distinct (map fst (unpadded files padding))"

definition total_size :: "(bytes list \<times> int) list \<Rightarrow> nat" where
  "total_size files = sum_list (map (nat \<circ> snd) files)"

lemma unpadded_Nil: "unpadded files [] = files"
  by (cases files) auto

lemma spans_padded_from_Ret:
  "list_all (\<lambda>(ps, len). 0 \<le> len \<and> len < 2 ^ 63) files \<Longrightarrow> cursor < 2 ^ 64 \<Longrightarrow>
   (\<exists>spans. spans_padded_from base files padding cursor = Ret spans) \<longleftrightarrow> cursor + total_size files < 2 ^ 64"
proof (induction files arbitrary: cursor padding)
  case (Cons f files)
  obtain ps len where f: "f = (ps, len)" by (cases f)
  with Cons.prems have "i64_as_u64 len = nat len" by (simp add: i64_as_u64_def)
  then show ?case
    using Cons.IH [of "cursor + nat len" "drop 1 padding"] Cons.prems f
    by (auto simp: u64_add_def total_size_def on_ret_def add.assoc split: outcome.splits)
qed (simp add: total_size_def)

lemma spans_padded_from_props:
  "spans_padded_from base files padding cursor = Ret spans \<Longrightarrow>
   list_all (\<lambda>(ps, len). 0 \<le> len \<and> len < 2 ^ 63) files \<Longrightarrow>
   sorted_wrt (\<lambda>s t. fs_end s \<le> fs_start t) spans \<and>
   (\<forall>s\<in>set spans. cursor \<le> fs_start s \<and> fs_start s \<le> fs_end s) \<and>
   (\<forall>k. (\<exists>s\<in>set spans. fs_start s \<le> k \<and> k < fs_end s) \<longleftrightarrow> cursor \<le> k \<and> k < cursor + total_size files) \<and>
   map fs_path (filter (\<lambda>s. \<not> fs_padding s) spans) = map (\<lambda>f. foldl path_join base (fst f)) (unpadded files padding)"
proof (induction files arbitrary: cursor padding spans)
  case (Cons f files)
  obtain ps len where f: "f = (ps, len)" by (cases f)
  with Cons.prems(2) have len: "i64_as_u64 len = nat len" by (simp add: i64_as_u64_def)
  with Cons.prems(1) f obtain rest where rest: "spans_padded_from base files (drop 1 padding) (cursor + nat len) = Ret rest"
    and spans: "spans = \<lparr>fs_path = foldl path_join base ps, fs_start = cursor, fs_end = cursor + nat len,
      fs_padding = (case padding of [] \<Rightarrow> False | p # _ \<Rightarrow> p)\<rparr> # rest"
    by (auto simp: res_iff u64_add_def split: if_splits)
  note IH = Cons.IH [OF rest] Cons.prems(2)
  have sum: "total_size ((ps, len) # files) = nat len + total_size files" by (simp add: total_size_def f)
  have "map fs_path (filter (\<lambda>s. \<not> fs_padding s) spans) = map (\<lambda>f. foldl path_join base (fst f)) (unpadded (f # files) padding)"
    using IH by (cases padding) (auto simp: spans f unpadded_Nil)
  moreover have "(\<exists>s\<in>set spans. fs_start s \<le> k \<and> k < fs_end s) \<longleftrightarrow>
      (cursor \<le> k \<and> k < cursor + nat len) \<or> (\<exists>s\<in>set rest. fs_start s \<le> k \<and> k < fs_end s)" for k
    by (simp add: spans)
  ultimately show ?case using IH by (auto simp: sum spans f)
qed (simp add: total_size_def)

lemma build_file_spans_ok:
  assumes "build_file_spans_padded base files padding = Ret spans" "files_ok files padding"
  shows "spans_ok spans" "span_at spans k \<noteq> None \<longleftrightarrow> k < total_size files"
proof -
  have l: "list_all (\<lambda>(ps, len). 0 \<le> len \<and> len < 2 ^ 63) files"
    using assms(2) by (auto simp: files_ok_def list_all_iff)
  note P = spans_padded_from_props [OF assms(1) [unfolded build_file_spans_padded_def] l]
  have "set (unpadded files padding) \<subseteq> set files" by (induction files padding rule: unpadded.induct) auto
  then have plain: "\<forall>f\<in>set (unpadded files padding). fst f \<noteq> [] \<and> list_all plain_part (fst f)"
    using assms(2) by (fastforce simp: files_ok_def list_all_iff)
  have "inj_on (\<lambda>f. foldl path_join base (fst f)) (set (unpadded files padding))"
  proof (rule inj_onI)
    fix f g
    assume fg: "f \<in> set (unpadded files padding)" "g \<in> set (unpadded files padding)"
      "foldl path_join base (fst f) = foldl path_join base (fst g)"
    then have "fst f = fst g" using plain by (metis fold_path_join join_parts_inj same_append_eq)
    then show "f = g" using fg assms(2) by (auto simp: files_ok_def distinct_map inj_on_def)
  qed
  then have "distinct (map (\<lambda>f. foldl path_join base (fst f)) (unpadded files padding))"
    using assms(2) by (auto simp: files_ok_def distinct_map)
  then show ok: "spans_ok spans" using P by (simp add: spans_ok_def)
  have "span_at spans k \<noteq> None \<longleftrightarrow> (\<exists>s\<in>set spans. fs_start s \<le> k \<and> k < fs_end s)"
    using span_at_iff [OF ok, of k] by (cases "span_at spans k") auto
  then show "span_at spans k \<noteq> None \<longleftrightarrow> k < total_size files" using P by simp
qed

section \<open>Saving a whole torrent\<close>

definition piece_of :: "bytes \<Rightarrow> nat \<Rightarrow> nat \<Rightarrow> bytes" where
  "piece_of content piece_length i = take piece_length (drop (i * piece_length) content)"

text \<open>The verified pieces are written one by one, in whatever order they complete.\<close>

fun save_pieces ::
  "(path \<Rightarrow> bool) \<Rightarrow> file_span list \<Rightarrow> nat \<Rightarrow> bytes \<Rightarrow> nat list \<Rightarrow> disk \<Rightarrow> ((io_error + unit) \<times> disk) outcome" where
  "save_pieces refused spans piece_length content [] d = Ret (Inr (), d)"
| "save_pieces refused spans piece_length content (i # order) d =
     on_ret (write_piece refused spans i piece_length (piece_of content piece_length i) d) (\<lambda>(r, d').
       case r of Inl e \<Rightarrow> Ret (Inl e, d') | Inr _ \<Rightarrow> save_pieces refused spans piece_length content order d')"

definition holds_content :: "file_span list \<Rightarrow> bytes \<Rightarrow> bool" where
  "holds_content spans content \<longleftrightarrow> spans_ok spans \<and> length content < 2 ^ 64 \<and>
     (\<forall>k. span_at spans k \<noteq> None \<longleftrightarrow> k < length content) \<and> (\<forall>k < length content. padding_at spans k \<longrightarrow> content ! k = 0)"

lemma div_eq_range: "0 < n \<Longrightarrow> k div n = i \<longleftrightarrow> i * n \<le> k \<and> k < i * n + n" for k n i :: nat
  by (metis add.commute div_nat_eqI div_times_less_eq_dividend dividend_less_div_times mult.commute mult_Suc)

lemma write_piece_saves:
  assumes holds_content: "holds_content spans content" and p: "0 < piece_length" "i * piece_length < length content" and free: "\<forall>p. \<not> refused p"
  obtains d' where "write_piece refused spans i piece_length (piece_of content piece_length i) d = Ret (Inr (), d')"
    "\<And>k. k < length content \<Longrightarrow> k div piece_length = i \<or> byte_at spans d k = Some (content ! k) \<Longrightarrow>
       byte_at spans d' k = Some (content ! k)"
proof -
  let ?at = "i * piece_length" and ?data = "piece_of content piece_length i"
  have ok: "spans_ok spans" using holds_content by (simp add: holds_content_def)
  obtain r d' where w: "write_at_global_offset refused spans ?at ?data d = (r, d')" by (meson surj_pair)
  have len: "?at + length ?data \<le> length content" using p(2) by (simp add: piece_of_def)
  then have "writable_at refused spans k" if "k < ?at + length ?data" for k
    using that holds_content free by (auto simp: writable_at_def holds_content_def split: option.splits)
  then have r: "r = Inr ()" using write_ok_iff [OF ok, of refused ?at ?data d] w by auto
  have "u64_mul i piece_length = Ret ?at" using p holds_content by (simp add: u64_mul_def holds_content_def)
  then have "write_piece refused spans i piece_length ?data d = Ret (Inr (), d')" using w r by (simp add: write_piece_def)
  moreover have "byte_at spans d' k = Some (content ! k)"
    if k: "k < length content" "k div piece_length = i \<or> byte_at spans d k = Some (content ! k)" for k
  proof (cases "?at \<le> k \<and> k < ?at + length ?data")
    case True
    then have "k - ?at < length ?data" "?at + (k - ?at) = k" by auto
    then have "?data ! (k - ?at) = content ! k" using p(2) by (simp add: piece_of_def nth_drop)
    then show ?thesis using write_byte_at [OF ok, of refused ?at ?data d k] w r True holds_content k(1) by (auto simp: holds_content_def)
  next
    case False
    then have "k div piece_length \<noteq> i" using k(1) p by (auto simp: div_eq_range piece_of_def)
    then show ?thesis using write_frame [OF ok False, of d "content ! k" refused] w k(2) by auto
  qed
  ultimately show ?thesis using that by blast
qed

lemma save_pieces_saves:
  assumes "holds_content spans content" "0 < piece_length" "\<forall>p. \<not> refused p"
  shows "\<forall>i\<in>set order. i * piece_length < length content \<Longrightarrow>
    \<exists>d'. save_pieces refused spans piece_length content order d = Ret (Inr (), d') \<and>
      (\<forall>k < length content. k div piece_length \<in> set order \<or> byte_at spans d k = Some (content ! k) \<longrightarrow>
        byte_at spans d' k = Some (content ! k))"
proof (induction order arbitrary: d)
  case (Cons i order)
  then obtain d1 where "write_piece refused spans i piece_length (piece_of content piece_length i) d = Ret (Inr (), d1)"
    and d1: "\<And>k. k < length content \<Longrightarrow> k div piece_length = i \<or> byte_at spans d k = Some (content ! k) \<Longrightarrow>
       byte_at spans d1 k = Some (content ! k)"
    using write_piece_saves [OF assms(1,2) _ assms(3), of i d thesis] by (meson list.set_intros(1))
  moreover obtain d' where "save_pieces refused spans piece_length content order d1 = Ret (Inr (), d')"
    "\<forall>k < length content. k div piece_length \<in> set order \<or> byte_at spans d1 k = Some (content ! k) \<longrightarrow>
        byte_at spans d' k = Some (content ! k)"
    using Cons.IH [of d1] Cons.prems by (meson list.set_intros(2))
  ultimately show ?case by auto
qed simp

lemma read_bytes_at:
  assumes "spans_ok spans" "\<And>k. at \<le> k \<Longrightarrow> k < at + n \<Longrightarrow> byte_at spans d k = Some (content ! k)" "at + n \<le> length content"
  shows "read_at_global_offset spans at n d = Inr (take n (drop at content))"
proof -
  have "map (byte_at spans d) [at..<at + n] = map Some (take n (drop at content))"
    using assms(2,3) by (intro nth_equalityI) auto
  then show ?thesis using read_from_offset_iff [OF assms(1), of at n "[]" d] by (simp add: read_at_global_offset_def)
qed

section \<open>Properties\<close>

text \<open>The bytes a reader sees: those of a padding file are zeros whatever was written.\<close>

definition masked :: "file_span list \<Rightarrow> nat \<Rightarrow> bytes \<Rightarrow> bytes" where
  "masked spans at data = map (\<lambda>i. if padding_at spans (at + i) then 0 else data ! i) [0..<length data]"

lemma read_written:
  assumes ok: "spans_ok spans" and w: "write_at_global_offset refused spans at data d = (r, d')"
    and r: "r = Inr ()" and k: "at \<le> k" "k + n \<le> at + length data"
  shows "read_at_global_offset spans k n d' = Inr (take n (drop (k - at) (masked spans at data)))"
proof -
  have "byte_at spans d' (k + i) = Some (masked spans at data ! (k - at + i))" if "i < n" for i
    using write_byte_at [OF ok, of refused at data d "k + i"] w r k that by (simp add: masked_def)
  then have "map (byte_at spans d') [k..<k + n] = map Some (take n (drop (k - at) (masked spans at data)))"
    using k by (intro nth_equalityI) (auto simp: masked_def)
  then show ?thesis using read_from_offset_iff [OF ok, of k n "[]" d'] by (simp add: read_at_global_offset_def)
qed

lemma read_apart:
  assumes ok: "spans_ok spans" and w: "write_at_global_offset refused spans at data d = (r, d')"
    and apart: "k + n \<le> at \<or> at + length data \<le> k" and before: "read_at_global_offset spans k n d = Inr out"
  shows "read_at_global_offset spans k n d' = Inr out"
proof -
  have out: "map (byte_at spans d) [k..<k + n] = map Some out"
    using before read_from_offset_iff [OF ok, of k n "[]" d] by (simp add: read_at_global_offset_def)
  have "byte_at spans d' j = byte_at spans d j" if j: "k \<le> j" "j < k + n" for j
  proof -
    have "byte_at spans d j \<in> set (map Some out)" unfolding out [symmetric] using j by simp
    then obtain b where "byte_at spans d j = Some b" by auto
    with write_frame [OF ok _ this, of at data refused] w j apart show ?thesis by auto
  qed
  then have "map (byte_at spans d') [k..<k + n] = map (byte_at spans d) [k..<k + n]" by simp
  with out show ?thesis using read_from_offset_iff [OF ok, of k n "[]" d'] by (simp add: read_at_global_offset_def)
qed



section \<open>Witnesses\<close>

text \<open>Two files with a byte of padding between them.\<close>

definition sample_files :: "(bytes list \<times> int) list" where
  "sample_files = [([[97], [98]], 3), ([[46], [112]], 1), ([[99]], 2)]"

definition sample_spans :: "file_span list" where
  "sample_spans =
     [\<lparr>fs_path = [100, 47, 97, 47, 98], fs_start = 0, fs_end = 3, fs_padding = False\<rparr>,
      \<lparr>fs_path = [100, 47, 46, 47, 112], fs_start = 3, fs_end = 4, fs_padding = True\<rparr>,
      \<lparr>fs_path = [100, 47, 99], fs_start = 4, fs_end = 6, fs_padding = False\<rparr>]"

lemma sample_spans_built: "build_file_spans_padded [100] sample_files [False, True] = Ret sample_spans"
  by (simp add: build_file_spans_padded_def sample_files_def sample_spans_def u64_add_def i64_as_u64_def path_join_def)

lemma sample_files_ok: "files_ok sample_files [False, True]"
  by (simp add: files_ok_def sample_files_def plain_part_def)

lemma sample_total: "total_size sample_files = 6"
  by (simp add: total_size_def sample_files_def)

lemma sample_span_at:
  "span_at sample_spans k = (if k < 3 then Some (sample_spans ! 0) else if k < 4 then Some (sample_spans ! 1)
     else if k < 6 then Some (sample_spans ! 2) else None)"
  by (auto simp: span_at_def partition_point_def sample_spans_def Let_def)



end
