(* ===== verification/Torrent.thy ===== *)
theory Torrent
  imports V2_Meta File_Spans
begin

text \<open>
  \<open>torrent.rs\<close>: reading a .torrent file or the info dictionary a magnet link leads to, and
  what the rest of the client asks of the result. SHA-1 comes from a crate and is a
  parameter. Reading a version 2 torrent checks its layers, whose code has operations that
  could panic, so the readers return an \<open>outcome\<close>; that they never panic is a theorem.
\<close>

section \<open>The data\<close>

record v2_meta_t =
  vm_files :: "v2_file list"
  vm_layers :: layers
  vm_info_hash :: hash

record torrent_file =
  tf_announce :: "bytes option"
  tf_announce_list :: "bytes list list"
  tf_info :: bencode
  tf_info_hash :: bytes
  tf_piece_length :: int
  tf_pieces :: "bytes list"
  tf_name :: bytes
  tf_files :: "(bytes list \<times> int) list"
  tf_padding :: "bool list"
  tf_multi_file :: bool
  tf_url_list :: "bytes list"
  tf_private :: bool
  tf_v2 :: "v2_meta_t option"
  tf_v2_pieces :: "v2_piece list"

datatype torrent_error = Decode decode_error | NotADict | MissingKey string | WrongType string
  | PiecesLengthNotMultipleOf20 | InvalidLength string | InfoHashMismatch | UnsafeName bytes
  | PieceCountMismatch nat nat | TooLarge string | V2 v2_error | UnsupportedVersion int

definition MAX_PIECE_LENGTH :: int where
  "MAX_PIECE_LENGTH = 2 ^ 27"

definition map_err :: "('e \<Rightarrow> 'f) \<Rightarrow> 'e + 'a \<Rightarrow> 'f + 'a" where
  "map_err f r = (case r of Inl e \<Rightarrow> Inl (f e) | Inr a \<Rightarrow> Inr a)"

definition on_ok :: "'e + 'a \<Rightarrow> ('a \<Rightarrow> ('e + 'b) outcome) \<Rightarrow> ('e + 'b) outcome" where
  "on_ok r k = (case r of Inl e \<Rightarrow> Ret (Inl e) | Inr a \<Rightarrow> k a)"

section \<open>The raw bytes of the info dictionary\<close>

function find_key_from :: "bytes \<Rightarrow> bytes \<Rightarrow> nat \<Rightarrow> torrent_error + (nat \<times> nat)" where
  "find_key_from data key pos =
     (if length data \<le> pos then Inl (Decode decode_error.UnexpectedEof)
      else if data ! pos = 101 then Inl (MissingKey ''info'')
      else and_then (map_err Decode (decode_value_with_span (decoder_new (drop pos data)))) (\<lambda>((kval, kspan), kdec).
        case as_bytes kval of
          None \<Rightarrow> Inl (WrongType ''dict key'')
        | Some key_bytes \<Rightarrow>
            let key_abs_end = pos + snd kspan
            in and_then (map_err Decode (decode_value_with_span (decoder_new (drop key_abs_end data)))) (\<lambda>((vval, vspan), vdec).
                 let value_start_abs = key_abs_end + fst vspan;
                     value_end_abs = key_abs_end + snd vspan
                 in if key_bytes = key then Inr (value_start_abs, value_end_abs)
                    else find_key_from data key value_end_abs)))"
  by auto

lemma with_span_progress:
  "decode_value_with_span (decoder_new data) = Inr ((v, span), d') \<Longrightarrow>
   \<exists>b. span = (0, b) \<and> 0 < b \<and> b \<le> length data \<and> take b data = encode v \<and> decode_value data True 0 0 = Inr (v, b)"
proof -
  assume r: "decode_value_with_span (decoder_new data) = Inr ((v, span), d')"
  then obtain b where b: "decode_value data True 0 0 = Inr (v, b)" "span = (0, b)"
    by (auto simp: decode_value_with_span_def decoder_new_def res_iff)
  have "0 < b" "b \<le> length data" using decode_value_bound [OF b(1)] by auto
  moreover have "data = encode v @ drop b data" using decode_sound(1) [OF b(1)] by simp
  ultimately show ?thesis using b by (metis append_eq_conv_conj append_take_drop_id length_take min_absorb2 same_append_eq append_same_eq)
qed

termination find_key_from
  by (relation "measure (\<lambda>(data, key, pos). length data - pos)")
    (auto simp: map_err_def split: sum.splits dest!: with_span_progress)

declare find_key_from.simps [simp del]

definition find_key_span :: "bytes \<Rightarrow> bytes \<Rightarrow> torrent_error + (nat \<times> nat)" where
  "find_key_span data key = (if data = [] \<or> hd data \<noteq> 100 then Inl NotADict else find_key_from data key 1)"

section \<open>Building a torrent from its info dictionary\<close>

definition info_hash_matches :: "(bytes \<Rightarrow> bytes) \<Rightarrow> bytes \<Rightarrow> bytes \<Rightarrow> bool" where
  "info_hash_matches sha1 raw_info expected \<longleftrightarrow>
     sha1 raw_info = expected \<or> take 20 (sha256 raw_info) = expected"

definition short_hash :: "v2_meta_t \<Rightarrow> bytes" where
  "short_hash m = take 20 (vm_info_hash m)"

definition layer_of :: "v2_meta_t \<Rightarrow> v2_file \<Rightarrow> hash list option" where
  "layer_of m file = Option.bind (vf_root file) (vm_layers m)"

definition v2_meta :: "bencode \<Rightarrow> bencode \<Rightarrow> bytes \<Rightarrow> bencode option \<Rightarrow> (torrent_error + v2_meta_t) outcome" where
  "v2_meta info ftree raw_info layers =
     on_ok (map_err V2 (parse_file_tree ftree)) (\<lambda>files.
     on_ok (map_err V2 (parse_layers layers)) (\<lambda>layers.
     on_ok (ok_or (Option.bind (get (lit ''piece length'') info) as_int) (MissingKey ''piece length'')) (\<lambda>piece_length.
     on_ret (validate_layers files layers piece_length) (\<lambda>r.
     on_ok (map_err V2 r) (\<lambda>_.
     Ret (Inr \<lparr>vm_files = files, vm_layers = layers, vm_info_hash = sha256 raw_info\<rparr>))))))"

fun v2_file_list :: "v2_file list \<Rightarrow> nat \<Rightarrow> torrent_error + (bytes list \<times> int) list" where
  "v2_file_list [] so_far = Inr []"
| "v2_file_list (f # fs) so_far =
     (if 2 ^ 64 \<le> so_far + vf_length f then Inl (TooLarge ''total length'')
      else if 2 ^ 63 \<le> vf_length f then Inl (TooLarge ''length'')
      else and_then (v2_file_list fs (so_far + vf_length f)) (\<lambda>files. Inr ((vf_path f, int (vf_length f)) # files)))"

definition is_private :: "bencode \<Rightarrow> bool" where
  "is_private info = (case Option.bind (get (lit ''private'') info) as_int of None \<Rightarrow> False | Some v \<Rightarrow> v \<noteq> 0)"

definition first_20 :: "v2_piece \<Rightarrow> bytes" where
  "first_20 p = take 20 (vp_root p)"

definition build_v2_only_torrent ::
  "bencode \<Rightarrow> bencode \<Rightarrow> bytes \<Rightarrow> bytes option \<Rightarrow> bytes list list \<Rightarrow> bytes list \<Rightarrow> bencode option \<Rightarrow>
   (torrent_error + torrent_file) outcome" where
  "build_v2_only_torrent info ftree raw_info announce announce_list url_list layers =
     on_ok (ok_or (Option.bind (get (lit ''piece length'') info) as_int) (MissingKey ''piece length'')) (\<lambda>piece_length.
     if \<not> valid_piece_length piece_length then Ret (Inl (V2 BadPieceLength))
     else if MAX_PIECE_LENGTH < piece_length then Ret (Inl (TooLarge ''piece length''))
     else on_ok (ok_or (Option.bind (get (lit ''name'') info) as_str) (MissingKey ''name'')) (\<lambda>name.
     if \<not> is_safe_component name then Ret (Inl (UnsafeName name))
     else on_ret (v2_meta info ftree raw_info layers) (\<lambda>r. on_ok r (\<lambda>meta.
     on_ok (v2_file_list (vm_files meta) 0) (\<lambda>files.
     let multi_file = (\<not> (length (vm_files meta) = 1 \<and> vf_path (vm_files meta ! 0) = [name]))
     in on_ret (plan_pieces (vm_files meta) (vm_layers meta) (nat piece_length)) (\<lambda>plan.
     let v2_pieces = (case plan of None \<Rightarrow> [] | Some ps \<Rightarrow> ps)
     in Ret (Inr \<lparr>tf_announce = announce, tf_announce_list = announce_list, tf_info = info,
          tf_info_hash = short_hash meta, tf_piece_length = piece_length, tf_pieces = map first_20 v2_pieces,
          tf_name = name, tf_files = files, tf_padding = replicate (length files) False,
          tf_multi_file = multi_file, tf_url_list = url_list, tf_private = is_private info,
          tf_v2 = Some meta, tf_v2_pieces = v2_pieces\<rparr>)))))))"

text \<open>One entry of the \<open>files\<close> list, and the list up to the first bad entry.\<close>

definition file_entry :: "bencode \<Rightarrow> torrent_error + ((bytes list \<times> int) \<times> bool)" where
  "file_entry f =
     (let is_padding = (case Option.bind (get (lit ''attr'') f) as_str of None \<Rightarrow> False | Some attr \<Rightarrow> 112 \<in> set attr)
      in and_then (ok_or (Option.bind (get (lit ''length'') f) as_int) (MissingKey ''length'')) (\<lambda>len.
         if len < 0 then Inl (InvalidLength ''length'')
         else and_then (ok_or (Option.bind (get (lit ''path'') f) as_list) (MissingKey ''path'')) (\<lambda>parts.
           let path = List.map_filter as_str parts
           in if path = [] then Inl (UnsafeName [])
              else case find (\<lambda>part. \<not> is_safe_component part) path of
                     Some bad \<Rightarrow> Inl (UnsafeName bad)
                   | None \<Rightarrow> Inr ((path, len), is_padding))))"

fun file_entries :: "bencode list \<Rightarrow> torrent_error + ((bytes list \<times> int) \<times> bool) list" where
  "file_entries [] = Inr []"
| "file_entries (f # fs) = and_then (file_entry f) (\<lambda>e. and_then (file_entries fs) (\<lambda>es. Inr (e # es)))"

fun checked_total :: "(bytes list \<times> int) list \<Rightarrow> nat \<Rightarrow> nat option" where
  "checked_total [] so_far = Some so_far"
| "checked_total ((path, len) # files) so_far =
     (if so_far + i64_as_u64 len < 2 ^ 64 then checked_total files (so_far + i64_as_u64 len) else None)"

definition layout_of :: "bencode \<Rightarrow> bytes \<Rightarrow> torrent_error + ((bytes list \<times> int) list \<times> bool list)" where
  "layout_of info name =
     (case Option.bind (get (lit ''length'') info) as_int of
        Some len \<Rightarrow> if len < 0 then Inl (InvalidLength ''length'') else Inr ([([name], len)], [False])
      | None \<Rightarrow>
          (case Option.bind (get (lit ''files'') info) as_list of
             Some file_list \<Rightarrow> and_then (file_entries file_list) (\<lambda>es. Inr (map fst es, map snd es))
           | None \<Rightarrow> Inl (MissingKey ''length|files'')))"

definition build_v1_torrent ::
  "(bytes \<Rightarrow> bytes) \<Rightarrow> bencode \<Rightarrow> bytes \<Rightarrow> bytes option \<Rightarrow> bytes list list \<Rightarrow> bytes list \<Rightarrow> v2_meta_t option \<Rightarrow>
   torrent_error + torrent_file" where
  "build_v1_torrent sha1 info raw_info announce announce_list url_list v2 =
     and_then (ok_or (Option.bind (get (lit ''piece length'') info) as_int) (MissingKey ''piece length'')) (\<lambda>piece_length.
     if piece_length \<le> 0 then Inl (InvalidLength ''piece length'')
     else and_then (ok_or (Option.bind (get (lit ''pieces'') info) as_bytes) (MissingKey ''pieces'')) (\<lambda>pieces_raw.
     if length pieces_raw mod 20 \<noteq> 0 then Inl PiecesLengthNotMultipleOf20
     else if MAX_PIECE_LENGTH < piece_length then Inl (TooLarge ''piece length'')
     else and_then (ok_or (Option.bind (get (lit ''name'') info) as_str) (MissingKey ''name'')) (\<lambda>name.
     if \<not> is_safe_component name then Inl (UnsafeName name)
     else and_then (layout_of info name) (\<lambda>(files, padding).
     and_then (ok_or (checked_total files 0) (TooLarge ''total length'')) (\<lambda>total.
     let pieces = chunks 20 pieces_raw;
         multi_file = (Option.bind (get (lit ''length'') info) as_int = None \<and> get (lit ''files'') info \<noteq> None);
         expected_pieces = div_ceil total (nat piece_length)
     in if length pieces \<noteq> expected_pieces then Inl (PieceCountMismatch (length pieces) expected_pieces)
        else Inr \<lparr>tf_announce = announce, tf_announce_list = announce_list, tf_info = info,
               tf_info_hash = sha1 raw_info, tf_piece_length = piece_length, tf_pieces = pieces,
               tf_name = name, tf_files = files, tf_padding = padding, tf_multi_file = multi_file,
               tf_url_list = url_list, tf_private = is_private info, tf_v2 = v2, tf_v2_pieces = []\<rparr>)))))"

definition build_torrent_from_info ::
  "(bytes \<Rightarrow> bytes) \<Rightarrow> bencode \<Rightarrow> bytes \<Rightarrow> bytes option \<Rightarrow> bytes list list \<Rightarrow> bytes list \<Rightarrow> bencode option \<Rightarrow>
   (torrent_error + torrent_file) outcome" where
  "build_torrent_from_info sha1 info raw_info announce announce_list url_list layers =
     (let version = Option.bind (get (lit ''meta version'') info) as_int;
          file_tree = (if version = Some 2 then get (lit ''file tree'') info else None)
      in if version \<noteq> None \<and> version \<noteq> Some 2 then Ret (Inl (UnsupportedVersion (the version)))
         else case file_tree of
           None \<Rightarrow> Ret (build_v1_torrent sha1 info raw_info announce announce_list url_list None)
         | Some ftree \<Rightarrow>
             if get (lit ''pieces'') info = None
             then build_v2_only_torrent info ftree raw_info announce announce_list url_list layers
             else on_ret (v2_meta info ftree raw_info layers) (\<lambda>r.
                    Ret (build_v1_torrent sha1 info raw_info announce announce_list url_list
                      (case r of Inl _ \<Rightarrow> None | Inr m \<Rightarrow> Some m))))"

section \<open>Reading a .torrent file, or what a magnet link fetched\<close>

definition read_announce_list :: "(bytes \<times> bencode) list \<Rightarrow> bytes list list" where
  "read_announce_list dict =
     (case Option.bind (map_of dict (lit ''announce-list'')) as_list of
        None \<Rightarrow> []
      | Some tiers \<Rightarrow> map (\<lambda>tier. List.map_filter as_str tier) (List.map_filter as_list tiers))"

definition read_url_list :: "(bytes \<times> bencode) list \<Rightarrow> bytes list" where
  "read_url_list dict =
     (case map_of dict (lit ''url-list'') of
        Some (BBytes b) \<Rightarrow> (case as_str (BBytes b) of None \<Rightarrow> [] | Some u \<Rightarrow> [u])
      | Some (BList l) \<Rightarrow> List.map_filter as_str l
      | _ \<Rightarrow> [])"

definition parse_torrent_file :: "(bytes \<Rightarrow> bytes) \<Rightarrow> bytes \<Rightarrow> (torrent_error + torrent_file) outcome" where
  "parse_torrent_file sha1 data =
     on_ok (map_err Decode (decode data)) (\<lambda>top.
     on_ok (ok_or (as_dict top) NotADict) (\<lambda>dict.
     on_ok (ok_or (map_of dict (lit ''info'')) (MissingKey ''info'')) (\<lambda>info.
     on_ok (find_key_span data (lit ''info'')) (\<lambda>(info_start, info_end).
     let raw_info = take (info_end - info_start) (drop info_start data);
         announce = Option.bind (map_of dict (lit ''announce'')) as_str
     in build_torrent_from_info sha1 info raw_info announce (read_announce_list dict) (read_url_list dict)
          (map_of dict (lit ''piece layers''))))))"

definition from_info_dict_bytes ::
  "(bytes \<Rightarrow> bytes) \<Rightarrow> bytes \<Rightarrow> bytes \<Rightarrow> bytes option \<Rightarrow> bytes list list \<Rightarrow> (torrent_error + torrent_file) outcome" where
  "from_info_dict_bytes sha1 raw_info expected_info_hash announce announce_list =
     (if \<not> info_hash_matches sha1 raw_info expected_info_hash then Ret (Inl InfoHashMismatch)
      else on_ok (map_err Decode (decode raw_info)) (\<lambda>info.
        build_torrent_from_info sha1 info raw_info announce announce_list [] None))"

section \<open>What the client asks of a torrent\<close>

definition hex_digit :: "nat \<Rightarrow> u8" where
  "hex_digit n = (if n < 10 then 48 + of_nat n else 87 + of_nat n)"

definition info_hash_hex :: "bytes \<Rightarrow> bytes" where
  "info_hash_hex hash = concat (map (\<lambda>b. [hex_digit (unat b div 16), hex_digit (unat b mod 16)]) hash)"

definition tracker_urls :: "torrent_file \<Rightarrow> bytes list" where
  "tracker_urls t =
     remdups_adj (sort ((case tf_announce t of None \<Rightarrow> [] | Some u \<Rightarrow> [u]) @ concat (tf_announce_list t)))"

text \<open>On an error the torrent is as it was.\<close>

definition install_layers :: "layers \<Rightarrow> torrent_file \<Rightarrow> ((v2_error + unit) \<times> torrent_file) outcome" where
  "install_layers layers t =
     (case tf_v2 t of
        None \<Rightarrow> Ret (Inl BadLayer, t)
      | Some meta \<Rightarrow>
          on_ret (validate_layers (vm_files meta) layers (tf_piece_length t)) (\<lambda>r.
          case r of
            Inl e \<Rightarrow> Ret (Inl e, t)
          | Inr _ \<Rightarrow>
              let combined = vm_layers meta ++ layers
              in on_ret (plan_pieces (vm_files meta) combined (nat (tf_piece_length t))) (\<lambda>plan.
                 case plan of
                   None \<Rightarrow> Ret (Inl BadLayer, t)
                 | Some v2_pieces \<Rightarrow>
                     Ret (Inr (), t\<lparr>tf_v2 := Some (meta\<lparr>vm_layers := combined\<rparr>), tf_pieces := map first_20 v2_pieces,
                       tf_v2_pieces := v2_pieces\<rparr>))))"

definition missing_layers :: "torrent_file \<Rightarrow> (hash \<times> nat) list" where
  "missing_layers t =
     (case tf_v2 t of
        None \<Rightarrow> []
      | Some meta \<Rightarrow>
          List.map_filter (\<lambda>f. case vf_root f of None \<Rightarrow> None
              | Some root \<Rightarrow> if vm_layers meta root = None then Some (root, vf_length f) else None)
            (filter (\<lambda>f. vf_length f > nat (tf_piece_length t)) (vm_files meta)))"

definition tracker_tiers :: "torrent_file \<Rightarrow> bytes list list" where
  "tracker_tiers t =
     (let tiers = filter (\<lambda>tier. tier \<noteq> []) (tf_announce_list t)
      in case tf_announce t of
           None \<Rightarrow> tiers
         | Some announce \<Rightarrow> if \<not> list_ex (\<lambda>tier. announce \<in> set tier) tiers then [announce] # tiers else tiers)"

definition is_v2_only :: "torrent_file \<Rightarrow> bool" where
  "is_v2_only t \<longleftrightarrow> tf_v2 t \<noteq> None \<and> get (lit ''pieces'') (tf_info t) = None"

fun sum_u64 :: "nat list \<Rightarrow> nat \<Rightarrow> nat outcome" where
  "sum_u64 [] acc = Ret acc"
| "sum_u64 (n # ns) acc = on_ret (u64_add acc n) (sum_u64 ns)"

definition total_length :: "torrent_file \<Rightarrow> nat outcome" where
  "total_length t = sum_u64 (map (\<lambda>(_, len). i64_as_u64 len) (tf_files t)) 0"

definition v2_ready :: "torrent_file \<Rightarrow> bool outcome" where
  "v2_ready t =
     (if \<not> is_v2_only t then Ret False
      else if tf_v2_pieces t \<noteq> [] then Ret True
      else on_ret (total_length t) (\<lambda>n. Ret (n = 0)))"

definition file_spans :: "path \<Rightarrow> torrent_file \<Rightarrow> file_span list outcome" where
  "file_spans base_dir t =
     (if is_v2_only t then build_file_spans_aligned base_dir (tf_files t) (i64_as_u64 (tf_piece_length t))
      else build_file_spans_padded base_dir (tf_files t) (tf_padding t))"

definition visible_files :: "torrent_file \<Rightarrow> (bytes list \<times> int) list" where
  "visible_files t = map fst (filter (\<lambda>(_, pad). \<not> pad) (zip (tf_files t) (tf_padding t)))"

fun mask_from :: "bool list \<Rightarrow> bool list \<Rightarrow> bool list" where
  "mask_from [] visible = []"
| "mask_from (pad # padding) visible =
     (if pad then False # mask_from padding visible
      else (case visible of [] \<Rightarrow> False # mask_from padding [] | v # vs \<Rightarrow> v # mask_from padding vs))"

definition layout_mask :: "bool list \<Rightarrow> torrent_file \<Rightarrow> bool list" where
  "layout_mask visible t = mask_from (tf_padding t) visible"

definition mask_get :: "bool list \<Rightarrow> nat \<Rightarrow> bool" where
  "mask_get layout i = (if i < length layout then layout ! i else False)"

definition visible_mask :: "bool list \<Rightarrow> torrent_file \<Rightarrow> bool list" where
  "visible_mask layout t =
     map (\<lambda>(i, _). mask_get layout i) (filter (\<lambda>(_, pad). \<not> pad) (enumerate 0 (tf_padding t)))"

definition selects_everything :: "bool list \<Rightarrow> torrent_file \<Rightarrow> bool" where
  "selects_everything layout t = list_all (\<lambda>(i, pad). pad \<or> mask_get layout i) (enumerate 0 (tf_padding t))"

definition u64_sub :: "nat \<Rightarrow> nat \<Rightarrow> nat outcome" where
  "u64_sub a b = (if b \<le> a then Ret (a - b) else Panic)"

definition piece_len :: "torrent_file \<Rightarrow> nat \<Rightarrow> nat outcome" where
  "piece_len t index =
     (if tf_v2_pieces t \<noteq> [] then
        Ret (if index < length (tf_v2_pieces t) then vp_length (tf_v2_pieces t ! index) else 0)
      else
        let num_pieces = length (tf_pieces t);
            last_index = num_pieces - 1
        in if index = last_index then
             on_ret (total_length t) (\<lambda>total.
             on_ret (u64_mul (i64_as_u64 (tf_piece_length t)) last_index) (u64_sub total))
           else Ret (i64_as_u64 (tf_piece_length t)))"

section \<open>Reading never panics\<close>

lemma map_err_simps [simp]: "map_err f (Inl e) = Inl (f e)" "map_err f (Inr a) = Inr a"
  by (simp_all add: map_err_def)

lemma map_err_Inr [res_iff]: "map_err f r = Inr a \<longleftrightarrow> r = Inr a"
  by (cases r) auto

lemma on_ok_simps [simp]: "on_ok (Inl e) k = Ret (Inl e)" "on_ok (Inr a) k = k a"
  by (simp_all add: on_ok_def)

lemma on_ok_iff [res_iff]:
  "on_ok r k = Ret (Inr b) \<longleftrightarrow> (\<exists>a. r = Inr a \<and> k a = Ret (Inr b))"
  "on_ok r k = Panic \<longleftrightarrow> (\<exists>a. r = Inr a \<and> k a = Panic)"
  by (cases r; simp)+

text \<open>The layers at hand have as many hashes as the files have pieces.\<close>

definition layers_fit :: "v2_file list \<Rightarrow> layers \<Rightarrow> nat \<Rightarrow> bool" where
  "layers_fit files layers piece_length \<longleftrightarrow>
     (\<forall>f\<in>set files. \<forall>root layer. vf_length f > piece_length \<longrightarrow> vf_root f = Some root \<longrightarrow> layers root = Some layer \<longrightarrow>
       length layer = div_ceil (vf_length f) piece_length)"

lemma merkle_root_pow2: "merkle_root leaves (next_power_of_two n) pad \<noteq> Panic"
  using next_power_of_two_power [of n] by (auto simp: merkle_root_tree)

lemma validate_file_no_panic: "validate_file layers piece_length f \<noteq> Panic"
  using merkle_root_pow2 by (auto simp: validate_file_def res_iff split: option.splits)

lemma validate_files_no_panic: "validate_files fs layers piece_length \<noteq> Panic"
  by (induction fs) (auto simp: res_iff validate_file_no_panic split: sum.splits)

lemma validate_layers_no_panic: "validate_layers files layers piece_length \<noteq> Panic"
  by (simp add: validate_layers_def validate_files_no_panic)

lemma validate_files_Inr:
  "validate_files fs layers piece_length = Ret (Inr u) \<Longrightarrow> f \<in> set fs \<Longrightarrow> validate_file layers piece_length f = Ret (Inr ())"
proof (induction fs)
  case (Cons g fs)
  then obtain r where "validate_file layers piece_length g = Ret r" by (auto simp: res_iff)
  with Cons show ?case by (cases r) auto
qed simp

lemma validate_layers_fit:
  assumes "validate_layers files layers piece_length = Ret (Inr u)"
  shows "valid_piece_length piece_length" "layers_fit files layers (nat piece_length)"
proof -
  show v: "valid_piece_length piece_length" using assms by (simp add: validate_layers_def split: if_splits)
  have "validate_file layers (nat piece_length) f = Ret (Inr ())" if "f \<in> set files" "vf_length f > nat piece_length" for f
    using validate_files_Inr [of "filter (\<lambda>f. vf_length f > nat piece_length) files" layers "nat piece_length" u f] assms v that
    by (simp add: validate_layers_def)
  then show "layers_fit files layers (nat piece_length)"
    unfolding layers_fit_def by (fastforce simp: validate_file_def split: if_splits)
qed

lemma plan_layer_no_panic:
  "\<forall>i < length hs. (n + i) * piece_length \<le> len \<Longrightarrow> plan_layer index len piece_length n hs \<noteq> Panic"
proof (induction hs arbitrary: n)
  case (Cons h hs)
  have "\<forall>i < length hs. (Suc n + i) * piece_length \<le> len"
    using Cons.prems by (metis Suc_less_eq add_Suc_shift length_Cons)
  moreover have "n * piece_length \<le> len" using Cons.prems by fastforce
  ultimately show ?case using Cons.IH [of "Suc n"] by (auto simp: Let_def res_iff)
qed simp

lemma less_div_ceil: "i < div_ceil len n \<Longrightarrow> i * n \<le> len"
  by (metis div_ceil_def div_mult_mod_eq Suc_eq_plus1 le_add1 less_Suc_eq_le less_imp_le_nat mult_le_mono1 order_trans)

lemma plan_from_no_panic: "layers_fit files layers piece_length \<Longrightarrow> plan_from index files layers piece_length \<noteq> Panic"
proof (induction files arbitrary: index)
  case (Cons f files)
  then have IH: "plan_from i files layers piece_length \<noteq> Panic" for i by (simp add: layers_fit_def)
  have "plan_layer index (vf_length f) piece_length 0 layer \<noteq> Panic"
    if "vf_length f > piece_length" "vf_root f = Some root" "layers root = Some layer" for root layer
    using Cons.prems that by (intro plan_layer_no_panic) (auto simp: layers_fit_def less_div_ceil)
  with IH show ?case by (auto simp: res_iff not_le split: option.splits)
qed simp

lemma plan_pieces_no_panic: "layers_fit files layers piece_length \<Longrightarrow> plan_pieces files layers piece_length \<noteq> Panic"
  by (simp add: plan_pieces_def plan_from_no_panic)

lemma v2_meta_no_panic: "v2_meta info ftree raw_info layers \<noteq> Panic"
  by (simp add: v2_meta_def res_iff validate_layers_no_panic)

lemma v2_metaD:
  "v2_meta info ftree raw_info layers = Ret (Inr m) \<Longrightarrow> Option.bind (get (lit ''piece length'') info) as_int = Some piece_length \<Longrightarrow>
   parse_file_tree ftree = Inr (vm_files m) \<and> vm_info_hash m = sha256 raw_info \<and>
   layers_fit (vm_files m) (vm_layers m) (nat piece_length) \<and> valid_piece_length piece_length"
  by (auto simp: v2_meta_def res_iff intro: validate_layers_fit)

lemma build_v2_only_no_panic: "build_v2_only_torrent info ftree raw_info an al ul layers \<noteq> Panic"
  using plan_pieces_no_panic v2_metaD
  by (fastforce simp: build_v2_only_torrent_def res_iff v2_meta_no_panic Let_def split: if_splits)

lemma build_torrent_no_panic: "build_torrent_from_info sha1 info raw_info an al ul layers \<noteq> Panic"
  by (auto simp: build_torrent_from_info_def Let_def res_iff v2_meta_no_panic build_v2_only_no_panic split: option.splits)

section \<open>What an accepted torrent is\<close>

lemma wf_get: "wf_bencode v \<Longrightarrow> get k v = Some w \<Longrightarrow> wf_bencode w"
  by (cases v) (auto simp: get_def as_dict_def list_all_iff dest!: map_of_SomeD)

lemma wf_as_int: "wf_bencode v \<Longrightarrow> as_int v = Some i \<Longrightarrow> i64_range i"
  by (cases v) (auto simp: as_int_def)

lemma wf_get_int: "wf_bencode v \<Longrightarrow> Option.bind (get k v) as_int = Some i \<Longrightarrow> i64_range i"
  by (auto simp: bind_eq_Some_conv dest: wf_get wf_as_int)

lemma wf_as_list: "wf_bencode v \<Longrightarrow> as_list v = Some xs \<Longrightarrow> list_all wf_bencode xs"
  by (cases v) (auto simp: as_list_def)

definition safe_file :: "bytes list \<times> int \<Rightarrow> bool" where
  "safe_file f \<longleftrightarrow> fst f \<noteq> [] \<and> list_all is_safe_component (fst f) \<and> 0 \<le> snd f \<and> snd f < 2 ^ 63"

definition layers_32 :: "layers \<Rightarrow> bool" where
  "layers_32 layers \<longleftrightarrow> (\<forall>layer\<in>ran layers. list_all (\<lambda>h. length h = 32) layer)"

definition v2_ok :: "v2_meta_t \<Rightarrow> nat \<Rightarrow> bool" where
  "v2_ok m piece_length \<longleftrightarrow>
     layers_fit (vm_files m) (vm_layers m) piece_length \<and> layers_32 (vm_layers m) \<and>
     list_all good_file (vm_files m) \<and> apart (vm_files m)"

definition torrent_ok :: "torrent_file \<Rightarrow> bool" where
  "torrent_ok t \<longleftrightarrow>
     0 < tf_piece_length t \<and> tf_piece_length t \<le> MAX_PIECE_LENGTH \<and> is_safe_component (tf_name t) \<and>
     list_all safe_file (tf_files t) \<and> total_size (tf_files t) < 2 ^ 64 \<and>
     length (tf_padding t) = length (tf_files t) \<and> list_all (\<lambda>h. length h = 20) (tf_pieces t) \<and>
     (case tf_v2 t of None \<Rightarrow> True | Some m \<Rightarrow> v2_ok m (nat (tf_piece_length t))) \<and>
     (if is_v2_only t
      then tf_pieces t = map first_20 (tf_v2_pieces t) \<and> tf_padding t = replicate (length (tf_files t)) False \<and>
        tf_files t = map (\<lambda>f. (vf_path f, int (vf_length f))) (vm_files (the (tf_v2 t)))
      else tf_v2_pieces t = [] \<and> length (tf_pieces t) = div_ceil (total_size (tf_files t)) (nat (tf_piece_length t)))"

lemma v2_file_listD:
  "v2_file_list fs n = Inr files \<Longrightarrow> list_all good_file fs \<Longrightarrow> n < 2 ^ 64 \<Longrightarrow>
   files = map (\<lambda>f. (vf_path f, int (vf_length f))) fs \<and> n + total_size files < 2 ^ 64 \<and> list_all safe_file files"
proof (induction fs arbitrary: n files)
  case (Cons f fs)
  then obtain rest where r: "v2_file_list fs (n + vf_length f) = Inr rest" "files = (vf_path f, int (vf_length f)) # rest"
    "n + vf_length f < 2 ^ 64" "vf_length f < 2 ^ 63" by (auto simp: res_iff split: if_splits)
  moreover have "int (vf_length f) < 2 ^ 63" using r(4) by simp
  ultimately show ?case using Cons.IH [OF r(1)] Cons.prems(2)
    by (auto simp: total_size_def safe_file_def good_file_def list_all_iff)
qed (simp add: total_size_def)

lemma checked_totalD:
  "checked_total files n = Some m \<Longrightarrow> list_all safe_file files \<Longrightarrow> n < 2 ^ 64 \<Longrightarrow> m = n + total_size files \<and> m < 2 ^ 64"
proof (induction files arbitrary: n)
  case (Cons f files)
  obtain ps len where f: "f = (ps, len)" by (cases f)
  with Cons.prems(2) have "i64_as_u64 len = nat len" by (simp add: i64_as_u64_def safe_file_def)
  then show ?case using Cons.IH [of "n + nat len"] Cons.prems f by (auto simp: total_size_def split: if_splits)
qed (simp add: total_size_def)

lemma file_entry_safe: "file_entry f = Inr (e, pad) \<Longrightarrow> wf_bencode f \<Longrightarrow> safe_file e"
  by (auto simp: file_entry_def res_iff Let_def safe_file_def find_None_iff list_all_iff i64_range_def
    split: if_splits option.splits dest: wf_get_int)

lemma file_entries_safe:
  "file_entries fs = Inr es \<Longrightarrow> list_all wf_bencode fs \<Longrightarrow> list_all safe_file (map fst es)"
  by (induction fs arbitrary: es) (auto simp: res_iff dest: file_entry_safe)

lemma layout_of_safe:
  assumes "layout_of info name = Inr (files, padding)" "wf_bencode info" "is_safe_component name"
  shows "list_all safe_file files" "length padding = length files"
proof -
  show "length padding = length files"
    using assms(1) by (auto simp: layout_of_def res_iff split: option.splits if_splits)
  show "list_all safe_file files"
  proof (cases "Option.bind (get (lit ''length'') info) as_int")
    case (Some len)
    with wf_get_int [OF assms(2) Some] assms show ?thesis
      by (auto simp: layout_of_def safe_file_def i64_range_def split: if_splits)
  next
    case None
    with assms(1) obtain l es where l: "Option.bind (get (lit ''files'') info) as_list = Some l"
      and es: "file_entries l = Inr es" "files = map fst es" by (auto simp: layout_of_def res_iff split: option.splits)
    have "list_all wf_bencode l" using l assms(2) by (auto simp: bind_eq_Some_conv dest: wf_get wf_as_list)
    then show ?thesis using file_entries_safe es by blast
  qed
qed

lemma build_v1_ok:
  assumes "build_v1_torrent sha1 info raw_info an al ul v2 = Inr t" "wf_bencode info"
    and v2: "\<And>m pl. v2 = Some m \<Longrightarrow> Option.bind (get (lit ''piece length'') info) as_int = Some pl \<Longrightarrow> v2_ok m (nat pl)"
  shows "torrent_ok t" "tf_info t = info" "\<not> is_v2_only t" "tf_info_hash t = sha1 raw_info"
proof -
  obtain pl raw name files padding total where *:
    "Option.bind (get (lit ''piece length'') info) as_int = Some pl" "0 < pl" "pl \<le> MAX_PIECE_LENGTH"
    "Option.bind (get (lit ''pieces'') info) as_bytes = Some raw" "is_safe_component name"
    "layout_of info name = Inr (files, padding)" "checked_total files 0 = Some total"
    "length (chunks 20 raw) = div_ceil total (nat pl)"
    and t: "tf_piece_length t = pl" "tf_pieces t = chunks 20 raw" "tf_name t = name" "tf_files t = files"
      "tf_padding t = padding" "tf_v2 t = v2" "tf_v2_pieces t = []" "tf_info t = info" "tf_info_hash t = sha1 raw_info"
    using assms(1) by (auto simp: build_v1_torrent_def res_iff Let_def split: if_splits)
  show "tf_info t = info" "tf_info_hash t = sha1 raw_info" by (fact t(8,9))+
  show n: "\<not> is_v2_only t" using *(4) t(8) by (auto simp: is_v2_only_def bind_eq_Some_conv)
  note l = layout_of_safe [OF *(6) assms(2) *(5)]
  show "torrent_ok t"
    using * l n v2 checked_totalD [OF *(7) l(1)] chunks_length [of 20 raw]
    by (auto simp: torrent_ok_def t split: option.split)
qed

lemma parse_layer_entries_32:
  "parse_layer_entries es out = Inr layers \<Longrightarrow> layers_32 out \<Longrightarrow> layers_32 layers"
proof (induction es out rule: parse_layer_entries.induct)
  case (2 root hashes rest out)
  then obtain bs where bs: "as_bytes hashes = Some bs" "length root = 32" "length bs mod 32 = 0"
    "parse_layer_entries rest (out(root \<mapsto> chunks 32 bs)) = Inr layers" by (auto simp: res_iff split: if_splits)
  have "layers_32 (out(root \<mapsto> chunks 32 bs))"
    using "2.prems"(2) chunks_length [of 32 bs] by (auto simp: layers_32_def ran_def)
  from "2.IH" [OF _ _ _ bs(4) this] bs show ?case by simp
qed (simp add: layers_32_def)

lemma parse_layers_32: "parse_layers l = Inr layers \<Longrightarrow> layers_32 layers"
  using parse_layer_entries_32 [of _ Map.empty layers]
  by (auto simp: parse_layers_def res_iff split: option.splits) (auto simp: layers_32_def)

lemma plan_layer_roots: "plan_layer index len piece_length n hs = Ret ps \<Longrightarrow> map vp_root ps = hs"
  by (induction hs arbitrary: n ps) (auto simp: Let_def res_iff split: if_splits)

lemma plan_from_roots:
  "plan_from index files layers piece_length = Ret (Some ps) \<Longrightarrow> list_all good_file files \<Longrightarrow> layers_32 layers \<Longrightarrow>
   list_all (\<lambda>p. length (vp_root p) = 32) ps"
proof (induction files arbitrary: index ps)
  case (Cons f files)
  show ?case
  proof (cases "vf_root f")
    case None
    with Cons show ?thesis by simp
  next
    case (Some root)
    with Cons.prems(2) have r: "length root = 32" by (simp add: good_file_def)
    have IH: "plan_from (Suc index) files layers piece_length = Ret (Some qs) \<Longrightarrow> list_all (\<lambda>p. length (vp_root p) = 32) qs" for qs
      using Cons by simp
    show ?thesis
    proof (cases "vf_length f \<le> piece_length")
      case True
      with Cons.prems(1) Some r IH show ?thesis by (auto simp: res_iff)
    next
      case False
      with Cons.prems(1) Some obtain layer qs qs' where l: "layers root = Some layer" "ps = qs @ qs'"
        "plan_layer index (vf_length f) piece_length 0 layer = Ret qs" "plan_from (Suc index) files layers piece_length = Ret (Some qs')"
        by (auto simp: res_iff split: option.splits)
      have "list_all (\<lambda>h. length h = 32) (map vp_root qs)"
        using plan_layer_roots [OF l(3)] Cons.prems(3) l(1) by (auto simp: layers_32_def ran_def)
      then show ?thesis using IH [OF l(4)] l(2) by (auto simp: list_all_iff)
    qed
  qed
qed simp

lemma v2_meta_ok:
  assumes "v2_meta info ftree raw_info layers = Ret (Inr m)" "wf_bencode ftree"
    "Option.bind (get (lit ''piece length'') info) as_int = Some pl"
  shows "v2_ok m (nat pl)" "vm_info_hash m = sha256 raw_info"
proof -
  have l: "layers_32 (vm_layers m)" using assms(1) by (auto simp: v2_meta_def res_iff intro: parse_layers_32)
  note d = v2_metaD [OF assms(1,3)]
  then have "list_all good_file (vm_files m) \<and> apart (vm_files m)"
    using walk_files(1) [of ftree "[]" "[]" "vm_files m"] assms(2) by (auto simp: parse_file_tree_def safe_path_def)
  with d l show "v2_ok m (nat pl)" "vm_info_hash m = sha256 raw_info" by (simp_all add: v2_ok_def)
qed

lemma build_v2_only_ok:
  assumes b: "build_v2_only_torrent info ftree raw_info an al ul layers = Ret (Inr t)" and wf: "wf_bencode ftree"
    and n: "get (lit ''pieces'') info = None"
  shows "torrent_ok t" "tf_info t = info" "is_v2_only t" "tf_info_hash t = take 20 (sha256 raw_info)"
proof -
  obtain pl name m files plan where *:
    "Option.bind (get (lit ''piece length'') info) as_int = Some pl" "valid_piece_length pl" "pl \<le> MAX_PIECE_LENGTH"
    "is_safe_component name" "v2_meta info ftree raw_info layers = Ret (Inr m)" "v2_file_list (vm_files m) 0 = Inr files"
    "plan_pieces (vm_files m) (vm_layers m) (nat pl) = Ret plan"
    and t: "tf_piece_length t = pl" "tf_v2_pieces t = (case plan of None \<Rightarrow> [] | Some ps \<Rightarrow> ps)"
      "tf_pieces t = map first_20 (tf_v2_pieces t)" "tf_name t = name" "tf_files t = files" "tf_v2 t = Some m"
      "tf_padding t = replicate (length files) False" "tf_info t = info" "tf_info_hash t = short_hash m"
    using b by (auto simp: build_v2_only_torrent_def res_iff Let_def split: if_splits)
  note ok = v2_meta_ok [OF *(5) wf *(1)]
  show "tf_info t = info" by (fact t(8))
  show v: "is_v2_only t" using n t(6,8) by (simp add: is_v2_only_def)
  show "tf_info_hash t = take 20 (sha256 raw_info)" by (simp add: t(9) short_hash_def ok(2))
  have f: "files = map (\<lambda>f. (vf_path f, int (vf_length f))) (vm_files m)" "total_size files < 2 ^ 64" "list_all safe_file files"
    using v2_file_listD [OF *(6)] ok(1) by (auto simp: v2_ok_def)
  have "list_all (\<lambda>p. length (vp_root p) = 32) (tf_v2_pieces t)"
    using plan_from_roots [of 0 "vm_files m" "vm_layers m" "nat pl"] *(7) ok(1)
    by (auto simp: t(2) plan_pieces_def v2_ok_def split: option.split)
  then have "list_all (\<lambda>h. length h = 20) (map first_20 (tf_v2_pieces t))" by (auto simp: first_20_def list_all_iff)
  moreover have "0 < pl" using *(2) by (simp add: valid_piece_length_def BLOCK_def)
  ultimately show "torrent_ok t" using * f v ok(1) by (simp add: torrent_ok_def t(1,3-7))
qed

lemma build_torrent_ok:
  assumes b: "build_torrent_from_info sha1 info raw_info an al ul layers = Ret (Inr t)" and wf: "wf_bencode info"
  shows "torrent_ok t" "tf_info t = info"
    "tf_info_hash t = (if is_v2_only t then take 20 (sha256 raw_info) else sha1 raw_info)"
proof -
  have "torrent_ok t \<and> tf_info t = info \<and> tf_info_hash t = (if is_v2_only t then take 20 (sha256 raw_info) else sha1 raw_info)"
  proof (cases "if Option.bind (get (lit ''meta version'') info) as_int = Some 2 then get (lit ''file tree'') info else None")
    case None
    then have "build_v1_torrent sha1 info raw_info an al ul None = Inr t"
      using b by (auto simp: build_torrent_from_info_def Let_def split: if_splits)
    from build_v1_ok [OF this wf] show ?thesis by simp
  next
    case (Some ftree)
    then have w: "wf_bencode ftree" using wf_get [OF wf] by (auto split: if_splits)
    show ?thesis
    proof (cases "get (lit ''pieces'') info = None")
      case True
      with Some b have "build_v2_only_torrent info ftree raw_info an al ul layers = Ret (Inr t)"
        by (auto simp: build_torrent_from_info_def Let_def split: if_splits)
      from build_v2_only_ok [OF this w True] show ?thesis by simp
    next
      case False
      with Some b obtain r where r: "v2_meta info ftree raw_info layers = Ret r"
        "build_v1_torrent sha1 info raw_info an al ul (case r of Inl _ \<Rightarrow> None | Inr m \<Rightarrow> Some m) = Inr t"
        by (auto simp: build_torrent_from_info_def Let_def res_iff split: if_splits)
      have "v2_ok m (nat pl)" if "(case r of Inl _ \<Rightarrow> None | Inr m \<Rightarrow> Some m) = Some m"
        "Option.bind (get (lit ''piece length'') info) as_int = Some pl" for m pl
        using that r(1) v2_meta_ok(1) [OF _ w that(2)] by (cases r) auto
      from build_v1_ok [OF r(2) wf this] show ?thesis by simp
    qed
  qed
  then show "torrent_ok t" "tf_info t = info"
    "tf_info_hash t = (if is_v2_only t then take 20 (sha256 raw_info) else sha1 raw_info)" by blast+
qed

section \<open>The info hash is over the bytes of the file\<close>

lemma fits_Suc: "fits n v \<Longrightarrow> fits (Suc n) v"
proof (induction n v rule: fits.induct)
  case (4 n xs)
  then show ?case by (auto simp: list_all_iff)
next
  case (6 n m)
  then show ?case by (fastforce simp: list_all_iff)
qed auto

lemma span_of_encoding:
  assumes "data = encode v @ rest" "wf_bencode v" "fits MAX_DEPTH v" "slice_ok data"
  shows "decode_value_with_span (decoder_new data) = Inr ((v, (0, length (encode v))), (decoder_new data)\<lparr>dc_pos := length (encode v)\<rparr>)"
proof -
  have "decode_value data True 0 0 = Inr (v, 0 + length (encode v))"
    using assms by (intro decode_value_at) auto
  then show ?thesis by (simp add: decode_value_with_span_def decoder_new_def)
qed

lemma find_key_from_at:
  assumes "drop pos data = concat (map enc_entry es) @ 101 # rest" "slice_ok data"
    "list_all (\<lambda>(k, v). wf_bencode v \<and> fits MAX_DEPTH v) es" "map_of es key = Some v"
  shows "\<exists>a b. find_key_from data key pos = Inr (a, b) \<and> drop a data = encode v @ drop b data \<and> b = a + length (encode v)"
  using assms(1,3,4)
proof (induction es arbitrary: pos)
  case (Cons e es)
  obtain k w where e: "e = (k, w)" by (cases e)
  let ?after = "concat (map enc_entry es) @ 101 # rest"
  from Cons.prems(1) have d: "drop pos data = encode (BBytes k) @ encode w @ ?after"
    by (simp add: e encode_simps)
  obtain c cs where "enc_bytes k = c # cs" "is_digit c" using enc_bytes_head by blast
  then have c: "pos < length data" "data ! pos \<noteq> 101"
    using d by (auto simp: encode_simps drop_eq_Cons is_digit_unat)
  have d2: "drop (pos + length (encode (BBytes k))) data = encode w @ ?after" using drop_appendD [OF d] .
  have d3: "drop (pos + length (encode (BBytes k)) + length (encode w)) data = ?after" using drop_appendD [OF d2] .
  have sl: "slice_ok (drop n data)" for n using assms(2) by simp
  have kd: "decode_value_with_span (decoder_new (drop pos data)) = Inr ((BBytes k, (0, length (encode (BBytes k)))),
      (decoder_new (drop pos data))\<lparr>dc_pos := length (encode (BBytes k))\<rparr>)"
    by (rule span_of_encoding [OF d _ _ sl]) simp_all
  have vd: "decode_value_with_span (decoder_new (drop (pos + length (encode (BBytes k))) data)) =
      Inr ((w, (0, length (encode w))), (decoder_new (drop (pos + length (encode (BBytes k))) data))\<lparr>dc_pos := length (encode w)\<rparr>)"
    using Cons.prems(2) e by (intro span_of_encoding [OF d2 _ _ sl]) auto
  have step: "find_key_from data key pos =
      (if k = key then Inr (pos + length (encode (BBytes k)), pos + length (encode (BBytes k)) + length (encode w))
       else find_key_from data key (pos + length (encode (BBytes k)) + length (encode w)))"
    using c by (subst find_key_from.simps) (simp add: kd vd as_bytes_def Let_def)
  show ?case
  proof (cases "k = key")
    case True
    with Cons.prems(3) e d2 d3 step show ?thesis by auto
  next
    case False
    with Cons.IH [OF d3] Cons.prems(2,3) e step show ?thesis by simp
  qed
qed simp

lemma find_key_span_raw:
  assumes "decode data = Inr tv" "as_dict tv = Some dict" "map_of dict key = Some v" "slice_ok data"
  shows "\<exists>a b. find_key_span data key = Inr (a, b) \<and> take (b - a) (drop a data) = encode v \<and>
    (\<exists>pre post. data = pre @ encode v @ post)" "wire_ok v"
proof -
  have tv: "tv = BDict dict" using assms(2) by (cases tv) (auto simp: as_dict_def)
  have w: "wf_bencode tv" "fits MAX_DEPTH tv" "encode tv = data"
    using assms(1,4) strict_bencode.decode_iff [OF assms(4), of tv] by (auto simp: wire_ok_def)
  obtain n where n: "MAX_DEPTH = Suc n" by (simp add: MAX_DEPTH_def)
  have es: "list_all (\<lambda>(k, v). wf_bencode v \<and> fits MAX_DEPTH v) dict"
    using w(1,2) fits_Suc unfolding tv n by (auto simp: list_all_iff)
  have data: "data = 100 # concat (map enc_entry dict) @ [101]" using w(3) by (simp add: tv encode_simps)
  have "drop 1 data = concat (map enc_entry dict) @ 101 # []" by (simp add: data)
  from find_key_from_at [OF this assms(4) es assms(3)]
  obtain a b where ab: "find_key_from data key 1 = Inr (a, b)" "drop a data = encode v @ drop b data" "b = a + length (encode v)"
    by blast
  then have "find_key_span data key = Inr (a, b)" by (simp add: find_key_span_def data)
  moreover have "take (b - a) (drop a data) = encode v" using ab by simp
  moreover have "data = take a data @ encode v @ drop b data" using ab(2) by (metis append_take_drop_id)
  ultimately show r: "\<exists>a b. find_key_span data key = Inr (a, b) \<and> take (b - a) (drop a data) = encode v \<and>
    (\<exists>pre post. data = pre @ encode v @ post)" by blast
  then have "slice_ok (encode v)" using assms(4) by auto
  then show "wire_ok v" using es assms(3) by (auto simp: wire_ok_def list_all_iff dest: map_of_SomeD)
qed

lemma parse_torrent_file_eq:
  assumes "decode data = Inr tv" "as_dict tv = Some dict" "map_of dict (lit ''info'') = Some info" "slice_ok data"
  shows "parse_torrent_file sha1 data = build_torrent_from_info sha1 info (encode info)
    (Option.bind (map_of dict (lit ''announce'')) as_str) (read_announce_list dict) (read_url_list dict)
    (map_of dict (lit ''piece layers''))"
  using find_key_span_raw(1) [OF assms] assms(1-3) by (auto simp: parse_torrent_file_def)

lemma parse_torrent_fileD:
  assumes "parse_torrent_file sha1 data = Ret (Inr t)" "slice_ok data"
  obtains tv dict info where "decode data = Inr tv" "as_dict tv = Some dict" "map_of dict (lit ''info'') = Some info"
    "wire_ok info" "build_torrent_from_info sha1 info (encode info) (Option.bind (map_of dict (lit ''announce'')) as_str)
      (read_announce_list dict) (read_url_list dict) (map_of dict (lit ''piece layers'')) = Ret (Inr t)"
    "\<exists>pre post. data = pre @ encode info @ post"
proof -
  obtain tv dict info where p: "decode data = Inr tv" "as_dict tv = Some dict" "map_of dict (lit ''info'') = Some info"
    using assms(1) by (auto simp: parse_torrent_file_def res_iff)
  note raw = find_key_span_raw [OF p assms(2)]
  from raw(1) have "\<exists>pre post. data = pre @ encode info @ post" by blast
  from that [OF p raw(2) _ this] parse_torrent_file_eq [OF p assms(2), of sha1] assms(1) show ?thesis by simp
qed

section \<open>Layout and layers of an accepted torrent\<close>

lemma sum_u64_Ret: "acc + sum_list ns < 2 ^ 64 \<Longrightarrow> sum_u64 ns acc = Ret (acc + sum_list ns)"
  by (induction ns arbitrary: acc) (simp_all add: u64_add_def add.assoc)

lemma total_length_ok: "torrent_ok t \<Longrightarrow> total_length t = Ret (total_size (tf_files t))"
proof -
  assume ok: "torrent_ok t"
  then have "map (\<lambda>(_, len). i64_as_u64 len) (tf_files t) = map (nat \<circ> snd) (tf_files t)"
    by (auto simp: torrent_ok_def list_all_iff safe_file_def i64_as_u64_def)
  moreover have "sum_list (map (nat \<circ> snd) (tf_files t)) < 2 ^ 64" using ok by (simp add: torrent_ok_def total_size_def)
  ultimately show ?thesis using sum_u64_Ret [of 0 "map (nat \<circ> snd) (tf_files t)"]
    by (simp only: total_length_def total_size_def add_0)
qed

lemma div_ceil_last:
  assumes "0 < n" "0 < len"
  shows "0 < div_ceil len n" "(div_ceil len n - 1) * n < len" "len \<le> (div_ceil len n - 1) * n + n"
proof -
  show p: "0 < div_ceil len n" using assms div_ceil_ge [of n len] by (cases "div_ceil len n") auto
  show "(div_ceil len n - 1) * n < len"
  proof (rule ccontr)
    assume "\<not> (div_ceil len n - 1) * n < len"
    then have "div_ceil len n \<le> div_ceil len n - 1" using assms(1) by (intro div_ceil_le) auto
    with p show False by simp
  qed
  have "div_ceil len n * n = (div_ceil len n - 1) * n + n" using p by (cases "div_ceil len n") auto
  then show "len \<le> (div_ceil len n - 1) * n + n" using div_ceil_ge [OF assms(1), of len] by (simp add: mult.commute)
qed

lemma piece_len_ok:
  assumes ok: "torrent_ok t" and v: "\<not> is_v2_only t" and i: "i < length (tf_pieces t)"
    and c: "length content = total_size (tf_files t)"
  shows "piece_len t i = Ret (length (piece_of content (nat (tf_piece_length t)) i))"
    "piece_of content (nat (tf_piece_length t)) i \<noteq> []"
proof -
  let ?n = "nat (tf_piece_length t)" and ?len = "total_size (tf_files t)"
  have n: "0 < ?n" "?n < 2 ^ 64" "i64_as_u64 (tf_piece_length t) = ?n"
    using ok by (auto simp: torrent_ok_def MAX_PIECE_LENGTH_def i64_as_u64_def)
  have p: "length (tf_pieces t) = div_ceil ?len ?n" "tf_v2_pieces t = []" "?len < 2 ^ 64" using ok v by (auto simp: torrent_ok_def)
  with i have "0 < ?len" by (cases "?len") (auto simp: div_ceil_def)
  note last = div_ceil_last [OF n(1) this]
  have mul: "u64_mul ?n (div_ceil ?len ?n - 1) = Ret ((div_ceil ?len ?n - 1) * ?n)"
    using last(2) p(3) by (simp add: u64_mul_def mult.commute)
  have below: "i * ?n < ?len" using i p(1) last(2)
    by (metis One_nat_def Suc_pred last(1) le_less_trans less_Suc_eq_le mult_le_mono1)
  then show "piece_of content ?n i \<noteq> []" using n c by (simp add: piece_of_def)
  show "piece_len t i = Ret (length (piece_of content ?n i))"
  proof (cases "i = length (tf_pieces t) - 1")
    case True
    then have "i = div_ceil ?len ?n - 1" using p(1) by simp
    then have "?len - i * ?n \<le> ?n" using last(3) by (simp only:) linarith
    then show ?thesis using True p last(2) n(3) mul c total_length_ok [OF ok]
      by (simp add: piece_len_def Let_def u64_sub_def piece_of_def min_absorb1)
  next
    case False
    with i p(1) have "Suc i \<le> div_ceil ?len ?n - 1" by simp
    then have "Suc i * ?n \<le> (div_ceil ?len ?n - 1) * ?n" by (rule mult_le_mono1)
    then have "?n \<le> ?len - i * ?n" using last(2) by (simp only: mult_Suc) linarith
    then show ?thesis using False p n(3) c by (simp add: piece_len_def Let_def piece_of_def min_absorb2)
  qed
qed

lemma spans_padded_paths:
  "spans_padded_from base files padding cursor = Ret spans \<Longrightarrow> map fs_path spans = map (\<lambda>f. foldl path_join base (fst f)) files"
  by (induction files arbitrary: padding cursor spans) (auto simp: res_iff)

lemma spans_aligned_paths:
  "spans_aligned_from base files n cursor = Ret spans \<Longrightarrow> map fs_path spans = map (\<lambda>f. foldl path_join base (fst f)) files"
  by (induction files arbitrary: cursor spans) (auto simp: res_iff)

lemma safe_plain: "is_safe_component c \<Longrightarrow> plain_part c"
  by (simp add: is_safe_component_def plain_part_def)

lemma file_spans_inside:
  assumes ok: "torrent_ok t" and s: "file_spans base t = Ret spans"
  shows "map fs_path spans = map (\<lambda>f. dir_prefix base @ join_parts (fst f)) (tf_files t)"
proof -
  have "map fs_path spans = map (\<lambda>f. foldl path_join base (fst f)) (tf_files t)"
    using s spans_padded_paths spans_aligned_paths
    by (auto simp: file_spans_def build_file_spans_aligned_def build_file_spans_padded_def split: if_splits)
  also have "\<dots> = map (\<lambda>f. dir_prefix base @ join_parts (fst f)) (tf_files t)"
  proof (rule map_cong [OF refl])
    fix f assume "f \<in> set (tf_files t)"
    then have "fst f \<noteq> []" "list_all is_safe_component (fst f)" using ok by (auto simp: torrent_ok_def list_all_iff safe_file_def)
    then show "foldl path_join base (fst f) = dir_prefix base @ join_parts (fst f)"
      by (intro fold_path_join) (auto simp: list_all_iff safe_plain)
  qed
  finally show ?thesis .
qed

lemma unpadded_visible:
  "length padding = length files \<Longrightarrow> unpadded files padding = map fst (filter (\<lambda>(_, pad). \<not> pad) (zip files padding))"
  by (induction files padding rule: unpadded.induct) auto

lemma file_spans_ok:
  assumes ok: "torrent_ok t" and v: "\<not> is_v2_only t" and d: "distinct (map fst (visible_files t))"
  shows "\<exists>spans. file_spans base t = Ret spans \<and> spans_ok spans \<and> (\<forall>k. span_at spans k \<noteq> None \<longleftrightarrow> k < total_size (tf_files t))"
proof -
  have "list_all (\<lambda>(ps, len). ps \<noteq> [] \<and> list_all plain_part ps \<and> 0 \<le> len \<and> len < 2 ^ 63) (tf_files t)"
    using ok by (auto simp: torrent_ok_def list_all_iff safe_file_def safe_plain)
  moreover have "distinct (map fst (unpadded (tf_files t) (tf_padding t)))"
    using d ok by (simp add: visible_files_def unpadded_visible torrent_ok_def)
  ultimately have f: "files_ok (tf_files t) (tf_padding t)" by (simp add: files_ok_def)
  have "list_all (\<lambda>(ps, len). 0 \<le> len \<and> len < 2 ^ 63) (tf_files t)" using f by (auto simp: files_ok_def list_all_iff)
  then obtain spans where spans: "build_file_spans_padded base (tf_files t) (tf_padding t) = Ret spans"
    using spans_padded_from_Ret [of "tf_files t" 0 base "tf_padding t"] ok by (auto simp: build_file_spans_padded_def torrent_ok_def)
  then show ?thesis using build_file_spans_ok [OF spans f] v by (auto simp: file_spans_def)
qed

lemma layers_fit_add: "layers_fit fs l1 n \<Longrightarrow> layers_fit fs l2 n \<Longrightarrow> layers_fit fs (l1 ++ l2) n"
  by (auto simp: layers_fit_def map_add_Some_iff)

lemma install_layers_ok:
  assumes ok: "torrent_ok t" and l: "layers_32 layers" and v: "tf_v2 t \<noteq> None \<longrightarrow> is_v2_only t"
  obtains r t' where "install_layers layers t = Ret (r, t')" "torrent_ok t'" "r \<noteq> Inr () \<Longrightarrow> t' = t"
proof (cases "tf_v2 t")
  case None
  with ok that show ?thesis by (auto simp: install_layers_def)
next
  case (Some m)
  let ?n = "nat (tf_piece_length t)" and ?c = "vm_layers m ++ layers"
  have m: "v2_ok m ?n" and v: "is_v2_only t" using ok Some v by (auto simp: torrent_ok_def)
  obtain r where r: "validate_layers (vm_files m) layers (tf_piece_length t) = Ret r"
    using validate_layers_no_panic by (metis outcome.exhaust)
  show ?thesis
  proof (cases r)
    case (Inl e)
    with ok r Some that show ?thesis by (auto simp: install_layers_def)
  next
    case (Inr u)
    then have fit: "layers_fit (vm_files m) ?c ?n"
      using validate_layers_fit(2) r m by (auto simp: v2_ok_def intro: layers_fit_add)
    then obtain plan where plan: "plan_pieces (vm_files m) ?c ?n = Ret plan" using plan_pieces_no_panic by (metis outcome.exhaust)
    have "layers_32 ?c" using m l by (auto simp: v2_ok_def layers_32_def ran_def map_add_Some_iff)
    then have c: "v2_ok (m\<lparr>vm_layers := ?c\<rparr>) ?n" using m fit by (simp add: v2_ok_def)
    show ?thesis
    proof (cases plan)
      case None
      with ok r Inr Some plan that show ?thesis by (auto simp: install_layers_def Let_def)
    next
      case (Some ps)
      let ?t = "t\<lparr>tf_v2 := Some (m\<lparr>vm_layers := ?c\<rparr>), tf_pieces := map first_20 ps, tf_v2_pieces := ps\<rparr>"
      have "list_all (\<lambda>p. length (vp_root p) = 32) ps"
        using plan_from_roots [of 0 "vm_files m" ?c ?n ps] plan Some c by (simp add: plan_pieces_def v2_ok_def)
      then have "list_all (\<lambda>h. length h = 20) (map first_20 ps)" by (auto simp: first_20_def list_all_iff)
      then have "torrent_ok ?t" using ok v c \<open>tf_v2 t = Some m\<close> by (auto simp: torrent_ok_def is_v2_only_def)
      then show ?thesis using r Inr \<open>tf_v2 t = Some m\<close> plan Some that by (auto simp: install_layers_def Let_def)
    qed
  qed
qed

lemma pieces_concat:
  assumes n: "0 < n"
  shows "concat (map (piece_of content n) [0..<div_ceil (length content) n]) = content"
proof -
  have "map (piece_of content n) [0..<div_ceil (length content) n] = slice_chunks n content"
  proof (rule nth_equalityI)
    show "length (map (piece_of content n) [0..<div_ceil (length content) n]) = length (slice_chunks n content)"
      by (simp add: length_slice_chunks [OF n])
    fix i assume "i < length (map (piece_of content n) [0..<div_ceil (length content) n])"
    then have i: "i < length (slice_chunks n content)" "i < div_ceil (length content) n" by (simp_all add: length_slice_chunks [OF n])
    then have "drop i (slice_chunks n content) \<noteq> []" by simp
    then have "drop (i * n) content \<noteq> []" using drop_slice_chunks [OF n, of i content] by auto
    then have "hd (drop i (slice_chunks n content)) = take n (drop (i * n) content)"
      using drop_slice_chunks [OF n, of i content] slice_chunks_step [OF n, of "drop (i * n) content"] by simp
    then show "map (piece_of content n) [0..<div_ceil (length content) n] ! i = slice_chunks n content ! i"
      using i by (simp add: piece_of_def hd_drop_conv_nth)
  qed
  then show ?thesis by (simp add: concat_slice_chunks [OF n])
qed

definition v2_only_info :: "bencode \<Rightarrow> bool" where
  "v2_only_info info \<longleftrightarrow> Option.bind (get (lit ''meta version'') info) as_int = Some 2 \<and>
     get (lit ''file tree'') info \<noteq> None \<and> get (lit ''pieces'') info = None"

text \<open>What the layout of a torrent depends on: the info dictionary alone.\<close>

lemma build_layout:
  assumes b: "build_torrent_from_info sha1 info raw_info an al ul layers = Ret (Inr t)"
  shows "is_v2_only t = v2_only_info info"
    and "Option.bind (get (lit ''name'') info) as_str = Some (tf_name t)"
    and "Option.bind (get (lit ''piece length'') info) as_int = Some (tf_piece_length t)"
    and "\<not> v2_only_info info \<Longrightarrow> layout_of info (tf_name t) = Inr (tf_files t, tf_padding t)"
    and "v2_only_info info \<Longrightarrow> tf_padding t = replicate (length (tf_files t)) False \<and>
      and_then (map_err V2 (parse_file_tree (the (get (lit ''file tree'') info)))) (\<lambda>fs. v2_file_list fs 0) = Inr (tf_files t)"
proof -
  let ?tree = "get (lit ''file tree'') info"
  consider (v1) v2 where "build_v1_torrent sha1 info raw_info an al ul v2 = Inr t" "\<not> v2_only_info info"
    | (v2) "build_v2_only_torrent info (the ?tree) raw_info an al ul layers = Ret (Inr t)" "v2_only_info info"
    using b by (auto simp: build_torrent_from_info_def Let_def res_iff v2_only_info_def split: if_splits option.splits)
  then have "is_v2_only t = v2_only_info info \<and> Option.bind (get (lit ''name'') info) as_str = Some (tf_name t) \<and>
    Option.bind (get (lit ''piece length'') info) as_int = Some (tf_piece_length t) \<and>
    (\<not> v2_only_info info \<longrightarrow> layout_of info (tf_name t) = Inr (tf_files t, tf_padding t)) \<and>
    (v2_only_info info \<longrightarrow> tf_padding t = replicate (length (tf_files t)) False \<and>
      and_then (map_err V2 (parse_file_tree (the ?tree))) (\<lambda>fs. v2_file_list fs 0) = Inr (tf_files t))"
  proof cases
    case v1
    then have "Option.bind (get (lit ''pieces'') info) as_bytes \<noteq> None" by (auto simp: build_v1_torrent_def res_iff split: if_splits)
    moreover have "tf_info t = info" using v1(1) by (auto simp: build_v1_torrent_def res_iff Let_def split: if_splits)
    ultimately have "\<not> is_v2_only t" by (auto simp: is_v2_only_def)
    with v1 show ?thesis by (auto simp: build_v1_torrent_def res_iff Let_def split: if_splits)
  next
    case v2
    then obtain m where m: "v2_meta info (the ?tree) raw_info layers = Ret (Inr m)" "v2_file_list (vm_files m) 0 = Inr (tf_files t)"
      "tf_v2 t = Some m" "tf_info t = info" "tf_padding t = replicate (length (tf_files t)) False"
      "Option.bind (get (lit ''name'') info) as_str = Some (tf_name t)"
      "Option.bind (get (lit ''piece length'') info) as_int = Some (tf_piece_length t)"
      by (auto simp: build_v2_only_torrent_def res_iff Let_def split: if_splits)
    moreover have "parse_file_tree (the ?tree) = Inr (vm_files m)" using m(1) by (auto simp: v2_meta_def res_iff)
    ultimately show ?thesis using v2(2) by (auto simp: is_v2_only_def v2_only_info_def)
  qed
  then show "is_v2_only t = v2_only_info info"
    and "Option.bind (get (lit ''name'') info) as_str = Some (tf_name t)"
    and "Option.bind (get (lit ''piece length'') info) as_int = Some (tf_piece_length t)"
    and "\<not> v2_only_info info \<Longrightarrow> layout_of info (tf_name t) = Inr (tf_files t, tf_padding t)"
    and "v2_only_info info \<Longrightarrow> tf_padding t = replicate (length (tf_files t)) False \<and>
      and_then (map_err V2 (parse_file_tree (the ?tree))) (\<lambda>fs. v2_file_list fs 0) = Inr (tf_files t)" by blast+
qed

section \<open>Properties\<close>

text \<open>
  C16: Reading untrusted metadata never panics: for every input whatever, reading a
  .torrent file and reading an info dictionary fetched from peers return a torrent or an
  error, with all the arithmetic and slicing of the layers and the plan of the pieces
  included.
\<close>

theorem parse_never_panics:
  "parse_torrent_file sha1 data \<noteq> Panic \<and> from_info_dict_bytes sha1 raw_info expected announce announce_list \<noteq> Panic"
  by (auto simp: parse_torrent_file_def from_info_dict_bytes_def res_iff build_torrent_no_panic Let_def)

text \<open>
  C8: An accepted torrent is well formed, and stays so. Whatever a torrent read from a
  file or from a fetched info dictionary, its piece length is positive and at most 128 MiB,
  its name and every path component are plain names, no length is negative and the total
  fits in 64 bits, every hash has 20 bytes, there are exactly as many v1 piece hashes as the
  total needs, and the layers of a v2 torrent have the sizes its files need. Installing
  layers fetched from peers in a v2 torrent keeps all of that, without panicking, and leaves
  the torrent as it was when they do not fit.
\<close>

theorem accepted_torrent_ok:
  assumes "parse_torrent_file sha1 data = Ret (Inr t) \<or>
      from_info_dict_bytes sha1 data expected announce announce_list = Ret (Inr t)" "slice_ok data"
  shows "torrent_ok t \<and> (layers_32 layers \<and> (tf_v2 t \<noteq> None \<longrightarrow> is_v2_only t) \<longrightarrow>
    (\<exists>r t'. install_layers layers t = Ret (r, t') \<and> torrent_ok t' \<and> (r \<noteq> Inr () \<longrightarrow> t' = t)))"
proof -
  have "torrent_ok t"
    using assms(1)
  proof
    assume "parse_torrent_file sha1 data = Ret (Inr t)"
    then show ?thesis using assms(2) build_torrent_ok(1) wire_ok_def by (elim parse_torrent_fileD) auto
  next
    assume "from_info_dict_bytes sha1 data expected announce announce_list = Ret (Inr t)"
    then obtain info where "decode data = Inr info"
      "build_torrent_from_info sha1 info data announce announce_list [] None = Ret (Inr t)"
      by (auto simp: from_info_dict_bytes_def res_iff split: if_splits)
    then show ?thesis
      using build_torrent_ok(1) strict_bencode.decode_iff [OF assms(2), of info] by (auto simp: wire_ok_def)
  qed
  then show ?thesis by (meson install_layers_ok)
qed

text \<open>
  C28: The info hash is the hash of the bytes in the file. For every accepted .torrent
  file, the dictionary the torrent was built from occurs in the file byte for byte as its
  own encoding, and the info hash is the SHA-1 of those bytes (for a v2-only torrent, the
  first 20 bytes of their SHA-256). Those bytes match the hash, and whatever a magnet link
  with that hash builds from them has the same info hash, name, files, padding and piece length.
\<close>

theorem info_hash_exact:
  assumes p: "parse_torrent_file sha1 data = Ret (Inr t)" and sl: "slice_ok data"
  shows "let raw = encode (tf_info t) in
    (\<exists>pre post. data = pre @ raw @ post) \<and>
    tf_info_hash t = (if is_v2_only t then take 20 (sha256 raw) else sha1 raw) \<and>
    info_hash_matches sha1 raw (tf_info_hash t) \<and>
    (\<forall>t'. from_info_dict_bytes sha1 raw (tf_info_hash t) announce announce_list = Ret (Inr t') \<longrightarrow>
      tf_info_hash t' = tf_info_hash t \<and> tf_name t' = tf_name t \<and> tf_files t' = tf_files t \<and>
      tf_padding t' = tf_padding t \<and> tf_piece_length t' = tf_piece_length t)"
proof -
  obtain tv dict info where d: "decode data = Inr tv" "as_dict tv = Some dict" "map_of dict (lit ''info'') = Some info" "wire_ok info"
    and b: "build_torrent_from_info sha1 info (encode info) (Option.bind (map_of dict (lit ''announce'')) as_str)
      (read_announce_list dict) (read_url_list dict) (map_of dict (lit ''piece layers'')) = Ret (Inr t)"
    and raw: "\<exists>pre post. data = pre @ encode info @ post"
    by (rule parse_torrent_fileD [OF p sl])
  have wf: "wf_bencode info" using d(4) by (simp add: wire_ok_def)
  note ok = build_torrent_ok [OF b wf]
  have same: "tf_info_hash t' = tf_info_hash t \<and> tf_name t' = tf_name t \<and> tf_files t' = tf_files t \<and>
      tf_padding t' = tf_padding t \<and> tf_piece_length t' = tf_piece_length t"
    if m: "from_info_dict_bytes sha1 (encode info) (tf_info_hash t) announce announce_list = Ret (Inr t')" for t'
  proof -
    have "decode (encode info) = Inr info" using strict_bencode.decode_encode [OF d(4)] .
    then have b': "build_torrent_from_info sha1 info (encode info) announce announce_list [] None = Ret (Inr t')"
      using m by (auto simp: from_info_dict_bytes_def split: if_splits)
    note layout = build_layout [OF b] and layout' = build_layout [OF b']
    have "tf_info_hash t' = tf_info_hash t" using ok(3) build_torrent_ok(3) [OF b' wf] layout(1) layout'(1) by simp
    moreover have "tf_name t' = tf_name t" "tf_piece_length t' = tf_piece_length t"
      using layout(2,3) layout'(2,3) by simp_all
    ultimately show ?thesis using layout(4,5) layout'(4,5) by (cases "v2_only_info info") simp_all
  qed
  with raw ok show ?thesis by (auto simp: Let_def info_hash_matches_def)
qed

text \<open>
  C29: The layout of an accepted torrent. Each v1 piece has the length \<open>piece_len\<close> says, no
  piece is empty, and one after the other they are the content; every file of a torrent, v1
  or v2, lies under the download directory, at the path of its plain components; and over
  real files with distinct paths the table of files covers the content exactly.
\<close>

theorem torrent_layout:
  assumes ok: "torrent_ok t"
  shows "(\<forall>content. \<not> is_v2_only t \<and> length content = total_size (tf_files t) \<longrightarrow>
      (let pieces = map (piece_of content (nat (tf_piece_length t))) [0..<length (tf_pieces t)]
       in map (piece_len t) [0..<length (tf_pieces t)] = map (Ret \<circ> length) pieces \<and> [] \<notin> set pieces \<and> concat pieces = content)) \<and>
    (\<forall>base spans. file_spans base t = Ret spans \<longrightarrow>
      map fs_path spans = map (\<lambda>f. dir_prefix base @ join_parts (fst f)) (tf_files t) \<and>
      list_all (\<lambda>f. list_all is_safe_component (fst f)) (tf_files t)) \<and>
    (\<forall>base. \<not> is_v2_only t \<and> distinct (map fst (visible_files t)) \<longrightarrow>
      (\<exists>spans. file_spans base t = Ret spans \<and> spans_ok spans \<and> (\<forall>k. span_at spans k \<noteq> None \<longleftrightarrow> k < total_size (tf_files t))))"
proof (intro conjI allI impI)
  fix content :: bytes
  assume c: "\<not> is_v2_only t \<and> length content = total_size (tf_files t)"
  let ?n = "nat (tf_piece_length t)"
  have n: "0 < ?n" "length (tf_pieces t) = div_ceil (length content) ?n" using ok c by (auto simp: torrent_ok_def)
  have "concat (map (piece_of content ?n) [0..<div_ceil (length content) ?n]) = content"
    using pieces_concat [OF n(1)] .
  then show "let pieces = map (piece_of content ?n) [0..<length (tf_pieces t)]
      in map (piece_len t) [0..<length (tf_pieces t)] = map (Ret \<circ> length) pieces \<and> [] \<notin> set pieces \<and> concat pieces = content"
    using piece_len_ok [OF ok _ _ conjunct2 [OF c]] c by (auto simp: Let_def n(2) image_iff) metis
next
  fix base spans
  assume "file_spans base t = Ret spans"
  from file_spans_inside [OF ok this]
  show "map fs_path spans = map (\<lambda>f. dir_prefix base @ join_parts (fst f)) (tf_files t)" .
  show "list_all (\<lambda>f. list_all is_safe_component (fst f)) (tf_files t)"
    using ok by (auto simp: torrent_ok_def list_all_iff safe_file_def)
next
  fix base
  assume "\<not> is_v2_only t \<and> distinct (map fst (visible_files t))"
  then show "\<exists>spans. file_spans base t = Ret spans \<and> spans_ok spans \<and> (\<forall>k. span_at spans k \<noteq> None \<longleftrightarrow> k < total_size (tf_files t))"
    using file_spans_ok [OF ok] by blast
qed

section \<open>Witnesses\<close>

text \<open>A single file of three bytes in one piece.\<close>

definition sample_info :: bencode where
  "sample_info = BDict [(lit ''length'', BInt 3), (lit ''name'', BBytes [97]), (lit ''piece length'', BInt 4),
     (lit ''pieces'', BBytes (replicate 20 7))]"

definition sample_torrent :: bencode where
  "sample_torrent = BDict [(lit ''info'', sample_info)]"

lemma lit_simps:
  "lit ''length'' = [108, 101, 110, 103, 116, 104]" "lit ''name'' = [110, 97, 109, 101]"
  "lit ''piece length'' = [112, 105, 101, 99, 101, 32, 108, 101, 110, 103, 116, 104]"
  "lit ''pieces'' = [112, 105, 101, 99, 101, 115]" "lit ''info'' = [105, 110, 102, 111]"
  "lit ''files'' = [102, 105, 108, 101, 115]" "lit ''private'' = [112, 114, 105, 118, 97, 116, 101]"
  "lit ''meta version'' = [109, 101, 116, 97, 32, 118, 101, 114, 115, 105, 111, 110]"
  by (simp_all add: lit_def)

lemma sample_wire_ok: "wire_ok sample_torrent"
  by (simp add: sample_torrent_def sample_info_def lit_simps wire_ok_def MAX_DEPTH_def i64_range_def
    encode_simps enc_bytes_def show_int_def show_nat.simps sorted_keys_def)

lemma sample_slice_ok: "slice_ok (encode sample_torrent)"
  using sample_wire_ok by (simp add: wire_ok_def)

definition sample_file :: torrent_file where
  "sample_file = \<lparr>tf_announce = None, tf_announce_list = [], tf_info = sample_info, tf_info_hash = [],
     tf_piece_length = 4, tf_pieces = [replicate 20 7], tf_name = [97], tf_files = [([[97]], 3)], tf_padding = [False],
     tf_multi_file = False, tf_url_list = [], tf_private = False, tf_v2 = None, tf_v2_pieces = []\<rparr>"

lemma sample_parses: "parse_torrent_file (\<lambda>_. []) (encode sample_torrent) = Ret (Inr sample_file)"
proof -
  have "decode (encode sample_torrent) = Inr sample_torrent" by (rule strict_bencode.decode_encode [OF sample_wire_ok])
  moreover have "chunks 20 (replicate 20 7) = [replicate 20 (7 :: u8)]"
    by (simp add: chunks.simps [of 20 "replicate 20 7"] chunks_short)
  ultimately show ?thesis
    by (subst parse_torrent_file_eq [OF _ _ _ sample_slice_ok, of sample_torrent _ sample_info])
      (auto simp: sample_torrent_def sample_info_def sample_file_def as_dict_def lit_simps build_torrent_from_info_def Let_def get_def
        build_v1_torrent_def as_int_def as_bytes_def as_str_def MAX_PIECE_LENGTH_def is_safe_component_def layout_of_def
        i64_as_u64_def div_ceil_def read_announce_list_def read_url_list_def is_private_def lit_def)
qed

theorem accepted_torrent_ok_witness:
  "parse_torrent_file (\<lambda>_. []) (encode sample_torrent) = Ret (Inr sample_file) \<and> torrent_ok sample_file \<and>
   install_layers Map.empty sample_file = Ret (Inl BadLayer, sample_file)"
proof -
  have "layers_32 Map.empty" by (simp add: layers_32_def)
  moreover have "install_layers Map.empty sample_file = Ret (Inl BadLayer, sample_file)"
    by (simp add: install_layers_def sample_file_def)
  ultimately show ?thesis
    using accepted_torrent_ok [OF disjI1 [OF sample_parses] sample_slice_ok, of Map.empty] sample_parses
    by (simp add: sample_file_def)
qed

theorem info_hash_exact_witness:
  "\<exists>pre post. encode sample_torrent = pre @ encode sample_info @ post"
  using info_hash_exact [OF sample_parses sample_slice_ok] by (simp add: Let_def sample_file_def)

theorem torrent_layout_witness:
  "piece_len sample_file 0 = Ret 3 \<and> (\<exists>spans. file_spans [100] sample_file = Ret spans \<and> spans_ok spans \<and> map fs_path spans = [[100, 47, 97]])"
proof -
  have v: "\<not> is_v2_only sample_file" by (simp add: is_v2_only_def sample_file_def)
  then have "torrent_ok sample_file"
    by (simp add: torrent_ok_def) (simp add: sample_file_def MAX_PIECE_LENGTH_def is_safe_component_def safe_file_def total_size_def div_ceil_def)
  note layout = torrent_layout [OF this]
  have d: "distinct (map fst (visible_files sample_file))" and len: "length [1, 2, 3 :: u8] = total_size (tf_files sample_file)"
    and p: "length (tf_pieces sample_file) = 1" "nat (tf_piece_length sample_file) = 4"
    by (simp_all add: visible_files_def sample_file_def total_size_def)
  from conjunct2 [OF conjunct2 [OF layout], rule_format, OF conjI [OF v d]]
  obtain spans where s: "file_spans [100] sample_file = Ret spans" "spans_ok spans" by metis
  have paths: "map fs_path spans = [[100, 47, 97]]"
    using conjunct1 [OF conjunct2 [OF layout], rule_format, OF s(1)] by (simp add: sample_file_def dir_prefix_def)
  have "map (piece_len sample_file) [0..<1] = map (Ret \<circ> length) (map (piece_of [1, 2, 3] 4) [0..<1])"
    using conjunct1 [OF layout, rule_format, OF conjI [OF v len]] unfolding Let_def p by (rule conjunct1)
  then have "piece_len sample_file 0 = Ret 3" by (simp add: piece_of_def)
  then show ?thesis using s paths by (intro conjI exI [of _ spans])
qed

end
