(* ===== verification/Choker.thy ===== *)
theory Choker
  imports Rust_Std "HOL-Library.Product_Lexorder"
begin

text \<open>
  \<open>choker.rs\<close>: which peers are served. Every method holds the one lock for its whole body,
  so a method is one step of the state. Peer ids and byte counts are natural numbers: \<open>u64\<close>
  counters that go up by one for each connection and are cleared in each round do not wrap.
\<close>

section \<open>Choosing\<close>

definition DEFAULT_SLOTS :: nat where
  "DEFAULT_SLOTS = 4"

definition OPTIMISTIC_EVERY :: nat where
  "OPTIMISTIC_EVERY = 3"

record candidate =
  ca_id :: nat
  ca_interested :: bool
  ca_uploaded :: nat
  ca_downloaded :: nat

text \<open>
  The comparison of \<open>sort_by\<close>: more downloaded first, then more uploaded, then the lower id.
  Rust's sort and \<open>sort_key\<close> are both stable.
\<close>

definition standing :: "candidate \<Rightarrow> int \<times> int \<times> nat" where
  "standing p = (- int (ca_downloaded p), - int (ca_uploaded p), ca_id p)"

definition choose_peers :: "candidate list \<Rightarrow> nat \<Rightarrow> nat option \<Rightarrow> nat set" where
  "choose_peers peers slots optimistic =
     (if slots = 0 then {}
      else
        let interested = sort_key standing (filter ca_interested peers);
            regular = (if slots = 1 then 1 else slots - 1);
            chosen = set (map ca_id (take regular interested))
        in if slots > 1 then
             let optimistic = (case optimistic of None \<Rightarrow> None
                 | Some i \<Rightarrow> if list_ex (\<lambda>p. ca_id p = i) interested \<and> i \<notin> chosen then Some i else None)
             in case optimistic of
                  Some i \<Rightarrow> insert i chosen
                | None \<Rightarrow>
                    (case find (\<lambda>p. ca_id p \<notin> chosen) interested of
                       Some p \<Rightarrow> insert (ca_id p) chosen
                     | None \<Rightarrow> chosen)
           else chosen)"

section \<open>The state and its operations\<close>

record slot =
  sl_interested :: bool
  sl_unchoked :: bool
  sl_uploaded :: nat
  sl_downloaded :: nat

text \<open>The peers are a \<open>BTreeMap\<close>: its entries in the order of their keys.\<close>

record choker =
  ch_slots :: nat
  ch_peers :: "(nat \<times> slot) list"
  ch_next_id :: nat
  ch_optimistic :: "nat option"
  ch_round :: nat

definition choker_new :: "nat \<Rightarrow> choker" where
  "choker_new slots = \<lparr>ch_slots = slots, ch_peers = [], ch_next_id = 0, ch_optimistic = None, ch_round = 0\<rparr>"

definition register :: "choker \<Rightarrow> nat \<times> choker" where
  "register c =
     (let i = ch_next_id c
      in (i, c\<lparr>ch_next_id := i + 1,
               ch_peers := bt_insert i \<lparr>sl_interested = False, sl_unchoked = False, sl_uploaded = 0, sl_downloaded = 0\<rparr> (ch_peers c)\<rparr>))"

definition unregister :: "nat \<Rightarrow> choker \<Rightarrow> choker" where
  "unregister i c =
     (let c' = c\<lparr>ch_peers := al_remove i (ch_peers c)\<rparr>
      in if ch_optimistic c' = Some i then c'\<lparr>ch_optimistic := None\<rparr> else c')"

definition set_interested :: "nat \<Rightarrow> bool \<Rightarrow> choker \<Rightarrow> choker" where
  "set_interested i interested c =
     c\<lparr>ch_peers := al_modify i (\<lambda>s. let s' = s\<lparr>sl_interested := interested\<rparr>
         in if \<not> interested then s'\<lparr>sl_unchoked := False\<rparr> else s') (ch_peers c)\<rparr>"

definition unchoked_count :: "choker \<Rightarrow> nat" where
  "unchoked_count c = length (filter (sl_unchoked \<circ> snd) (ch_peers c))"

definition grant_if_free :: "nat \<Rightarrow> choker \<Rightarrow> bool \<times> choker" where
  "grant_if_free i c =
     (let held = length (filter (sl_unchoked \<circ> snd) (ch_peers c))
      in case map_of (ch_peers c) i of
           None \<Rightarrow> (False, c)
         | Some slot \<Rightarrow>
             if sl_unchoked slot then (True, c)
             else if sl_interested slot \<and> held < ch_slots c
               then (True, c\<lparr>ch_peers := al_modify i (\<lambda>s. s\<lparr>sl_unchoked := True\<rparr>) (ch_peers c)\<rparr>)
             else (False, c))"

definition record_upload :: "nat \<Rightarrow> nat \<Rightarrow> choker \<Rightarrow> choker" where
  "record_upload i n c =
     c\<lparr>ch_peers := al_modify i (\<lambda>s. s\<lparr>sl_uploaded := sl_uploaded s + n\<rparr>) (ch_peers c)\<rparr>"

definition record_download :: "nat \<Rightarrow> nat \<Rightarrow> choker \<Rightarrow> choker" where
  "record_download i n c =
     c\<lparr>ch_peers := al_modify i (\<lambda>s. s\<lparr>sl_downloaded := sl_downloaded s + n\<rparr>) (ch_peers c)\<rparr>"

definition is_unchoked :: "nat \<Rightarrow> choker \<Rightarrow> bool" where
  "is_unchoked i c = (case map_of (ch_peers c) i of None \<Rightarrow> False | Some s \<Rightarrow> sl_unchoked s)"

definition is_interested :: "nat \<Rightarrow> choker \<Rightarrow> bool" where
  "is_interested i c = (case map_of (ch_peers c) i of None \<Rightarrow> False | Some s \<Rightarrow> sl_interested s)"

text \<open>The interested peer after the one that had the optimistic slot, or the first.\<close>

definition next_optimistic :: "nat option \<Rightarrow> nat list \<Rightarrow> nat option" where
  "next_optimistic after candidates =
     (case find (\<lambda>i. case after of None \<Rightarrow> True | Some a \<Rightarrow> a < i) candidates of
        Some i \<Rightarrow> Some i
      | None \<Rightarrow> (case candidates of [] \<Rightarrow> None | i # _ \<Rightarrow> Some i))"

definition rechoke :: "choker \<Rightarrow> choker" where
  "rechoke c =
     (let round = ch_round c + 1;
          optimistic =
            (if ch_slots c > 1 \<and>
                (round mod OPTIMISTIC_EVERY = 1 \<or>
                 (case ch_optimistic c of None \<Rightarrow> True | Some i \<Rightarrow> \<not> is_interested i c))
             then next_optimistic (ch_optimistic c) (map fst (filter (sl_interested \<circ> snd) (ch_peers c)))
             else ch_optimistic c);
          candidates = map (\<lambda>(i, s). \<lparr>ca_id = i, ca_interested = sl_interested s, ca_uploaded = sl_uploaded s,
                               ca_downloaded = sl_downloaded s\<rparr>) (ch_peers c);
          chosen = choose_peers candidates (ch_slots c) optimistic
      in c\<lparr>ch_round := round, ch_optimistic := optimistic,
           ch_peers := map (\<lambda>(i, s). (i, s\<lparr>sl_unchoked := i \<in> chosen, sl_uploaded := 0, sl_downloaded := 0\<rparr>)) (ch_peers c)\<rparr>)"

section \<open>What is chosen\<close>

text \<open>The rule in words: the best but one, and one more if anyone is left.\<close>

lemma sort_key_filter_set [simp]: "set (sort_key f (filter P xs)) = {x \<in> set xs. P x}"
  by simp

lemma take_sorted_least:
  assumes "sorted (map f xs)" "x \<in> set (take n xs)" "y \<in> set (drop n xs)"
  shows "f x \<le> f y"
proof -
  have "sorted (map f (take n xs @ drop n xs))" using assms(1) by simp
  then show ?thesis using assms(2,3) unfolding map_append sorted_append by auto
qed

lemma choose_peers_eq:
  assumes "distinct (map ca_id peers)"
  defines "L \<equiv> sort_key standing (filter ca_interested peers)"
  shows "\<exists>extra. choose_peers peers slots optimistic = ca_id ` set (take (if slots = 1 then 1 else slots - 1) L) \<union> extra \<and>
    card extra = (if slots > 1 \<and> slots \<le> length L then 1 else 0) \<and> extra \<subseteq> ca_id ` set (drop (slots - 1) L) \<and>
    (slots > 1 \<and> optimistic = Some i \<and> i \<in> ca_id ` set L \<longrightarrow> i \<in> choose_peers peers slots optimistic)"
proof (cases "slots > 1")
  case False
  then show ?thesis by (intro exI [of _ "{}"]) (auto simp: choose_peers_def L_def Let_def)
next
  case True
  let ?T = "ca_id ` set (take (slots - 1) L)" and ?D = "ca_id ` set (drop (slots - 1) L)"
  have "mset (map ca_id L) = mset (map ca_id (filter ca_interested peers))" by (simp add: L_def)
  then have "distinct (map ca_id L)"
    using distinct_map_filter [OF assms(1), of ca_interested] mset_eq_imp_distinct_iff by blast
  then have "distinct (map ca_id (take (slots - 1) L @ drop (slots - 1) L))" by simp
  then have apart: "?T \<inter> ?D = {}" unfolding map_append distinct_append by auto
  have in_drop: "ca_id x \<in> ?D" if "x \<in> set L" "ca_id x \<notin> ?T" for x
    using that set_append [of "take (slots - 1) L" "drop (slots - 1) L"] by auto
  have D: "?D = {} \<longleftrightarrow> length L < slots" using True by auto
  consider (opt) k where "optimistic = Some k" "k \<in> ?D"
    | (second) p where "find (\<lambda>p. ca_id p \<notin> ?T) L = Some p" "\<forall>k. optimistic = Some k \<longrightarrow> k \<notin> ?D"
    | (none) "find (\<lambda>p. ca_id p \<notin> ?T) L = None" "\<forall>k. optimistic = Some k \<longrightarrow> k \<notin> ?D"
    by (cases "find (\<lambda>p. ca_id p \<notin> ?T) L") auto
  then show ?thesis
  proof cases
    case opt
    then have "list_ex (\<lambda>p. ca_id p = k) L \<and> k \<notin> ?T" using apart by (auto simp: list_ex_iff dest: in_set_dropD)
    then have "choose_peers peers slots optimistic = insert k ?T"
      using True opt(1) by (simp add: choose_peers_def Let_def flip: L_def)
    then show ?thesis using True opt D by (intro exI [of _ "{k}"]) auto
  next
    case second
    have old: "\<forall>k. optimistic = Some k \<longrightarrow> \<not> (list_ex (\<lambda>p. ca_id p = k) L \<and> k \<notin> ?T)"
      using second(2) in_drop by (auto simp: list_ex_iff)
    then have eq: "choose_peers peers slots optimistic = insert (ca_id p) ?T"
      using True second(1) by (auto simp: choose_peers_def Let_def simp flip: L_def split: option.split)
    have p: "p \<in> set L" "ca_id p \<notin> ?T" using second(1) by (auto simp: find_Some_iff)
    then have "ca_id p \<in> ?D" by (rule in_drop)
    moreover have "i \<in> choose_peers peers slots optimistic" if "optimistic = Some i" "i \<in> ca_id ` set L"
      using old that eq by (auto simp: list_ex_iff)
    ultimately show ?thesis using True D eq by (intro exI [of _ "{ca_id p}"]) auto
  next
    case none
    from none(1) have all: "\<forall>x\<in>set L. ca_id x \<in> ?T" unfolding find_None_iff by blast
    have "k \<notin> ?D" for k
    proof
      assume "k \<in> ?D"
      then obtain x where "x \<in> set (drop (slots - 1) L)" "k = ca_id x" by blast
      then have "k \<in> ?T" using all in_set_dropD by metis
      with \<open>k \<in> ?D\<close> apart show False by blast
    qed
    then have "?D = {}" by (intro equals0I) (rule notE)
    moreover have old: "\<forall>k. optimistic = Some k \<longrightarrow> \<not> (list_ex (\<lambda>p. ca_id p = k) L \<and> k \<notin> ?T)"
      using none(2) in_drop by (auto simp: list_ex_iff)
    then have eq: "choose_peers peers slots optimistic = ?T"
      using True none(1) by (auto simp: choose_peers_def Let_def simp flip: L_def split: option.split)
    moreover have "i \<in> choose_peers peers slots optimistic" if "optimistic = Some i" "i \<in> ca_id ` set L"
      using old that eq by (auto simp: list_ex_iff)
    ultimately show ?thesis using True D by (intro exI [of _ "{}"]) auto
  qed
qed

section \<open>The invariant\<close>

datatype choker_op = OpRegister | OpUnregister nat | OpInterested nat bool | OpGrant nat
  | OpUpload nat nat | OpDownload nat nat | OpRechoke

fun choker_step :: "choker_op \<Rightarrow> choker \<Rightarrow> choker" where
  "choker_step OpRegister c = snd (register c)"
| "choker_step (OpUnregister i) c = unregister i c"
| "choker_step (OpInterested i b) c = set_interested i b c"
| "choker_step (OpGrant i) c = snd (grant_if_free i c)"
| "choker_step (OpUpload i n) c = record_upload i n c"
| "choker_step (OpDownload i n) c = record_download i n c"
| "choker_step OpRechoke c = rechoke c"

definition choker_ok :: "choker \<Rightarrow> bool" where
  "choker_ok c \<longleftrightarrow>
     sorted_wrt (<) (map fst (ch_peers c)) \<and> (\<forall>e\<in>set (ch_peers c). fst e < ch_next_id c) \<and>
     unchoked_count c \<le> ch_slots c \<and> (\<forall>e\<in>set (ch_peers c). sl_unchoked (snd e) \<longrightarrow> sl_interested (snd e)) \<and>
     (\<forall>i. ch_optimistic c = Some i \<longrightarrow> i \<in> fst ` set (ch_peers c))"

lemma sorted_less_distinct: "sorted_wrt (<) (xs :: 'a::linorder list) \<Longrightarrow> distinct xs"
  by (simp add: strict_sorted_iff)

lemma choker_ok_distinct: "choker_ok c \<Longrightarrow> distinct (map fst (ch_peers c))"
  by (simp add: choker_ok_def sorted_less_distinct)

lemma filter_map_le: "(\<And>x. P (g x) \<Longrightarrow> P x) \<Longrightarrow> length (filter P (map g xs)) \<le> length (filter P xs)"
  by (induction xs) auto

lemma filter_filter_le: "length (filter P (filter Q xs)) \<le> length (filter P xs)"
  by (induction xs) auto

lemma al_modify_count:
  "distinct (map fst m) \<Longrightarrow> length (filter (P \<circ> snd) (al_modify k f m)) \<le> Suc (length (filter (P \<circ> snd) m))"
proof (induction m)
  case (Cons e m)
  show ?case
  proof (cases "fst e = k")
    case True
    with Cons.prems have "k \<notin> fst ` set m" by simp
    then have "al_modify k f m = m" unfolding al_modify_def by (intro map_idI) force
    then show ?thesis by (auto simp: al_modify_def)
  next
    case False
    with Cons show ?thesis by (auto simp: al_modify_def)
  qed
qed (simp add: al_modify_def)

lemma al_modify_ball:
  "\<forall>e\<in>set m. Q (fst e) (snd e) \<Longrightarrow> (\<And>v. (k, v) \<in> set m \<Longrightarrow> Q k v \<Longrightarrow> Q k (f v)) \<Longrightarrow> \<forall>e\<in>set (al_modify k f m). Q (fst e) (snd e)"
  by (auto simp: al_modify_def)

lemma al_modify_fst: "fst ` set (al_modify k f m) = fst ` set m"
  by (induction m) (auto simp: al_modify_def)

text \<open>Changing one entry in place keeps the order, and the rest of the invariant with it.\<close>

lemma choker_ok_modify:
  assumes ok: "choker_ok c"
    and count: "length (filter (sl_unchoked \<circ> snd) (al_modify i f (ch_peers c))) \<le> ch_slots c"
    and f: "\<And>s. (i, s) \<in> set (ch_peers c) \<Longrightarrow> (sl_unchoked s \<longrightarrow> sl_interested s) \<Longrightarrow> sl_unchoked (f s) \<longrightarrow> sl_interested (f s)"
  shows "choker_ok (c\<lparr>ch_peers := al_modify i f (ch_peers c)\<rparr>)"
  using ok count al_modify_ball [of "ch_peers c" "\<lambda>k s. sl_unchoked s \<longrightarrow> sl_interested s" i f] f
    al_modify_ball [of "ch_peers c" "\<lambda>k s. k < ch_next_id c" i f]
  by (auto simp: choker_ok_def unchoked_count_def al_modify_fst)

lemma al_modify_count_le:
  "(\<And>v. P (f v) \<Longrightarrow> P v) \<Longrightarrow> length (filter (P \<circ> snd) (al_modify k f m)) \<le> length (filter (P \<circ> snd) m)"
  unfolding al_modify_def by (intro filter_map_le) (auto split: if_splits)

lemma choker_ok_modify_le:
  assumes "choker_ok c" "\<And>s. sl_unchoked (f s) \<Longrightarrow> sl_unchoked s \<and> (sl_interested s \<longrightarrow> sl_interested (f s))"
  shows "choker_ok (c\<lparr>ch_peers := al_modify i f (ch_peers c)\<rparr>)"
proof (rule choker_ok_modify [OF assms(1)])
  show "length (filter (sl_unchoked \<circ> snd) (al_modify i f (ch_peers c))) \<le> ch_slots c"
    using al_modify_count_le [of sl_unchoked f i "ch_peers c"] assms by (auto simp: choker_ok_def unchoked_count_def)
qed (use assms(2) in blast)

lemma choker_ok_grant: "choker_ok c \<Longrightarrow> choker_ok (snd (grant_if_free i c))"
proof -
  assume ok: "choker_ok c"
  show ?thesis
  proof (cases "\<exists>s. map_of (ch_peers c) i = Some s \<and> \<not> sl_unchoked s \<and> sl_interested s \<and> unchoked_count c < ch_slots c")
    case True
    then obtain s where s: "map_of (ch_peers c) i = Some s" "\<not> sl_unchoked s" "sl_interested s" "unchoked_count c < ch_slots c" by blast
    have "sl_interested v" if "(i, v) \<in> set (ch_peers c)" for v
      using that s(1,3) choker_ok_distinct [OF ok] by (metis map_of_eq_Some_iff option.inject)
    then have "choker_ok (c\<lparr>ch_peers := al_modify i (\<lambda>s. s\<lparr>sl_unchoked := True\<rparr>) (ch_peers c)\<rparr>)"
      using s(4) al_modify_count [OF choker_ok_distinct [OF ok], of sl_unchoked i "\<lambda>s. s\<lparr>sl_unchoked := True\<rparr>"]
      by (intro choker_ok_modify [OF ok]) (auto simp: unchoked_count_def)
    then show ?thesis using s by (simp add: grant_if_free_def Let_def unchoked_count_def)
  next
    case False
    then show ?thesis using ok by (auto simp: grant_if_free_def Let_def unchoked_count_def split: option.split)
  qed
qed

definition candidates :: "choker \<Rightarrow> candidate list" where
  "candidates c = map (\<lambda>(i, s). \<lparr>ca_id = i, ca_interested = sl_interested s, ca_uploaded = sl_uploaded s,
     ca_downloaded = sl_downloaded s\<rparr>) (ch_peers c)"

definition interested_ids :: "choker \<Rightarrow> nat list" where
  "interested_ids c = map fst (filter (sl_interested \<circ> snd) (ch_peers c))"

text \<open>The optimistic slot after a round, and the peers chosen.\<close>

definition turn :: "choker \<Rightarrow> nat option" where
  "turn c = ch_optimistic (rechoke c)"

lemma rechoke_eq:
  "rechoke c = c\<lparr>ch_round := ch_round c + 1, ch_optimistic := turn c,
     ch_peers := map (\<lambda>(i, s). (i, s\<lparr>sl_unchoked := i \<in> choose_peers (candidates c) (ch_slots c) (turn c),
       sl_uploaded := 0, sl_downloaded := 0\<rparr>)) (ch_peers c)\<rparr>"
  "turn c = (if ch_slots c > 1 \<and> ((ch_round c + 1) mod 3 = 1 \<or> (case ch_optimistic c of None \<Rightarrow> True | Some i \<Rightarrow> \<not> is_interested i c))
     then next_optimistic (ch_optimistic c) (interested_ids c) else ch_optimistic c)"
  by (simp add: turn_def rechoke_def Let_def candidates_def)
    (auto simp: turn_def rechoke_def Let_def interested_ids_def OPTIMISTIC_EVERY_def)

lemma candidates_ids: "map ca_id (candidates c) = map fst (ch_peers c)"
  by (simp add: candidates_def case_prod_beta comp_def)

lemma next_optimistic_in: "next_optimistic a cs = Some i \<Longrightarrow> i \<in> set cs"
  by (auto simp: next_optimistic_def find_Some_iff split: option.splits list.splits)

lemma interested_ids_peers: "set (interested_ids c) \<subseteq> fst ` set (ch_peers c)"
  by (auto simp: interested_ids_def)

lemma candidates_interested: "ca_id ` {p \<in> set (candidates c). ca_interested p} = set (interested_ids c)"
  by (force simp: candidates_def interested_ids_def)

lemma distinct_take_drop:
  assumes "distinct (map f xs)"
  shows "card (f ` set (take n xs)) = min n (length xs)" "f ` set (take n xs) \<inter> f ` set (drop n xs) = {}"
proof -
  have "distinct (map f (take n xs @ drop n xs))" using assms by simp
  then have d: "distinct (map f (take n xs))" "set (map f (take n xs)) \<inter> set (map f (drop n xs)) = {}"
    unfolding map_append distinct_append by blast+
  show "card (f ` set (take n xs)) = min n (length xs)" using distinct_card [OF d(1)] by (simp add: min.commute)
  show "f ` set (take n xs) \<inter> f ` set (drop n xs) = {}" using d(2) by simp
qed

lemma chosen_facts:
  assumes ok: "choker_ok c"
  shows "choose_peers (candidates c) (ch_slots c) opt \<subseteq> set (interested_ids c)"
    and "card (choose_peers (candidates c) (ch_slots c) opt) = min (ch_slots c) (length (interested_ids c))"
    and "ch_slots c > 1 \<Longrightarrow> opt = Some i \<Longrightarrow> i \<in> set (interested_ids c) \<Longrightarrow> i \<in> choose_peers (candidates c) (ch_slots c) opt"
proof -
  let ?L = "sort_key standing (filter ca_interested (candidates c))" and ?n = "ch_slots c"
  let ?r = "if ?n = 1 then 1 else ?n - 1"
  have d: "distinct (map ca_id (candidates c))" using choker_ok_distinct [OF ok] by (simp add: candidates_ids)
  obtain extra where e: "choose_peers (candidates c) ?n opt = ca_id ` set (take ?r ?L) \<union> extra"
    "card extra = (if ?n > 1 \<and> ?n \<le> length ?L then 1 else 0)" "extra \<subseteq> ca_id ` set (drop (?n - 1) ?L)"
    "?n > 1 \<and> opt = Some i \<and> i \<in> ca_id ` set ?L \<longrightarrow> i \<in> choose_peers (candidates c) ?n opt"
    using choose_peers_eq [OF d, of ?n opt i] by blast
  have ids: "ca_id ` set ?L = set (interested_ids c)" using candidates_interested [of c] by simp
  have "mset (map ca_id ?L) = mset (map ca_id (filter ca_interested (candidates c)))" by simp
  then have dL: "distinct (map ca_id ?L)"
    using distinct_map_filter [OF d, of ca_interested] mset_eq_imp_distinct_iff by blast
  have "length ?L = length (interested_ids c)"
    by (simp add: candidates_def interested_ids_def filter_map comp_def case_prod_beta)
  moreover note distinct_take_drop [OF dL, of ?r]
  moreover have "finite extra" using e(3) finite_subset by blast
  moreover have "?n = 1 \<Longrightarrow> extra = {}" using e(2) \<open>finite extra\<close> by auto
  ultimately have "card (ca_id ` set (take ?r ?L) \<union> extra) = min ?n (length (interested_ids c))"
    using e(2,3) card_Un_disjoint [of "ca_id ` set (take ?r ?L)" extra] by (cases "?n \<le> 1") (auto split: if_splits)
  then show "card (choose_peers (candidates c) ?n opt) = min ?n (length (interested_ids c))" by (simp only: e(1))
  show "choose_peers (candidates c) ?n opt \<subseteq> set (interested_ids c)"
    unfolding e(1) using e(3) image_mono [OF set_take_subset [of ?r ?L], of ca_id]
      image_mono [OF set_drop_subset [of "?n - 1" ?L], of ca_id] ids by blast
  show "?n > 1 \<Longrightarrow> opt = Some i \<Longrightarrow> i \<in> set (interested_ids c) \<Longrightarrow> i \<in> choose_peers (candidates c) ?n opt"
    using e(4) ids by blast
qed

lemma choker_ok_rechoke:
  assumes ok: "choker_ok c"
  shows "choker_ok (rechoke c)"
proof -
  let ?X = "choose_peers (candidates c) (ch_slots c) (turn c)"
  let ?f = "\<lambda>(i, s). (i, s\<lparr>sl_unchoked := i \<in> ?X, sl_uploaded := 0, sl_downloaded := 0\<rparr>)"
  note X = chosen_facts [OF ok, of "turn c"]
  have "length (filter (sl_unchoked \<circ> snd) (map ?f (ch_peers c))) = length (filter (\<lambda>e. fst e \<in> ?X) (ch_peers c))"
    by (simp add: filter_map comp_def case_prod_beta)
  also have "\<dots> = card (set (map fst (filter (\<lambda>e. fst e \<in> ?X) (ch_peers c))))"
    using distinct_card [OF distinct_map_filter [OF choker_ok_distinct [OF ok], of "\<lambda>e. fst e \<in> ?X"]] by simp
  also have "\<dots> \<le> card ?X" using X(1) by (intro card_mono) (auto intro: finite_subset)
  finally have "length (filter (sl_unchoked \<circ> snd) (map ?f (ch_peers c))) \<le> ch_slots c" using X(2) by simp
  moreover have int: "sl_interested s" if "(i, s) \<in> set (ch_peers c)" "i \<in> ?X" for i s
  proof -
    have "i \<in> set (interested_ids c)" using that X(1) by blast
    then obtain s' where "(i, s') \<in> set (ch_peers c)" "sl_interested s'" by (auto simp: interested_ids_def)
    then show ?thesis using that(1) choker_ok_distinct [OF ok] eq_key_imp_eq_value by metis
  qed
  define Q where "Q = map ?f (ch_peers c)"
  have keys: "map fst Q = map fst (ch_peers c)" by (simp add: Q_def comp_def case_prod_beta)
  have fst: "fst ` set Q = fst ` set (ch_peers c)" using arg_cong [OF keys, of set] by (simp only: set_map)
  have turn: "i \<in> fst ` set (ch_peers c)" if "turn c = Some i" for i
    using that ok interested_ids_peers [of c] next_optimistic_in [of "ch_optimistic c" "interested_ids c" i]
    by (auto simp: rechoke_eq(2) choker_ok_def split: if_splits)
  have "\<forall>e\<in>set Q. fst e < ch_next_id c"
    using ok fst imageI [of _ "set Q" fst] by (fastforce simp: choker_ok_def)
  moreover have "\<forall>e\<in>set Q. sl_unchoked (snd e) \<longrightarrow> sl_interested (snd e)" using int by (auto simp: Q_def)
  moreover have "rechoke c = c\<lparr>ch_round := ch_round c + 1, ch_optimistic := turn c, ch_peers := Q\<rparr>"
    by (simp add: rechoke_eq(1) Q_def)
  ultimately show ?thesis using ok turn keys fst by (simp add: choker_ok_def unchoked_count_def flip: Q_def)
qed

lemma choker_ok_step: "choker_ok c \<Longrightarrow> choker_ok (choker_step op c)"
proof (cases op)
  case OpRegister
  assume ok: "choker_ok c"
  then have "\<forall>e\<in>set (ch_peers c). fst e < ch_next_id c" by (simp add: choker_ok_def)
  then show ?thesis using ok OpRegister
    by (auto simp: register_def Let_def bt_insert_last choker_ok_def unchoked_count_def sorted_wrt_append less_SucI image_iff)
next
  case (OpUnregister i)
  assume ok: "choker_ok c"
  have "length (filter (sl_unchoked \<circ> snd) (al_remove i (ch_peers c))) \<le> length (filter (sl_unchoked \<circ> snd) (ch_peers c))"
    unfolding al_remove_def by (rule filter_filter_le)
  moreover have "sorted_wrt (<) (map fst (al_remove i (ch_peers c)))"
    using ok unfolding al_remove_def choker_ok_def sorted_wrt_map by (auto intro: sorted_wrt_filter)
  moreover have "set (al_remove i (ch_peers c)) \<subseteq> set (ch_peers c)" by (auto simp: al_remove_def)
  ultimately show ?thesis using ok OpUnregister
    by (auto simp: unregister_def Let_def choker_ok_def unchoked_count_def)
qed (auto simp: set_interested_def record_upload_def record_download_def Let_def choker_ok_rechoke choker_ok_grant
       intro!: choker_ok_modify_le split: if_splits)

interpretation choker_machine: machine choker_step choker_ok
  by unfold_locales (rule choker_ok_step)

lemma choker_ok_new: "choker_ok (choker_new slots)"
  by (simp add: choker_ok_def choker_new_def unchoked_count_def)

lemma slots_step: "ch_slots (choker_step op c) = ch_slots c"
  by (cases op) (auto simp: register_def unregister_def set_interested_def grant_if_free_def record_upload_def record_download_def
    rechoke_eq(1) Let_def split: option.split)

lemma slots_run: "ch_slots (fold choker_step ops c) = ch_slots c"
  by (induction ops arbitrary: c) (simp_all add: slots_step)

section \<open>The optimistic slot goes round\<close>

lemma next_optimistic_some: "cs \<noteq> [] \<Longrightarrow> \<exists>i\<in>set cs. next_optimistic a cs = Some i"
  by (cases cs) (auto simp: next_optimistic_def find_Some_iff split: option.split)

lemma next_optimistic_succ:
  assumes s: "sorted_wrt (<) cs" and k: "k < length cs"
  shows "next_optimistic (Some (cs ! k)) cs = Some (cs ! (Suc k mod length cs))"
proof (cases "Suc k < length cs")
  case True
  have "cs ! j \<le> cs ! k" if "j < Suc k" for j
    using sorted_wrt_nth_less [OF s, of j k] that k by (cases "j = k") auto
  moreover have "cs ! k < cs ! Suc k" using sorted_wrt_nth_less [OF s, of k "Suc k"] True by simp
  ultimately have "find (\<lambda>i. cs ! k < i) cs = Some (cs ! Suc k)" using True by (auto simp: find_Some_iff not_less)
  then show ?thesis using True by (simp add: next_optimistic_def)
next
  case False
  with k have last: "Suc k = length cs" by simp
  have "cs ! j \<le> cs ! k" if "j < length cs" for j
    using sorted_wrt_nth_less [OF s, of j k] that last by (cases "j = k") auto
  then have "find (\<lambda>i. cs ! k < i) cs = None" by (auto simp: find_None_iff in_set_conv_nth not_less)
  then show ?thesis using last k by (cases cs) (auto simp: next_optimistic_def)
qed

text \<open>What stays the same from round to round while nothing else happens.\<close>

definition steady :: "nat list \<Rightarrow> choker \<Rightarrow> bool" where
  "steady cs c \<longleftrightarrow> choker_ok c \<and> ch_slots c > 1 \<and> interested_ids c = cs"

lemma steady_rechoke: "steady cs c \<Longrightarrow> steady cs (rechoke c)"
  by (simp add: steady_def choker_ok_rechoke) (simp add: rechoke_eq(1) interested_ids_def filter_map comp_def case_prod_beta)

lemma steady_rounds: "steady cs c \<Longrightarrow> steady cs ((rechoke ^^ n) c)"
  by (induction n) (simp_all add: steady_rechoke)

lemma round_rounds: "ch_round ((rechoke ^^ n) c) = ch_round c + n"
  by (induction n) (simp_all add: rechoke_eq(1))

lemma steady_sorted: "steady cs c \<Longrightarrow> sorted_wrt (<) cs"
  by (auto simp: steady_def choker_ok_def interested_ids_def sorted_wrt_map intro: sorted_wrt_filter)

lemma interested_ids_iff: "choker_ok c \<Longrightarrow> i \<in> set (interested_ids c) \<longleftrightarrow> is_interested i c"
proof -
  assume "choker_ok c"
  then have "set (interested_ids c) = {i. \<exists>s. map_of (ch_peers c) i = Some s \<and> sl_interested s}"
    using map_of_eq_Some_iff [OF choker_ok_distinct] by (force simp: interested_ids_def)
  then show ?thesis by (auto simp: is_interested_def split: option.split)
qed

lemma turn_cases:
  assumes "steady cs c"
  shows "(ch_round c + 1) mod 3 = 1 \<Longrightarrow> ch_optimistic (rechoke c) = next_optimistic (ch_optimistic c) cs"
    and "(ch_round c + 1) mod 3 \<noteq> 1 \<Longrightarrow> ch_optimistic c = Some i \<Longrightarrow> i \<in> set cs \<Longrightarrow> ch_optimistic (rechoke c) = Some i"
  using assms interested_ids_iff [of c i] by (auto simp: steady_def rechoke_eq(2) simp flip: turn_def)

lemma turn_unchoked:
  assumes "steady cs c" "ch_optimistic (rechoke c) = Some i" "i \<in> set cs"
  shows "is_unchoked i (rechoke c)"
proof -
  have "i \<in> choose_peers (candidates c) (ch_slots c) (turn c)"
    using assms by (intro chosen_facts(3)) (auto simp: steady_def turn_def)
  moreover obtain s where "map_of (ch_peers c) i = Some s"
    using assms interested_ids_iff [of c i] by (auto simp: steady_def is_interested_def split: option.splits)
  ultimately have "\<exists>s'. (i, s') \<in> set (ch_peers (rechoke c)) \<and> sl_unchoked s'"
    by (force simp: rechoke_eq(1) dest: map_of_SomeD)
  then obtain s' where s': "(i, s') \<in> set (ch_peers (rechoke c))" "sl_unchoked s'" by blast
  have "choker_ok (rechoke c)" using assms(1) choker_ok_rechoke by (simp add: steady_def)
  then have "map_of (ch_peers (rechoke c)) i = Some s'" using s'(1) choker_ok_distinct by simp
  then show ?thesis using s'(2) by (simp add: is_unchoked_def)
qed

lemma three_rounds:
  assumes st: "steady cs c" and r: "ch_round c mod 3 = 1" and k: "k < length cs" "ch_optimistic c = Some (cs ! k)"
  shows "ch_optimistic ((rechoke ^^ 3) c) = Some (cs ! (Suc k mod length cs))"
proof -
  have i: "cs ! k \<in> set cs" using k(1) by simp
  have rounds: "ch_round (rechoke c) = ch_round c + 1" "ch_round (rechoke (rechoke c)) = ch_round c + 2"
    by (simp_all add: rechoke_eq(1))
  have "(ch_round c + 1) mod 3 \<noteq> 1" using r by presburger
  then have o1: "ch_optimistic (rechoke c) = Some (cs ! k)" using turn_cases(2) [OF st _ k(2) i] by simp
  have "(ch_round (rechoke c) + 1) mod 3 \<noteq> 1" using r rounds(1) by presburger
  then have o2: "ch_optimistic (rechoke (rechoke c)) = Some (cs ! k)"
    using turn_cases(2) [OF steady_rechoke [OF st] _ o1 i] by simp
  have "(ch_round (rechoke (rechoke c)) + 1) mod 3 = 1" using r rounds(2) by presburger
  then have "ch_optimistic (rechoke (rechoke (rechoke c))) = next_optimistic (Some (cs ! k)) cs"
    using turn_cases(1) [OF steady_rechoke [OF steady_rechoke [OF st]]] o2 by metis
  moreover have "(rechoke ^^ 3) c = rechoke (rechoke (rechoke c))" by (simp add: numeral_3_eq_3)
  ultimately show ?thesis using next_optimistic_succ [OF steady_sorted [OF st] k(1)] by metis
qed

lemma many_rounds:
  assumes st: "steady cs c" and r: "ch_round c mod 3 = 1" and k: "k < length cs" "ch_optimistic c = Some (cs ! k)"
  shows "ch_optimistic ((rechoke ^^ (3 * m)) c) = Some (cs ! ((k + m) mod length cs))"
proof (induction m)
  case (Suc m)
  let ?c = "(rechoke ^^ (3 * m)) c"
  have "ch_round ?c mod 3 = 1" using r by (simp add: round_rounds)
  moreover have "(k + m) mod length cs < length cs" using k(1) by (intro mod_less_divisor) auto
  ultimately have "ch_optimistic ((rechoke ^^ 3) ?c) = Some (cs ! (Suc ((k + m) mod length cs) mod length cs))"
    using Suc by (intro three_rounds [OF steady_rounds [OF st]])
  moreover have "(rechoke ^^ (3 * Suc m)) c = (rechoke ^^ 3) ?c" by (simp only: mult_Suc_right funpow_add comp_apply)
  ultimately show ?case by (simp add: mod_Suc_eq)
qed (use k in simp)

lemma optimistic_reaches:
  assumes st: "steady cs c" and i: "i \<in> set cs"
  shows "\<exists>n. 0 < n \<and> n \<le> 3 * length cs \<and> ch_optimistic ((rechoke ^^ n) c) = Some i"
proof -
  have "\<exists>t\<le>2. (ch_round c + t + 1) mod 3 = 1" by presburger
  then obtain t where t: "t \<le> 2" "(ch_round c + t + 1) mod 3 = 1" by blast
  let ?c = "(rechoke ^^ Suc t) c"
  have "ch_optimistic ?c = next_optimistic (ch_optimistic ((rechoke ^^ t) c)) cs"
    using turn_cases(1) [OF steady_rounds [OF st, of t]] t(2) by (simp add: round_rounds)
  then obtain k where k: "k < length cs" "ch_optimistic ?c = Some (cs ! k)"
    using next_optimistic_some [of cs] i by (metis empty_iff empty_set in_set_conv_nth)
  obtain j where j: "j < length cs" "cs ! j = i" using i by (auto simp: in_set_conv_nth)
  define m where "m = (j + (length cs - k)) mod length cs"
  have "(k + m) mod length cs = j" using k(1) j(1) by (simp add: m_def mod_add_right_eq)
  moreover have "ch_round ?c mod 3 = 1" using t(2) by (simp only: round_rounds) simp
  ultimately have "ch_optimistic ((rechoke ^^ (3 * m)) ?c) = Some i"
    using many_rounds [OF steady_rounds [OF st, of "Suc t"] _ k, of m] j(2) by metis
  then have "ch_optimistic ((rechoke ^^ (3 * m + Suc t)) c) = Some i" by (simp only: funpow_add comp_apply)
  moreover have "m < length cs" unfolding m_def using j(1) by (intro mod_less_divisor) linarith
  ultimately show ?thesis using t(1) by (intro exI [of _ "3 * m + Suc t"]) auto
qed

lemma unchoked_rechoke:
  assumes ok: "choker_ok c"
  shows "is_unchoked i (rechoke c) \<longleftrightarrow> i \<in> choose_peers (candidates c) (ch_slots c) (turn c)"
proof -
  let ?X = "choose_peers (candidates c) (ch_slots c) (turn c)"
  have d: "distinct (map fst (ch_peers (rechoke c)))" using choker_ok_rechoke [OF ok] by (rule choker_ok_distinct)
  have "is_unchoked i (rechoke c) \<longleftrightarrow> (\<exists>s. (i, s) \<in> set (ch_peers (rechoke c)) \<and> sl_unchoked s)"
    by (auto simp: is_unchoked_def simp flip: map_of_eq_Some_iff [OF d] split: option.split)
  also have "\<dots> \<longleftrightarrow> i \<in> fst ` set (ch_peers c) \<and> i \<in> ?X" by (force simp: rechoke_eq(1))
  also have "\<dots> \<longleftrightarrow> i \<in> ?X" using chosen_facts(1) [OF ok, of "turn c"] interested_ids_peers [of c] by blast
  finally show ?thesis .
qed

lemma best_chosen:
  assumes ok: "choker_ok c"
  defines "X \<equiv> choose_peers (candidates c) (ch_slots c) (turn c)"
  shows "\<exists>E. finite E \<and> card E \<le> (if ch_slots c > 1 then 1 else 0) \<and>
    (\<forall>p q. p \<in> set (candidates c) \<and> q \<in> set (candidates c) \<and> ca_id p \<in> X - E \<and> ca_interested q \<and> ca_id q \<notin> X \<longrightarrow> standing p \<le> standing q)"
proof -
  let ?L = "sort_key standing (filter ca_interested (candidates c))" and ?n = "ch_slots c"
  let ?r = "if ?n = 1 then 1 else ?n - 1"
  have d: "distinct (map ca_id (candidates c))" using choker_ok_distinct [OF ok] by (simp add: candidates_ids)
  obtain E where e: "X = ca_id ` set (take ?r ?L) \<union> E" "card E = (if ?n > 1 \<and> ?n \<le> length ?L then 1 else 0)"
    "E \<subseteq> ca_id ` set (drop (?n - 1) ?L)"
    using choose_peers_eq [OF d, of ?n "turn c" 0] unfolding X_def by blast
  have "standing p \<le> standing q" if pq: "p \<in> set (candidates c)" "q \<in> set (candidates c)" "ca_id p \<in> X - E" "ca_interested q" "ca_id q \<notin> X" for p q
  proof (rule take_sorted_least [of standing ?L p ?r q])
    show "sorted (map standing ?L)" by simp
    obtain p' where p': "p' \<in> set (take ?r ?L)" "ca_id p' = ca_id p" using pq(3) e(1) by auto
    have "set (take ?r ?L) \<subseteq> set (candidates c)" using set_take_subset [of ?r ?L] by auto
    with p' pq(1) d have "p' = p" by (auto simp: distinct_map dest: inj_onD)
    with p' show "p \<in> set (take ?r ?L)" by simp
    have "q \<in> set (take ?r ?L @ drop ?r ?L)" unfolding append_take_drop_id using pq by simp
    moreover have "q \<notin> set (take ?r ?L)" using pq(5) e(1) by auto
    ultimately show "q \<in> set (drop ?r ?L)" unfolding set_append by blast
  qed
  moreover have "finite E" using e(3) finite_subset by blast
  ultimately show ?thesis using e(2) by (intro exI [of _ E]) auto
qed

section \<open>Properties\<close>

text \<open>
  C10: The slots are never oversubscribed, and a round serves the best. Over any
  interleaving of connections, changes of interest, transfers, immediate grants and rounds,
  at most \<open>slots\<close> peers are unchoked and all of them are interested. After a round exactly as
  many are unchoked as there are slots and interested peers to fill them, and except for
  one peer (the optimistic one, when there is more than one slot) nobody served stands
  behind an interested peer that is not.
\<close>

theorem choker_serves_best:
  "let c = fold choker_step ops (choker_new slots); X = {i. is_unchoked i (rechoke c)} in
   unchoked_count c \<le> slots \<and> (\<forall>i. is_unchoked i c \<longrightarrow> is_interested i c) \<and>
   card X = min slots (length (interested_ids c)) \<and>
   (\<exists>E. finite E \<and> card E \<le> (if slots > 1 then 1 else 0) \<and>
     (\<forall>p q. p \<in> set (candidates c) \<and> q \<in> set (candidates c) \<and> ca_id p \<in> X - E \<and> ca_interested q \<and> ca_id q \<notin> X \<longrightarrow>
       standing p \<le> standing q))"
proof -
  let ?c = "fold choker_step ops (choker_new slots)"
  have ok: "choker_ok ?c" by (rule choker_machine.inv_run [OF choker_ok_new])
  have n: "ch_slots ?c = slots" using slots_run [of ops "choker_new slots"] by (simp add: choker_new_def)
  have X: "{i. is_unchoked i (rechoke ?c)} = choose_peers (candidates ?c) slots (turn ?c)"
    using unchoked_rechoke [OF ok] n by simp
  have "is_interested i ?c" if "is_unchoked i ?c" for i
    using that ok map_of_SomeD [of "ch_peers ?c" i] by (fastforce simp: is_unchoked_def is_interested_def choker_ok_def split: option.splits)
  moreover have "unchoked_count ?c \<le> slots" using ok n by (simp add: choker_ok_def)
  ultimately show ?thesis
    unfolding Let_def X using chosen_facts(2) [OF ok, of "turn ?c"] best_chosen [OF ok] unfolding n by blast
qed

text \<open>
  C27: Nobody interested waits for ever. With at least two slots, whatever happened before,
  a peer that is interested is unchoked after some round among the next three times as many
  as there are interested peers, if in that time nobody connects, leaves or changes interest.
\<close>

theorem optimistic_serves_all:
  assumes "slots > 1" "is_interested i (fold choker_step ops (choker_new slots))"
  shows "let c = fold choker_step ops (choker_new slots)
    in \<exists>n. 0 < n \<and> n \<le> 3 * length (interested_ids c) \<and> is_unchoked i ((rechoke ^^ n) c)"
proof -
  let ?c = "fold choker_step ops (choker_new slots)"
  have ok: "choker_ok ?c" by (rule choker_machine.inv_run [OF choker_ok_new])
  have "ch_slots ?c = slots" using slots_run [of ops "choker_new slots"] by (simp add: choker_new_def)
  with ok assms(1) have st: "steady (interested_ids ?c) ?c" by (simp add: steady_def)
  have i: "i \<in> set (interested_ids ?c)" using assms(2) interested_ids_iff [OF ok] by simp
  obtain n where n: "0 < n" "n \<le> 3 * length (interested_ids ?c)" "ch_optimistic ((rechoke ^^ n) ?c) = Some i"
    using optimistic_reaches [OF st i] by blast
  then obtain m where m: "n = Suc m" by (cases n) auto
  have "is_unchoked i (rechoke ((rechoke ^^ m) ?c))"
    using turn_unchoked [OF steady_rounds [OF st, of m] _ i] n(3) m by simp
  then show ?thesis using n m by (auto simp: Let_def)
qed

section \<open>Witnesses\<close>

text \<open>Three peers with two slots: the one that gave most, and the optimistic one.\<close>

definition sample_ops :: "choker_op list" where
  "sample_ops = [OpRegister, OpRegister, OpRegister, OpInterested 0 True, OpInterested 1 True, OpInterested 2 True, OpDownload 2 5]"

lemma sample_peers:
  "ch_peers (fold choker_step sample_ops (choker_new 2)) =
     [(0, \<lparr>sl_interested = True, sl_unchoked = False, sl_uploaded = 0, sl_downloaded = 0\<rparr>),
      (1, \<lparr>sl_interested = True, sl_unchoked = False, sl_uploaded = 0, sl_downloaded = 0\<rparr>),
      (2, \<lparr>sl_interested = True, sl_unchoked = False, sl_uploaded = 0, sl_downloaded = 5\<rparr>)]"
  by (simp add: sample_ops_def choker_new_def register_def set_interested_def record_download_def al_modify_def Let_def)

lemma sample_interested: "interested_ids (fold choker_step sample_ops (choker_new 2)) = [0, 1, 2]"
  by (simp add: interested_ids_def sample_peers)

theorem choker_serves_best_witness:
  "card {i. is_unchoked i (rechoke (fold choker_step sample_ops (choker_new 2)))} = 2"
  using choker_serves_best [of sample_ops 2] by (simp add: Let_def sample_interested)

theorem optimistic_serves_all_witness:
  "\<exists>n. 0 < n \<and> n \<le> 9 \<and> is_unchoked 1 ((rechoke ^^ n) (fold choker_step sample_ops (choker_new 2)))"
proof -
  have "is_interested 1 (fold choker_step sample_ops (choker_new 2))" by (simp add: is_interested_def sample_peers)
  from optimistic_serves_all [OF _ this] show ?thesis by (simp add: Let_def sample_interested)
qed

end
