(* ===== verification/Peer_Pool.thy ===== *)
theory Peer_Pool
  imports Rust_Std
begin

text \<open>
  \<open>session/peer_pool.rs\<close>: the addresses a session knows, the queue of those to dial, and
  what is decided about a peer whose connection ended. Instants and durations are natural
  numbers of some unit. The session that drives the pool, dialing what it is given and
  reporting each connection once, is a machine around it.
\<close>

section \<open>The pool\<close>

datatype dial_outcome = Finished | Unreachable | Dropped | BadData | Local

datatype decision = NoRetry | RetryIn nat | GiveUp | Banned

record retry_policy =
  rp_after_drop :: "nat list"
  rp_after_unreachable :: "nat list"

definition with_base :: "nat \<Rightarrow> retry_policy" where
  "with_base base = \<lparr>rp_after_drop = [base, base * 3, base * 9], rp_after_unreachable = [base, base * 3]\<rparr>"

definition policy_none :: retry_policy where
  "policy_none = \<lparr>rp_after_drop = [], rp_after_unreachable = []\<rparr>"

text \<open>Fifteen seconds, in the unit of the model.\<close>

definition policy_default :: "nat \<Rightarrow> retry_policy" where
  "policy_default second = with_base (15 * second)"

record peer_record =
  pr_drops :: nat
  pr_unreachable :: nat
  pr_banned :: bool

definition record_default :: peer_record where
  "record_default = \<lparr>pr_drops = 0, pr_unreachable = 0, pr_banned = False\<rparr>"

record peer_pool =
  pp_known :: "socket_addr set"
  pp_reserve :: "socket_addr list"
  pp_retry :: "(socket_addr \<times> nat) list"
  pp_records :: "(socket_addr \<times> peer_record) list"
  pp_policy :: retry_policy
  pp_allow_ipv6 :: bool
  pp_skipped_ipv6 :: nat

definition with_policy :: "bool \<Rightarrow> retry_policy \<Rightarrow> peer_pool" where
  "with_policy allow_ipv6 policy =
     \<lparr>pp_known = {}, pp_reserve = [], pp_retry = [], pp_records = [], pp_policy = policy,
      pp_allow_ipv6 = allow_ipv6, pp_skipped_ipv6 = 0\<rparr>"

definition pool_new :: "nat \<Rightarrow> bool \<Rightarrow> peer_pool" where
  "pool_new second allow_ipv6 = with_policy allow_ipv6 (policy_default second)"

fun add :: "socket_addr list \<Rightarrow> peer_pool \<Rightarrow> nat \<times> peer_pool" where
  "add [] p = (0, p)"
| "add (addr # addrs) p =
     (if addr_port addr = 0 then add addrs p
      else if is_ipv6 addr \<and> \<not> pp_allow_ipv6 p then add addrs (p\<lparr>pp_skipped_ipv6 := pp_skipped_ipv6 p + 1\<rparr>)
      else if addr \<notin> pp_known p then
        (let (fresh, p') = add addrs (p\<lparr>pp_known := insert addr (pp_known p), pp_reserve := pp_reserve p @ [addr]\<rparr>)
         in (fresh + 1, p'))
      else add addrs p)"

definition next_to_dial :: "nat \<Rightarrow> peer_pool \<Rightarrow> socket_addr option \<times> peer_pool" where
  "next_to_dial now p =
     (case pp_reserve p of
        addr # rest \<Rightarrow> (Some addr, p\<lparr>pp_reserve := rest\<rparr>)
      | [] \<Rightarrow>
          (case iter_position (\<lambda>(_, at). at \<le> now) (pp_retry p) of
             None \<Rightarrow> (None, p)
           | Some due \<Rightarrow> (Some (fst (pp_retry p ! due)), p\<lparr>pp_retry := swap_remove due (pp_retry p)\<rparr>)))"

definition get_record :: "socket_addr \<Rightarrow> peer_pool \<Rightarrow> peer_record" where
  "get_record addr p = (case map_of (pp_records p) addr of None \<Rightarrow> record_default | Some r \<Rightarrow> r)"

definition put_record :: "socket_addr \<Rightarrow> peer_record \<Rightarrow> peer_pool \<Rightarrow> peer_pool" where
  "put_record addr r p = p\<lparr>pp_records := al_insert addr r (pp_records p)\<rparr>"

text \<open>The end of \<open>record_outcome\<close>: the delay for this many failures, if there is one.\<close>

definition schedule :: "socket_addr \<Rightarrow> peer_record \<Rightarrow> nat \<Rightarrow> nat list \<Rightarrow> nat \<Rightarrow> peer_pool \<Rightarrow> decision \<times> peer_pool" where
  "schedule addr record failures delays now p =
     (if failures - 1 < length delays \<and> \<not> pr_banned record
      then (RetryIn (delays ! (failures - 1)), p\<lparr>pp_retry := pp_retry p @ [(addr, now + delays ! (failures - 1))]\<rparr>)
      else (GiveUp, p))"

definition record_outcome :: "socket_addr \<Rightarrow> dial_outcome \<Rightarrow> nat \<Rightarrow> peer_pool \<Rightarrow> decision \<times> peer_pool" where
  "record_outcome addr outcome now p =
     (let record = get_record addr p
      in case outcome of
           Finished \<Rightarrow> (NoRetry, put_record addr record p)
         | Local \<Rightarrow> (NoRetry, put_record addr record p)
         | BadData \<Rightarrow>
             (Banned, (put_record addr (record\<lparr>pr_banned := True\<rparr>) p)
                \<lparr>pp_retry := filter (\<lambda>(a, _). a \<noteq> addr) (pp_retry p)\<rparr>)
         | Dropped \<Rightarrow>
             let record = record\<lparr>pr_drops := pr_drops record + 1\<rparr>
             in schedule addr record (pr_drops record) (rp_after_drop (pp_policy p)) now (put_record addr record p)
         | Unreachable \<Rightarrow>
             let record = record\<lparr>pr_unreachable := pr_unreachable record + 1\<rparr>
             in schedule addr record (pr_unreachable record) (rp_after_unreachable (pp_policy p)) now (put_record addr record p))"

definition reserve_is_empty :: "peer_pool \<Rightarrow> bool" where
  "reserve_is_empty p \<longleftrightarrow> pp_reserve p = [] \<and> pp_retry p = []"

definition banned_count :: "peer_pool \<Rightarrow> nat" where
  "banned_count p = length (filter (pr_banned \<circ> snd) (pp_records p))"

definition is_banned :: "socket_addr \<Rightarrow> peer_pool \<Rightarrow> bool" where
  "is_banned addr p = (case map_of (pp_records p) addr of None \<Rightarrow> False | Some r \<Rightarrow> pr_banned r)"

definition dialed :: "peer_pool \<Rightarrow> nat" where
  "dialed p = card (pp_known p) - length (pp_reserve p)"

definition known_addresses :: "peer_pool \<Rightarrow> socket_addr set" where
  "known_addresses p = {addr \<in> pp_known p. \<not> is_banned addr p}"

definition known_count :: "peer_pool \<Rightarrow> nat" where
  "known_count p = card (pp_known p)"

section \<open>The session around it\<close>

text \<open>
  What the session does with the pool: it feeds it addresses, dials what it is given, and
  reports the end of a connection that is open. The log has every address dialed.
\<close>

record dialing =
  di_pool :: peer_pool
  di_flying :: "socket_addr list"
  di_log :: "socket_addr list"

datatype pool_op = OpAdd "socket_addr list" | OpDial nat | OpOutcome socket_addr dial_outcome nat

fun pool_step :: "pool_op \<Rightarrow> dialing \<Rightarrow> dialing" where
  "pool_step (OpAdd addrs) d = d\<lparr>di_pool := snd (add addrs (di_pool d))\<rparr>"
| "pool_step (OpDial now) d =
     (case next_to_dial now (di_pool d) of
        (None, p) \<Rightarrow> d\<lparr>di_pool := p\<rparr>
      | (Some addr, p) \<Rightarrow> \<lparr>di_pool = p, di_flying = addr # di_flying d, di_log = addr # di_log d\<rparr>)"
| "pool_step (OpOutcome addr outcome now) d =
     (if addr \<in> set (di_flying d)
      then d\<lparr>di_flying := remove1 addr (di_flying d), di_pool := snd (record_outcome addr outcome now (di_pool d))\<rparr>
      else d)"

section \<open>The invariant\<close>

definition waiting :: "socket_addr \<Rightarrow> peer_pool \<Rightarrow> nat" where
  "waiting a p = count_list (pp_reserve p) a + count_list (map fst (pp_retry p)) a"

text \<open>How many retries the failures of a peer so far can have earned it.\<close>

definition earned :: "socket_addr \<Rightarrow> peer_pool \<Rightarrow> nat" where
  "earned a p = min (pr_drops (get_record a p)) (length (rp_after_drop (pp_policy p))) +
     min (pr_unreachable (get_record a p)) (length (rp_after_unreachable (pp_policy p)))"

definition addr_ok :: "dialing \<Rightarrow> socket_addr \<Rightarrow> bool" where
  "addr_ok d a \<longleftrightarrow>
     waiting a (di_pool d) + count_list (di_flying d) a \<le> 1 \<and>
     (a \<notin> pp_known (di_pool d) \<longrightarrow>
        waiting a (di_pool d) + count_list (di_flying d) a + count_list (di_log d) a = 0 \<and> \<not> is_banned a (di_pool d)) \<and>
     count_list (di_log d) a + waiting a (di_pool d) \<le> 1 + earned a (di_pool d) \<and>
     (is_banned a (di_pool d) \<longrightarrow> waiting a (di_pool d) + count_list (di_flying d) a = 0)"

definition pool_ok :: "dialing \<Rightarrow> bool" where
  "pool_ok d \<longleftrightarrow> finite (pp_known (di_pool d)) \<and> (\<forall>a. addr_ok d a)"

lemma is_banned_record: "is_banned a p = pr_banned (get_record a p)"
  by (simp add: is_banned_def get_record_def record_default_def split: option.split)

lemma get_put_record: "get_record a (put_record b r p) = (if a = b then r else get_record a p)"
  by (simp add: get_record_def put_record_def map_of_al_insert)

lemma get_record_cong [simp]:
  "get_record a (p\<lparr>pp_retry := r\<rparr>) = get_record a p" "get_record a (p\<lparr>pp_reserve := q\<rparr>) = get_record a p"
  "get_record a (p\<lparr>pp_known := k\<rparr>) = get_record a p" "get_record a (p\<lparr>pp_skipped_ipv6 := n\<rparr>) = get_record a p"
  by (simp_all add: get_record_def)

lemma put_record_simps [simp]:
  "pp_reserve (put_record b r p) = pp_reserve p" "pp_retry (put_record b r p) = pp_retry p"
  "pp_known (put_record b r p) = pp_known p" "pp_policy (put_record b r p) = pp_policy p"
  by (simp_all add: put_record_def)

lemma count_swap_remove:
  assumes "i < length xs"
  shows "count_list (map f xs) a = count_list (map f (swap_remove i xs)) a + (if f (xs ! i) = a then 1 else 0)"
proof -
  have "mset (map f xs) = add_mset (f (xs ! i)) (mset (map f (swap_remove i xs)))"
    using arg_cong [OF swap_remove_perm [OF assms], of "image_mset f"] by simp
  then show ?thesis by (simp flip: count_mset)
qed

lemma count_remove1: "count_list (remove1 b xs) a = count_list xs a - (if a = b then 1 else 0)"
  by (induction xs) auto

lemma add_ok: "finite (pp_known p) \<Longrightarrow> finite (pp_known (snd (add addrs p)))"
  by (induction addrs p rule: add.induct) (auto simp: Let_def split: prod.splits)

lemma add_effect:
  "pp_known p \<subseteq> pp_known (snd (add addrs p)) \<and> pp_retry (snd (add addrs p)) = pp_retry p \<and>
   pp_records (snd (add addrs p)) = pp_records p \<and> pp_policy (snd (add addrs p)) = pp_policy p \<and>
   count_list (pp_reserve (snd (add addrs p))) a =
     count_list (pp_reserve p) a + (if a \<in> pp_known (snd (add addrs p)) - pp_known p then 1 else 0)"
proof (induction addrs p rule: add.induct)
  case (2 addr addrs p)
  consider "addr_port addr = 0" | "addr_port addr \<noteq> 0" "is_ipv6 addr \<and> \<not> pp_allow_ipv6 p"
    | "addr_port addr \<noteq> 0" "\<not> (is_ipv6 addr \<and> \<not> pp_allow_ipv6 p)" "addr \<notin> pp_known p"
    | "addr_port addr \<noteq> 0" "\<not> (is_ipv6 addr \<and> \<not> pp_allow_ipv6 p)" "addr \<in> pp_known p" by blast
  then show ?case
  proof cases
    case 3
    let ?p = "p\<lparr>pp_known := insert addr (pp_known p), pp_reserve := pp_reserve p @ [addr]\<rparr>"
    have "snd (add (addr # addrs) p) = snd (add addrs ?p)" using 3 by (auto simp: Let_def split: prod.split)
    moreover note "2.IH"(3) [OF 3]
    ultimately show ?thesis using 3 by auto
  qed (use 2 in \<open>simp_all\<close>)
qed simp

lemma schedule_effect:
  "pp_known (snd (schedule b r n delays now p)) = pp_known p" "pp_policy (snd (schedule b r n delays now p)) = pp_policy p"
  "get_record a (snd (schedule b r n delays now p)) = get_record a p" "pp_reserve (snd (schedule b r n delays now p)) = pp_reserve p"
  "waiting a (snd (schedule b r n delays now p)) =
     waiting a p + (if a = b \<and> n - 1 < length delays \<and> \<not> pr_banned r then 1 else 0)"
  by (auto simp: schedule_def waiting_def)

text \<open>One report: what it does to the peer reported, and that it leaves the others alone.\<close>

lemma record_outcome_other:
  assumes "a \<noteq> b"
  shows "waiting a (snd (record_outcome b res now p)) = waiting a p"
    "get_record a (snd (record_outcome b res now p)) = get_record a p"
proof -
  have "count_list (map fst (filter (\<lambda>(a, _). a \<noteq> b) xs)) a = count_list (map fst xs) a" for xs :: "(socket_addr \<times> nat) list"
    using assms by (induction xs) auto
  then show "waiting a (snd (record_outcome b res now p)) = waiting a p"
    using assms by (cases res) (simp_all add: record_outcome_def Let_def schedule_effect, simp_all add: waiting_def)
  show "get_record a (snd (record_outcome b res now p)) = get_record a p"
    using assms by (cases res) (simp_all add: record_outcome_def Let_def schedule_effect get_put_record)
qed

lemma record_outcome_known:
  "pp_known (snd (record_outcome b res now p)) = pp_known p" "pp_policy (snd (record_outcome b res now p)) = pp_policy p"
  "pp_reserve (snd (record_outcome b res now p)) = pp_reserve p"
  by (cases res; simp add: record_outcome_def Let_def schedule_effect)+

lemma record_outcome_self:
  assumes w: "waiting b p = 0" and n: "\<not> is_banned b p" and p': "p' = snd (record_outcome b res now p)"
  shows "waiting b p' \<le> 1 \<and> earned b p + waiting b p' \<le> earned b p' \<and> (is_banned b p' \<longrightarrow> waiting b p' = 0)"
proof -
  have "count_list (map fst (filter (\<lambda>(a, _). a \<noteq> b) xs)) b = 0" for xs :: "(socket_addr \<times> nat) list"
    by (induction xs) auto
  with w have f: "waiting b (p\<lparr>pp_retry := filter (\<lambda>(a, _). a \<noteq> b) (pp_retry p)\<rparr>) = 0" by (simp add: waiting_def)
  have put: "waiting b (put_record b r p) = 0" for r using w by (simp add: waiting_def)
  show ?thesis
    using w n f unfolding p'
    by (cases res)
      (auto simp: record_outcome_def Let_def schedule_effect put earned_def get_put_record is_banned_record record_outcome_known,
       auto simp: waiting_def)
qed

lemma flying_ok:
  assumes "pool_ok d" "b \<in> set (di_flying d)"
  shows "waiting b (di_pool d) = 0" "count_list (di_flying d) b = 1" "\<not> is_banned b (di_pool d)" "b \<in> pp_known (di_pool d)"
proof -
  have "0 < count_list (di_flying d) b" using assms(2) by (simp add: count_list_0_iff flip: neq0_conv)
  moreover have "addr_ok d b" using assms(1) by (simp add: pool_ok_def)
  ultimately show "waiting b (di_pool d) = 0" "count_list (di_flying d) b = 1" "\<not> is_banned b (di_pool d)" "b \<in> pp_known (di_pool d)"
    by (auto simp: addr_ok_def)
qed

lemma next_to_dial_effect:
  assumes "next_to_dial now p = (r, p')"
  shows "pp_known p' = pp_known p" "get_record a p' = get_record a p" "pp_policy p' = pp_policy p"
    "waiting a p = waiting a p' + (if r = Some a then 1 else 0)"
    and "set (pp_reserve p) \<subseteq> set (pp_reserve p') \<union> set_option r"
  using assms iter_position_Some [of "\<lambda>(_, at). at \<le> now" "pp_retry p"] count_swap_remove [of _ "pp_retry p" fst a]
  by (auto simp: next_to_dial_def waiting_def get_record_def split: list.splits option.splits if_splits)

lemma pool_ok_step:
  assumes ok: "pool_ok d"
  shows "pool_ok (pool_step op d)"
proof (cases op)
  case (OpAdd addrs)
  have "addr_ok (pool_step op d) a" for a
  proof -
    have "addr_ok d a" using ok by (simp add: pool_ok_def)
    then show ?thesis using add_effect [of "di_pool d" addrs a]
      by (auto simp: addr_ok_def OpAdd waiting_def earned_def get_record_def is_banned_def split: if_splits)
  qed
  then show ?thesis using ok add_ok by (simp add: pool_ok_def OpAdd)
next
  case (OpDial now)
  obtain r p' where r: "next_to_dial now (di_pool d) = (r, p')" by (meson surj_pair)
  note e = next_to_dial_effect [OF r]
  have "addr_ok (pool_step op d) a" for a
  proof -
    have "addr_ok d a" using ok by (simp add: pool_ok_def)
    then show ?thesis using e(1,3) e(2,4) [of a]
      by (auto simp: addr_ok_def OpDial r earned_def is_banned_record split: option.split if_splits)
  qed
  then show ?thesis using ok e(1) by (simp add: pool_ok_def OpDial r split: option.split)
next
  case (OpOutcome b res now)
  show ?thesis
  proof (cases "b \<in> set (di_flying d)")
    case True
    note fly = flying_ok [OF ok True]
    have "addr_ok (pool_step op d) a" for a
    proof (cases "a = b")
      case self: True
      have "addr_ok d b" using ok by (simp add: pool_ok_def)
      then show ?thesis
        using record_outcome_self [OF fly(1,3) refl, of res now] fly True
        by (auto simp: addr_ok_def OpOutcome self count_remove1 record_outcome_known)
    next
      case other: False
      have "addr_ok d a" using ok by (simp add: pool_ok_def)
      then show ?thesis using True other record_outcome_other [OF other, of res now "di_pool d"]
        by (simp add: addr_ok_def OpOutcome count_remove1 record_outcome_known earned_def is_banned_record)
    qed
    then show ?thesis using ok True by (simp add: pool_ok_def OpOutcome record_outcome_known)
  qed (use ok OpOutcome in simp)
qed

interpretation pool_machine: machine pool_step pool_ok
  by unfold_locales (rule pool_ok_step)

definition pool_start :: "bool \<Rightarrow> retry_policy \<Rightarrow> dialing" where
  "pool_start allow_ipv6 policy = \<lparr>di_pool = with_policy allow_ipv6 policy, di_flying = [], di_log = []\<rparr>"

lemma pool_ok_start: "pool_ok (pool_start allow_ipv6 policy)"
  by (simp add: pool_ok_def addr_ok_def pool_start_def with_policy_def waiting_def is_banned_def)

section \<open>What a run dials\<close>

lemma policy_step: "pp_policy (di_pool (pool_step op d)) = pp_policy (di_pool d)"
proof (cases op)
  case (OpAdd addrs)
  then show ?thesis using add_effect [of "di_pool d" addrs] by simp
next
  case (OpDial now)
  then show ?thesis using next_to_dial_effect(3) [of now "di_pool d"] by (auto split: prod.split option.split)
qed (simp add: record_outcome_known)

lemma policy_run: "pp_policy (di_pool (fold pool_step ops d)) = pp_policy (di_pool d)"
  by (induction ops arbitrary: d) (simp_all add: policy_step)

definition max_dials :: "retry_policy \<Rightarrow> nat" where
  "max_dials policy = 1 + length (rp_after_drop policy) + length (rp_after_unreachable policy)"

lemma dials_le: "pool_ok d \<Longrightarrow> count_list (di_log d) a \<le> max_dials (pp_policy (di_pool d))"
proof -
  assume "pool_ok d"
  then have "addr_ok d a" by (simp add: pool_ok_def)
  then show ?thesis by (auto simp: addr_ok_def earned_def max_dials_def)
qed

lemma log_known: "pool_ok d \<Longrightarrow> set (di_log d) \<subseteq> pp_known (di_pool d)"
  by (auto simp: pool_ok_def addr_ok_def count_list_0_iff)

lemma log_length: "pool_ok d \<Longrightarrow> length (di_log d) \<le> card (pp_known (di_pool d)) * max_dials (pp_policy (di_pool d))"
proof -
  assume ok: "pool_ok d"
  have "length (di_log d) = (\<Sum>a\<in>set (di_log d). count_list (di_log d) a)" by (simp add: sum_count_set)
  also have "\<dots> \<le> card (set (di_log d)) * max_dials (pp_policy (di_pool d))"
    using dials_le [OF ok] by (intro sum_bounded_above [THEN order_trans]) auto
  also have "card (set (di_log d)) \<le> card (pp_known (di_pool d))"
    using ok log_known [OF ok] by (intro card_mono) (auto simp: pool_ok_def)
  finally show ?thesis by (simp add: mult_le_mono1)
qed

text \<open>Every known address has been dialed, or waits in the reserve for its first dial.\<close>

definition none_lost :: "dialing \<Rightarrow> bool" where
  "none_lost d \<longleftrightarrow> pp_known (di_pool d) \<subseteq> set (di_log d) \<union> set (pp_reserve (di_pool d))"

lemma none_lost_step: "none_lost d \<Longrightarrow> none_lost (pool_step op d)"
proof (cases op)
  case (OpAdd addrs)
  assume n: "none_lost d"
  have "a \<in> set (pp_reserve (snd (add addrs (di_pool d))))"
    if "a \<in> pp_known (snd (add addrs (di_pool d)))" "a \<notin> set (di_log d)" for a
    using that n add_effect [of "di_pool d" addrs a] count_list_0_iff [of "pp_reserve (snd (add addrs (di_pool d)))" a]
      count_list_0_iff [of "pp_reserve (di_pool d)" a] by (auto simp: none_lost_def split: if_splits)
  then show ?thesis by (auto simp: none_lost_def OpAdd)
next
  case (OpDial now)
  assume n: "none_lost d"
  obtain r p' where r: "next_to_dial now (di_pool d) = (r, p')" by (meson surj_pair)
  show ?thesis using n next_to_dial_effect(1,5) [OF r] by (cases r) (auto simp: none_lost_def OpDial r)
qed (auto simp: none_lost_def record_outcome_known)

lemma none_lost_run: "none_lost d \<Longrightarrow> none_lost (fold pool_step ops d)"
  by (induction ops arbitrary: d) (simp_all add: none_lost_step)

lemma banned_step:
  assumes ok: "pool_ok d" and b: "is_banned a (di_pool d)"
  shows "is_banned a (di_pool (pool_step op d))" "count_list (di_log (pool_step op d)) a = count_list (di_log d) a"
proof -
  have a: "waiting a (di_pool d) = 0" "a \<notin> set (di_flying d)"
    using ok b by (auto simp: pool_ok_def addr_ok_def count_list_0_iff)
  have "is_banned a (di_pool (pool_step op d)) \<and> count_list (di_log (pool_step op d)) a = count_list (di_log d) a"
  proof (cases op)
    case (OpAdd addrs)
    then show ?thesis using b add_effect [of "di_pool d" addrs a] by (simp add: is_banned_def)
  next
    case (OpDial now)
    obtain r p' where r: "next_to_dial now (di_pool d) = (r, p')" by (meson surj_pair)
    show ?thesis using a b next_to_dial_effect(2,4) [OF r, of a]
      by (auto simp: OpDial r is_banned_record split: option.split if_splits)
  next
    case (OpOutcome c res now)
    show ?thesis
    proof (cases "c \<in> set (di_flying d)")
      case True
      with a have "a \<noteq> c" by auto
      then show ?thesis using b OpOutcome record_outcome_other(2) by (simp add: is_banned_record)
    qed (use b OpOutcome in simp)
  qed
  then show "is_banned a (di_pool (pool_step op d))" "count_list (di_log (pool_step op d)) a = count_list (di_log d) a" by blast+
qed

lemma banned_run:
  "pool_ok d \<Longrightarrow> is_banned a (di_pool d) \<Longrightarrow>
   is_banned a (di_pool (fold pool_step ops d)) \<and> count_list (di_log (fold pool_step ops d)) a = count_list (di_log d) a"
  by (induction ops arbitrary: d) (simp_all add: banned_step pool_ok_step)

section \<open>Properties\<close>



section \<open>Witnesses\<close>

definition sample_addr :: "nat \<Rightarrow> socket_addr" where
  "sample_addr n = SocketAddr (IpV4 (of_nat n)) 6881"

definition sample_ops :: "pool_op list" where
  "sample_ops = [OpAdd [sample_addr 1, sample_addr 2, sample_addr 1], OpDial 0]"

lemma sample_run:
  "fold pool_step sample_ops (pool_start False policy_none) =
     \<lparr>di_pool = \<lparr>pp_known = {sample_addr 2, sample_addr 1}, pp_reserve = [sample_addr 2], pp_retry = [], pp_records = [],
        pp_policy = policy_none, pp_allow_ipv6 = False, pp_skipped_ipv6 = 0\<rparr>,
      di_flying = [sample_addr 1], di_log = [sample_addr 1]\<rparr>"
  by (simp add: sample_ops_def pool_start_def with_policy_def sample_addr_def is_ipv6_def next_to_dial_def Let_def)



end
