(* ===== verification/Utp_Packet.thy ===== *)
theory Utp_Packet
  imports Rust_Std
begin

text \<open>
  The uTP packet format (\<^verbatim>\<open>utp/packet.rs\<close>): a header of twenty bytes, a chain of
  extensions of which only the selective acknowledgement means anything, and the
  payload. Decoding an encoding gives the packet back, and what is accepted from the
  network is bounded by the datagram it came in.
\<close>

unbundle bit_operations_syntax

section \<open>Packets\<close>

definition HEADER_LEN :: nat where "HEADER_LEN = 20"
definition VERSION :: u8 where "VERSION = 1"
definition EXT_SELECTIVE_ACK :: u8 where "EXT_SELECTIVE_ACK = 1"
definition MAX_SACK_BYTES :: nat where "MAX_SACK_BYTES = 8"

datatype packet_type = Data | Fin | State | Reset | Syn

fun code :: "packet_type \<Rightarrow> u8" where
  "code Data = 0"
| "code Fin = 1"
| "code State = 2"
| "code Reset = 3"
| "code Syn = 4"

definition from_code :: "u8 \<Rightarrow> packet_type option" where
  "from_code c =
     (if c = 0 then Some Data else if c = 1 then Some Fin else if c = 2 then Some State
      else if c = 3 then Some Reset else if c = 4 then Some Syn else None)"

record packet =
  pk_kind :: packet_type
  pk_connection_id :: u16
  pk_timestamp :: u32
  pk_timestamp_diff :: u32
  pk_wnd_size :: u32
  pk_seq_nr :: u16
  pk_ack_nr :: u16
  pk_sack :: bytes
  pk_payload :: bytes

datatype packet_error = TooShort | NotUtp | BadExtension

section \<open>Writing and reading\<close>

definition packet_encode :: "packet \<Rightarrow> bytes" where
  "packet_encode p =
     (let sack = take (min (length (pk_sack p)) MAX_SACK_BYTES) (pk_sack p) in
      [push_bit 4 (code (pk_kind p)) OR VERSION]
      @ [if sack = [] then 0 else EXT_SELECTIVE_ACK]
      @ u16_be (pk_connection_id p) @ u32_be (pk_timestamp p) @ u32_be (pk_timestamp_diff p)
      @ u32_be (pk_wnd_size p) @ u16_be (pk_seq_nr p) @ u16_be (pk_ack_nr p)
      @ (if sack = [] then [] else [0, of_nat (length sack)] @ sack)
      @ pk_payload p)"

definition be16 :: "bytes \<Rightarrow> nat \<Rightarrow> u16" where
  "be16 datagram pos = of_nat (nat_be (take 2 (drop pos datagram)))"

definition be32 :: "bytes \<Rightarrow> nat \<Rightarrow> u32" where
  "be32 datagram pos = of_nat (nat_be (take 4 (drop pos datagram)))"

text \<open>The chain of extensions: what the selective acknowledgement says, and where the payload begins.\<close>

function extensions :: "bytes \<Rightarrow> u8 \<Rightarrow> nat \<Rightarrow> bytes \<Rightarrow> packet_error + bytes \<times> nat" where
  "extensions datagram nxt pos sack =
     (if nxt = 0 then Inr (sack, pos)
      else if length datagram \<le> pos + 1 then Inl BadExtension
      else
        let following = datagram ! pos; len = unat (datagram ! (pos + 1)) in
        if length datagram < pos + 2 + len then Inl BadExtension
        else
          let body = take len (drop (pos + 2) datagram);
              sack' = (if nxt = EXT_SELECTIVE_ACK \<and> sack = [] then take (min (length body) MAX_SACK_BYTES) body else sack)
          in extensions datagram following (pos + (2 + len)) sack')"
  by pat_completeness auto
termination by (relation "measure (\<lambda>(d, n, p, s). length d - p)") auto

declare extensions.simps [simp del]

definition packet_decode :: "bytes \<Rightarrow> packet_error + packet" where
  "packet_decode datagram =
     (if length datagram < HEADER_LEN then Inl TooShort
      else if datagram ! 0 AND 0x0F \<noteq> VERSION then Inl NotUtp
      else
        and_then (ok_or (from_code (drop_bit 4 (datagram ! 0))) NotUtp) (\<lambda>kind.
        and_then (extensions datagram (datagram ! 1) HEADER_LEN []) (\<lambda>(sack, pos).
          Inr \<lparr>pk_kind = kind, pk_connection_id = be16 datagram 2, pk_timestamp = be32 datagram 4,
               pk_timestamp_diff = be32 datagram 8, pk_wnd_size = be32 datagram 12,
               pk_seq_nr = be16 datagram 16, pk_ack_nr = be16 datagram 18,
               pk_sack = sack, pk_payload = drop pos datagram\<rparr>)))"

section \<open>What reading gives\<close>

lemma from_code_code [simp]: "from_code (code k) = Some k"
  by (cases k) (simp_all add: from_code_def)

lemma first_byte:
  "(push_bit 4 (code k) OR VERSION) AND 0x0F = VERSION"
  "drop_bit 4 (push_bit 4 (code k) OR VERSION) = code k"
  by (cases k; simp add: VERSION_def)+

lemma extensions_none [simp]: "extensions d 0 pos sack = Inr (sack, pos)"
  by (simp add: extensions.simps)

lemma extensions_bounds:
  "extensions d nxt pos sack = Inr (s, p) \<Longrightarrow> pos \<le> length d \<Longrightarrow> length sack \<le> MAX_SACK_BYTES \<Longrightarrow>
     length s \<le> MAX_SACK_BYTES \<and> pos \<le> p \<and> p \<le> length d"
proof (induction d nxt pos sack rule: extensions.induct)
  case (1 d nxt pos sack)
  show ?case
  proof (cases "nxt = 0")
    case True
    with 1 show ?thesis by simp
  next
    case False
    let ?len = "unat (d ! (pos + 1))"
    let ?body = "take ?len (drop (pos + 2) d)"
    let ?sack = "if nxt = EXT_SELECTIVE_ACK \<and> sack = [] then take (min (length ?body) MAX_SACK_BYTES) ?body else sack"
    from False 1(2) have fits: "\<not> length d \<le> pos + 1" "\<not> length d < pos + 2 + ?len"
      by (simp_all add: extensions.simps [of d nxt] Let_def split: if_splits)
    from 1(2) have rec: "extensions d (d ! pos) (pos + (2 + ?len)) ?sack = Inr (s, p)"
      by (subst (asm) extensions.simps) (simp only: fits False if_False Let_def)
    have "length ?sack \<le> MAX_SACK_BYTES" using 1(4) by simp
    then have "length s \<le> MAX_SACK_BYTES \<and> pos + (2 + ?len) \<le> p \<and> p \<le> length d"
      using 1(1) [OF False _ refl refl _ refl refl rec] fits by simp
    then show ?thesis by simp
  qed
qed

text \<open>The one extension this program writes is read back whole.\<close>

lemma extensions_written:
  assumes "length header = HEADER_LEN" "length sack \<le> MAX_SACK_BYTES" "sack \<noteq> []"
  shows "extensions (header @ [0, of_nat (length sack)] @ sack @ rest) EXT_SELECTIVE_ACK HEADER_LEN [] =
    Inr (sack, HEADER_LEN + 2 + length sack)"
proof -
  let ?d = "header @ [0, of_nat (length sack)] @ sack @ rest"
  have len: "unat (of_nat (length sack) :: u8) = length sack"
    using assms(2) by (simp add: unat_of_nat MAX_SACK_BYTES_def)
  have nth: "?d ! HEADER_LEN = 0" "?d ! (HEADER_LEN + 1) = of_nat (length sack)"
    and body: "take (length sack) (drop (HEADER_LEN + 2) ?d) = sack"
    and fits: "\<not> length ?d \<le> HEADER_LEN + 1" "\<not> length ?d < HEADER_LEN + 2 + length sack"
    using assms(1) by (simp_all add: nth_append)
  have "EXT_SELECTIVE_ACK \<noteq> 0" by (simp add: EXT_SELECTIVE_ACK_def)
  then show ?thesis
    using assms(2) by (subst extensions.simps) (simp only: nth body len fits Let_def if_False extensions_none simp_thms
        if_True min_absorb1 take_all order_refl, simp only: add.assoc)
qed

lemma header_fields:
  fixes cid sq ak :: u16 and ts td ws :: u32
  assumes h: "h = a # b # u16_be cid @ u32_be ts @ u32_be td @ u32_be ws @ u16_be sq @ u16_be ak"
  shows "length h = HEADER_LEN" "be16 (h @ rest) 2 = cid" "be32 (h @ rest) 4 = ts" "be32 (h @ rest) 8 = td"
    "be32 (h @ rest) 12 = ws" "be16 (h @ rest) 16 = sq" "be16 (h @ rest) 18 = ak"
  by (simp_all add: h HEADER_LEN_def be16_def be32_def byte_simps)

lemma drop_tail: "drop (length (xs @ ys) - length ys) (xs @ ys) = ys"
  by simp

text \<open>The encoding, as a header followed by what a reader finds behind it.\<close>

lemma decode_encode_packet:
  "packet_decode (packet_encode p) = Inr (p\<lparr>pk_sack := take MAX_SACK_BYTES (pk_sack p)\<rparr>)"
proof -
  let ?sack = "take MAX_SACK_BYTES (pk_sack p)"
  let ?h = "(push_bit 4 (code (pk_kind p)) OR VERSION) # (if ?sack = [] then 0 else EXT_SELECTIVE_ACK)
      # u16_be (pk_connection_id p) @ u32_be (pk_timestamp p) @ u32_be (pk_timestamp_diff p)
      @ u32_be (pk_wnd_size p) @ u16_be (pk_seq_nr p) @ u16_be (pk_ack_nr p)"
  let ?rest = "(if ?sack = [] then [] else [0, of_nat (length ?sack)] @ ?sack) @ pk_payload p"
  have sack: "take (min (length (pk_sack p)) MAX_SACK_BYTES) (pk_sack p) = ?sack"
    by (metis min.commute take_all take_take order_refl)
  have enc: "packet_encode p = ?h @ ?rest"
    by (simp only: packet_encode_def sack Let_def append_Cons append_Nil append_assoc)
  note fields = header_fields [OF refl]
  have len: "\<not> length (?h @ ?rest) < HEADER_LEN" using fields(1) by simp
  have ext: "extensions (?h @ ?rest) ((?h @ ?rest) ! 1) HEADER_LEN [] =
      Inr (?sack, length (?h @ ?rest) - length (pk_payload p))"
  proof (cases "?sack = []")
    case True
    then show ?thesis using fields(1) by simp
  next
    case False
    then have "extensions (?h @ [0, of_nat (length ?sack)] @ ?sack @ pk_payload p) EXT_SELECTIVE_ACK HEADER_LEN [] =
        Inr (?sack, HEADER_LEN + 2 + length ?sack)"
      using fields(1) by (intro extensions_written) simp_all
    then show ?thesis using False fields(1) by simp
  qed
  have drop: "drop (length (?h @ ?rest) - length (pk_payload p)) (?h @ ?rest) = pk_payload p"
    by (simp only: append_assoc [symmetric] drop_tail)
  have first: "(?h @ ?rest) ! 0 = push_bit 4 (code (pk_kind p)) OR VERSION" by simp
  show ?thesis
    unfolding packet_decode_def enc ext first
    using len by (simp only: first_byte from_code_code ok_or_simps and_then_simps fields drop prod.case if_False
        not_True_eq_False simp_thms) (cases p, simp)
qed

lemma packet_decode_bounds:
  assumes "packet_decode d = Inr p"
  shows "length (pk_sack p) \<le> MAX_SACK_BYTES" "HEADER_LEN + length (pk_payload p) \<le> length d"
    "\<exists>front. d = front @ pk_payload p"
proof -
  from assms obtain s pos where e: "extensions d (d ! 1) HEADER_LEN [] = Inr (s, pos)"
    and p: "pk_sack p = s" "pk_payload p = drop pos d" and len: "HEADER_LEN \<le> length d"
    by (auto simp: packet_decode_def res_iff not_less split: if_splits)
  from extensions_bounds [OF e len] show "length (pk_sack p) \<le> MAX_SACK_BYTES"
    "HEADER_LEN + length (pk_payload p) \<le> length d" "\<exists>front. d = front @ pk_payload p"
    by (auto simp: p intro: exI [of _ "take pos d"])
qed

lemma length_packet_encode:
  "length (packet_encode p) =
     HEADER_LEN + (if pk_sack p = [] then 0 else 2 + min (length (pk_sack p)) MAX_SACK_BYTES) + length (pk_payload p)"
  by (auto simp: packet_encode_def Let_def HEADER_LEN_def MAX_SACK_BYTES_def min_def)

interpretation utp_codec: codec packet_encode packet_decode "\<lambda>p. length (pk_sack p) \<le> MAX_SACK_BYTES"
  by unfold_locales (simp add: decode_encode_packet)

text \<open>
  C35: A packet written by the encoder is read back by the decoder with every field
  intact, except that of a selective acknowledgement only the first eight bytes are
  sent. Whatever datagram is accepted, the packet read has at most eight bytes of
  selective acknowledgement, its payload is the end of the datagram behind the
  header, and writing the packet again and reading that gives the same packet. No
  two packets within the bound have the same encoding.
\<close>

theorem utp_packet_roundtrip:
  "packet_decode (packet_encode p) = Inr (p\<lparr>pk_sack := take MAX_SACK_BYTES (pk_sack p)\<rparr>)
   \<and> (packet_decode d = Inr q \<longrightarrow>
        length (pk_sack q) \<le> MAX_SACK_BYTES
        \<and> (\<exists>front. HEADER_LEN \<le> length front \<and> d = front @ pk_payload q)
        \<and> packet_decode (packet_encode q) = Inr q)
   \<and> (length (pk_sack p) \<le> MAX_SACK_BYTES \<and> length (pk_sack q) \<le> MAX_SACK_BYTES
        \<and> packet_encode p = packet_encode q \<longrightarrow> p = q)"
  using decode_encode_packet [of p] packet_decode_bounds [of d q] utp_codec.decode_encode [of q] utp_codec.encode_inj [of p q]
  by fastforce

definition sample_packet :: packet where
  "sample_packet = \<lparr>pk_kind = State, pk_connection_id = 0x1234, pk_timestamp = 7, pk_timestamp_diff = 9,
     pk_wnd_size = 1000, pk_seq_nr = 3, pk_ack_nr = 65535, pk_sack = [1, 2, 3, 4], pk_payload = []\<rparr>"

theorem utp_packet_roundtrip_witness:
  "packet_decode (packet_encode sample_packet) = Inr sample_packet
   \<and> length (packet_encode sample_packet) = 26
   \<and> packet_decode (packet_encode (sample_packet\<lparr>pk_sack := replicate 9 1\<rparr>)) = Inr (sample_packet\<lparr>pk_sack := replicate 8 1\<rparr>)"
  using utp_packet_roundtrip [of sample_packet "packet_encode sample_packet" sample_packet]
    utp_packet_roundtrip [of "sample_packet\<lparr>pk_sack := replicate 9 1\<rparr>"]
  by (simp add: length_packet_encode sample_packet_def MAX_SACK_BYTES_def HEADER_LEN_def numeral_eq_Suc)

end
