(* ===== verification/Rust_F64.thy ===== *)
theory Rust_F64
  imports Complex_Main Rust_Std
begin

text \<open>
  The \<open>f64\<close> arithmetic of the congestion control: a finite double is the rational it
  stands for, and every operation is the exact one followed by rounding to the
  nearest double, ties to even. Only the exponent range is left out: no value the
  sources compute comes near its ends, and none is a NaN.
\<close>

section \<open>Rounding to 53 bits\<close>

type_synonym f64 = rat

fun ilog2 :: "nat \<Rightarrow> nat" where
  "ilog2 n = (if n \<le> 1 then 0 else Suc (ilog2 (n div 2)))"

declare ilog2.simps [simp del]

text \<open>The power of two at or below a positive rational.\<close>

definition exponent :: "rat \<Rightarrow> int" where
  "exponent a =
     (let (p, q) = quotient_of a; e = int (ilog2 (nat p)) - int (ilog2 (nat q))
      in if a < 2 powi e then e - 1 else e)"

definition round_half_even :: "rat \<Rightarrow> int" where
  "round_half_even x =
     (let f = \<lfloor>x\<rfloor>; d = x - of_int f in
      if d < 1 / 2 then f else if 1 / 2 < d then f + 1 else if even f then f else f + 1)"

definition f64_round :: "rat \<Rightarrow> f64" where
  "f64_round x =
     (if x = 0 then 0
      else let ulp = 2 powi (exponent \<bar>x\<bar> - 52) in of_int (round_half_even (x / ulp)) * ulp)"

definition f64_add :: "f64 \<Rightarrow> f64 \<Rightarrow> f64" where "f64_add x y = f64_round (x + y)"
definition f64_sub :: "f64 \<Rightarrow> f64 \<Rightarrow> f64" where "f64_sub x y = f64_round (x - y)"
definition f64_mul :: "f64 \<Rightarrow> f64 \<Rightarrow> f64" where "f64_mul x y = f64_round (x * y)"
definition f64_div :: "f64 \<Rightarrow> f64 \<Rightarrow> f64" where "f64_div x y = f64_round (x / y)"

text \<open>\<open>n as f64\<close>, and \<open>x as usize\<close> of a value that is not negative.\<close>

definition f64_of_nat :: "nat \<Rightarrow> f64" where "f64_of_nat n = f64_round (of_nat n)"
definition f64_to_nat :: "f64 \<Rightarrow> nat" where "f64_to_nat x = nat \<lfloor>x\<rfloor>"

definition f64_max_value :: f64 where "f64_max_value = of_nat ((2 ^ 53 - 1) * 2 ^ 971)"

definition clamp :: "'a::linorder \<Rightarrow> 'a \<Rightarrow> 'a \<Rightarrow> 'a" where
  "clamp x lo hi = (if x < lo then lo else if hi < x then hi else x)"

lemma clamp_bounds: "lo \<le> hi \<Longrightarrow> lo \<le> clamp x lo hi \<and> clamp x lo hi \<le> hi"
  by (auto simp: clamp_def)

section \<open>The rounding is to nearest\<close>

lemma ilog2_bounds: "0 < n \<Longrightarrow> 2 ^ ilog2 n \<le> n \<and> n < 2 * 2 ^ ilog2 n"
proof (induction n rule: ilog2.induct)
  case (1 n)
  show ?case
  proof (cases "n \<le> 1")
    case True
    with 1 show ?thesis by (simp add: ilog2.simps [of n])
  next
    case False
    with 1 have "2 ^ ilog2 (n div 2) \<le> n div 2 \<and> n div 2 < 2 * 2 ^ ilog2 (n div 2)" by simp
    with False show ?thesis by (simp add: ilog2.simps [of n]) linarith
  qed
qed

lemma exponent_bounds:
  assumes "0 < a"
  shows "2 powi exponent a \<le> a \<and> a < 2 powi (exponent a + 1)"
proof -
  obtain p q where pq: "quotient_of a = (p, q)" by (cases "quotient_of a")
  then have q: "0 < q" by (rule quotient_of_denom_pos)
  have a: "a = of_int p / of_int q" using pq by (rule quotient_of_div)
  with assms q have p: "0 < p" by (simp add: zero_less_divide_iff)
  let ?i = "ilog2 (nat p)" and ?j = "ilog2 (nat q)"
  let ?e = "int ?i - int ?j"
  have rat_nat: "of_int p = (of_nat (nat p) :: rat)" "of_int q = (of_nat (nat q) :: rat)"
    using p q by (simp_all add: of_nat_nat)
  have pb: "2 ^ ?i \<le> (of_int p :: rat)" "(of_int p :: rat) < 2 * 2 ^ ?i"
    using ilog2_bounds [of "nat p"] p unfolding rat_nat
    by (metis of_nat_le_iff of_nat_numeral of_nat_power zero_less_nat_eq)
      (metis (no_types, lifting) ilog2_bounds of_nat_less_iff of_nat_mult of_nat_numeral of_nat_power p zero_less_nat_eq)
  have qb: "2 ^ ?j \<le> (of_int q :: rat)" "(of_int q :: rat) < 2 * 2 ^ ?j"
    using ilog2_bounds [of "nat q"] q unfolding rat_nat
    by (metis of_nat_le_iff of_nat_numeral of_nat_power zero_less_nat_eq)
      (metis (no_types, lifting) ilog2_bounds of_nat_less_iff of_nat_mult of_nat_numeral of_nat_power q zero_less_nat_eq)
  have e: "2 powi ?e = (2 ^ ?i / 2 ^ ?j :: rat)"
    by (simp add: power_int_diff)
  have "2 ^ ?i / (2 * 2 ^ ?j) < a"
    using pb qb p q unfolding a by (intro frac_less2) auto
  moreover have "2 powi (?e - 1) = (2 ^ ?i / (2 * 2 ^ ?j) :: rat)"
    using power_int_diff [of "2 :: rat" ?e 1] by (simp add: e)
  ultimately have low: "2 powi (?e - 1) \<le> a" by simp
  have "a < 2 * 2 ^ ?i / 2 ^ ?j"
    using pb qb p q unfolding a by (intro frac_less) auto
  moreover have "2 powi (?e + 1) = (2 * 2 ^ ?i / 2 ^ ?j :: rat)"
    using power_int_add [of "2 :: rat" ?e 1] by (simp add: e)
  ultimately have high: "a < 2 powi (?e + 1)" by simp
  show ?thesis using low high by (auto simp: exponent_def pq Let_def not_less)
qed

lemma round_half_even_error: "\<bar>of_int (round_half_even x) - x\<bar> \<le> 1 / 2"
proof -
  have "of_int \<lfloor>x\<rfloor> \<le> x" "x < of_int \<lfloor>x\<rfloor> + 1" using floor_correct [of x] by simp_all
  then show ?thesis unfolding round_half_even_def Let_def by (simp split: if_split)
qed

lemma round_half_even_int [simp]: "round_half_even (of_int i) = i"
  by (simp add: round_half_even_def)

text \<open>The error of an operation is at most half a unit in the last of 53 binary places.\<close>

lemma f64_round_error: "\<bar>f64_round x - x\<bar> \<le> 2 powi (exponent \<bar>x\<bar> - 53)"
proof (cases "x = 0")
  case False
  let ?u = "2 powi (exponent \<bar>x\<bar> - 52) :: rat"
  have u: "0 < ?u" by simp
  have "f64_round x - x = (of_int (round_half_even (x / ?u)) - x / ?u) * ?u"
    using False by (simp add: f64_round_def Let_def left_diff_distrib)
  then have "\<bar>f64_round x - x\<bar> = \<bar>of_int (round_half_even (x / ?u)) - x / ?u\<bar> * ?u"
    using u by (simp add: abs_mult)
  also have "\<dots> \<le> 1 / 2 * ?u"
    using round_half_even_error [of "x / ?u"] u by (intro mult_right_mono) auto
  also have "\<dots> = 2 powi (exponent \<bar>x\<bar> - 53)"
    by (simp add: power_int_diff)
  finally show ?thesis .
qed (simp add: f64_round_def)

text \<open>Integers of up to 53 bits, such as lengths in bytes, are exact.\<close>

lemma f64_of_nat_exact: "n < 2 ^ 53 \<Longrightarrow> f64_of_nat n = of_nat n"
proof (cases "n = 0")
  case False
  assume n: "n < 2 ^ 53"
  let ?e = "exponent (of_nat n)"
  have b: "2 powi ?e \<le> (of_nat n :: rat)" "(of_nat n :: rat) < 2 powi (?e + 1)"
    using exponent_bounds [of "of_nat n"] False by auto
  have e: "?e \<le> 52"
  proof (rule ccontr)
    assume "\<not> ?e \<le> 52"
    then have "(2 :: rat) powi 53 \<le> 2 powi ?e" by (intro power_int_increasing) simp_all
    also have "\<dots> \<le> of_nat n" by (rule b)
    finally have "(of_nat (2 ^ 53) :: rat) \<le> of_nat n" by simp
    then show False using n by (simp only: of_nat_le_iff)
  qed
  let ?u = "2 powi (?e - 52) :: rat" and ?m = "int n * 2 ^ nat (52 - ?e)"
  have "?u * 2 ^ nat (52 - ?e) = 2 powi (?e - 52) * 2 powi (52 - ?e)"
    using e by (simp only: power_int_of_nat [symmetric]) simp
  also have "\<dots> = 1" by (simp flip: power_int_add)
  finally have "of_int ?m * ?u = of_nat n" by (simp add: mult.commute)
  moreover from this have "of_nat n / ?u = of_int ?m" by (simp add: field_simps)
  ultimately show ?thesis
    using False by (simp only: f64_of_nat_def f64_round_def Let_def abs_of_nat of_nat_eq_0_iff if_False round_half_even_int)
qed (simp add: f64_of_nat_def f64_round_def)

end
