(* ===== verification/Utp_Conn.thy ===== *)
theory Utp_Conn
  imports Utp_Packet Rust_F64
begin

text \<open>
  One uTP connection (\<^verbatim>\<open>utp/conn.rs\<close>): the handshake, sequence and acknowledgement
  numbers on the 16-bit circle, retransmission, the reorder buffer, the windows and
  LEDBAT congestion control. The connection does no I/O and reads no clock: packets
  and the time come in as arguments, datagrams go out through \<open>outgoing\<close>. Times are
  nanoseconds. Whatever would panic (a subtraction below zero, a counter of 32 bits
  that overflows) is the value \<open>Panic\<close>.
\<close>

unbundle bit_operations_syntax

section \<open>Constants\<close>

type_synonym instant = nat
type_synonym duration = nat

definition secs :: "nat \<Rightarrow> duration" where "secs n = n * 1000000000"
definition millis :: "nat \<Rightarrow> duration" where "millis n = n * 1000000"

definition MAX_PACKET :: nat where "MAX_PACKET = 1400"
definition MAX_PAYLOAD :: nat where "MAX_PAYLOAD = MAX_PACKET - HEADER_LEN"
definition SEND_BUFFER :: nat where "SEND_BUFFER = 256 * 1024"
definition RECEIVE_BUFFER :: nat where "RECEIVE_BUFFER = 512 * 1024"
definition REORDER_WINDOW :: u16 where "REORDER_WINDOW = 64"
definition INITIAL_RTO :: duration where "INITIAL_RTO = secs 1"
definition MIN_RTO :: duration where "MIN_RTO = millis 500"
definition MAX_RTO :: duration where "MAX_RTO = secs 60"
definition MAX_TIMEOUTS :: nat where "MAX_TIMEOUTS = 5"
definition MAX_SYN_ATTEMPTS :: nat where "MAX_SYN_ATTEMPTS = 3"
definition KEEPALIVE :: duration where "KEEPALIVE = secs 15"
definition DEAD_AFTER :: duration where "DEAD_AFTER = secs 90"
definition DUP_ACK_THRESHOLD :: nat where "DUP_ACK_THRESHOLD = 3"
definition TARGET_DELAY_US :: f64 where "TARGET_DELAY_US = 100000"
definition MAX_GROWTH_PER_RTT :: f64 where "MAX_GROWTH_PER_RTT = 3000"
definition MIN_WINDOW :: f64 where "MIN_WINDOW = f64_of_nat MAX_PACKET"
definition INITIAL_WINDOW :: f64 where "INITIAL_WINDOW = f64_mul 2 (f64_of_nat MAX_PACKET)"
definition BASE_DELAY_MINUTES :: nat where "BASE_DELAY_MINUTES = 2"

definition seq_le :: "u16 \<Rightarrow> u16 \<Rightarrow> bool" where
  "seq_le a b \<longleftrightarrow> b - a < 0x8000"

section \<open>The state\<close>

datatype conn_state = Connecting | Open | Ended

datatype error_kind = ConnectionAborted | ConnectionRefused | ConnectionReset | TimedOut

record sent =
  s_seq :: u16
  s_kind :: packet_type
  s_payload :: bytes
  s_sent_at :: instant
  s_transmissions :: nat
  s_sacked :: bool
  s_lost :: bool

definition in_network :: "sent \<Rightarrow> bool" where
  "in_network p \<longleftrightarrow> \<not> s_sacked p \<and> \<not> s_lost p"

record connection =
  c_epoch :: instant
  c_state :: conn_state
  c_error :: "error_kind option"
  c_send_id :: u16
  c_recv_id :: u16
  c_seq_nr :: u16
  c_outbox :: bytes
  c_in_flight :: "sent list"
  c_cur_window :: nat
  c_peer_window :: u32
  c_fin_pending :: bool
  c_fin_sent :: bool
  c_fin_acked :: bool
  c_last_data_sent :: "instant option"
  c_ack_nr :: u16
  c_inbox :: bytes
  c_reorder :: "(u16 \<times> bytes) list"
  c_reorder_bytes :: nat
  c_fin_seq :: "u16 option"
  c_peer_closed :: bool
  c_ack_pending :: bool
  c_reply_micro :: u32
  c_max_window :: f64
  c_ssthresh :: f64
  c_slow_start :: bool
  c_rtt :: "duration option"
  c_rtt_var :: duration
  c_rto :: duration
  c_rto_deadline :: "instant option"
  c_timeouts :: nat
  c_syn_attempts :: nat
  c_dup_acks :: nat
  c_last_ack_nr :: u16
  c_last_window_cut :: "instant option"
  c_delay_base :: "(nat \<times> u32) list"
  c_last_sent :: instant
  c_last_heard :: instant
  c_outgoing :: "bytes list"

definition new :: "instant \<Rightarrow> conn_state \<Rightarrow> u16 \<Rightarrow> u16 \<Rightarrow> u16 \<Rightarrow> connection" where
  "new now state send_id recv_id seq_nr =
     \<lparr>c_epoch = now, c_state = state, c_error = None, c_send_id = send_id, c_recv_id = recv_id,
      c_seq_nr = seq_nr, c_outbox = [], c_in_flight = [], c_cur_window = 0,
      c_peer_window = of_nat RECEIVE_BUFFER, c_fin_pending = False, c_fin_sent = False,
      c_fin_acked = False, c_last_data_sent = None, c_ack_nr = 0, c_inbox = [], c_reorder = [],
      c_reorder_bytes = 0, c_fin_seq = None, c_peer_closed = False, c_ack_pending = False,
      c_reply_micro = 0, c_max_window = INITIAL_WINDOW, c_ssthresh = f64_max_value,
      c_slow_start = True, c_rtt = None, c_rtt_var = 0, c_rto = INITIAL_RTO, c_rto_deadline = None,
      c_timeouts = 0, c_syn_attempts = 0, c_dup_acks = 0, c_last_ack_nr = 0,
      c_last_window_cut = None, c_delay_base = [], c_last_sent = now, c_last_heard = now,
      c_outgoing = []\<rparr>"

section \<open>Packets out\<close>

definition micros :: "connection \<Rightarrow> instant \<Rightarrow> u32" where
  "micros c now = of_nat ((now - c_epoch c) div 1000)"

definition receive_window :: "connection \<Rightarrow> u32" where
  "receive_window c = of_nat (RECEIVE_BUFFER - (length (c_inbox c) + c_reorder_bytes c))"

text \<open>One bit of the mask for every packet held out of order.\<close>

fun sack_bits :: "u16 \<Rightarrow> u16 list \<Rightarrow> bytes \<Rightarrow> bytes outcome" where
  "sack_bits ack_nr [] bits = Ret bits"
| "sack_bits ack_nr (sq # sqs) bits =
     on_ret (usize_sub (unat (sq - ack_nr)) 2) (\<lambda>b.
       sack_bits ack_nr sqs
         (if b div 8 < length bits then bits[b div 8 := bits ! (b div 8) OR push_bit (b mod 8) 1] else bits))"

definition selective_ack :: "connection \<Rightarrow> bytes outcome" where
  "selective_ack c =
     (case max_by_key (\<lambda>sq. sq - c_ack_nr c) (map fst (c_reorder c)) of
        None \<Rightarrow> Ret []
      | Some final \<Rightarrow>
          on_ret (usize_sub (unat (final - c_ack_nr c)) 1) (\<lambda>span.
            let size = max ((span + 31) div 32) 1 * 4 in
            sack_bits (c_ack_nr c) (map fst (c_reorder c)) (replicate (min size MAX_SACK_BYTES) 0)))"

definition header :: "connection \<Rightarrow> instant \<Rightarrow> packet_type \<Rightarrow> u16 \<Rightarrow> packet" where
  "header c now kind seq_nr =
     \<lparr>pk_kind = kind, pk_connection_id = (if kind = Syn then c_recv_id c else c_send_id c),
      pk_timestamp = micros c now, pk_timestamp_diff = c_reply_micro c, pk_wnd_size = receive_window c,
      pk_seq_nr = seq_nr, pk_ack_nr = c_ack_nr c, pk_sack = [], pk_payload = []\<rparr>"

definition queue :: "instant \<Rightarrow> packet_type \<Rightarrow> u16 \<Rightarrow> bytes \<Rightarrow> connection \<Rightarrow> connection outcome" where
  "queue now kind seq_nr payload c =
     (let packet = (header c now kind seq_nr)\<lparr>pk_payload := payload\<rparr> in
      on_ret (if kind = State then on_ret (selective_ack c) (\<lambda>m. Ret (packet\<lparr>pk_sack := m\<rparr>)) else Ret packet) (\<lambda>packet.
        Ret (c\<lparr>c_outgoing := c_outgoing c @ [packet_encode packet], c_last_sent := now,
               c_ack_pending := (if kind = Data \<or> kind = Fin \<or> kind = State then False else c_ack_pending c)\<rparr>)))"

definition fresh :: "u16 \<Rightarrow> packet_type \<Rightarrow> bytes \<Rightarrow> instant \<Rightarrow> sent" where
  "fresh sq kind payload now =
     \<lparr>s_seq = sq, s_kind = kind, s_payload = payload, s_sent_at = now, s_transmissions = 1,
      s_sacked = False, s_lost = False\<rparr>"

definition send_syn :: "instant \<Rightarrow> connection \<Rightarrow> connection outcome" where
  "send_syn now c =
     on_ret (queue now Syn (c_seq_nr c) []
               (c\<lparr>c_syn_attempts := 1, c_in_flight := c_in_flight c @ [fresh (c_seq_nr c) Syn [] now]\<rparr>)) (\<lambda>c.
       Ret (c\<lparr>c_seq_nr := c_seq_nr c + 1, c_rto_deadline := Some (now + c_rto c)\<rparr>))"

definition send_syn_again :: "instant \<Rightarrow> connection \<Rightarrow> connection outcome" where
  "send_syn_again now c =
     on_ret (u32_inc (c_syn_attempts c)) (\<lambda>n.
     on_ret (queue now Syn (c_seq_nr c - 1) [] (c\<lparr>c_syn_attempts := n\<rparr>)) (\<lambda>c.
       Ret (c\<lparr>c_rto_deadline := Some (now + c_rto c)\<rparr>)))"

definition send_state :: "instant \<Rightarrow> connection \<Rightarrow> connection outcome" where
  "send_state now c = queue now State (c_seq_nr c) [] c"

definition fail :: "error_kind \<Rightarrow> connection \<Rightarrow> connection" where
  "fail e c = c\<lparr>c_error := Some e, c_state := Ended, c_rto_deadline := None\<rparr>"

definition finish_if_done :: "connection \<Rightarrow> connection" where
  "finish_if_done c = (if c_fin_acked c \<and> c_peer_closed c \<and> c_state c = Open then c\<lparr>c_state := Ended\<rparr> else c)"

section \<open>Sending what the window allows\<close>

text \<open>
  The packets presumed lost that fit: the packets in flight afterwards, the bytes in
  the network, and what is to be sent again.
\<close>

fun resend_lost :: "instant \<Rightarrow> nat \<Rightarrow> sent list \<Rightarrow> nat \<Rightarrow> (sent list \<times> nat \<times> (packet_type \<times> u16 \<times> bytes) list) outcome" where
  "resend_lost now window [] cur = Ret ([], cur, [])"
| "resend_lost now window (p # ps) cur =
     (if \<not> s_lost p then on_ret (resend_lost now window ps cur) (\<lambda>(ps, cur, out). Ret (p # ps, cur, out))
      else if window < cur + length (s_payload p) \<and> 0 < cur then Ret (p # ps, cur, [])
      else
        on_ret (u32_inc (s_transmissions p)) (\<lambda>n.
        on_ret (resend_lost now window ps (cur + length (s_payload p))) (\<lambda>(ps, cur, out).
          Ret (p\<lparr>s_lost := False, s_transmissions := n, s_sent_at := now\<rparr> # ps, cur,
               (s_kind p, s_seq p, s_payload p) # out))))"

fun queue_all :: "instant \<Rightarrow> (packet_type \<times> u16 \<times> bytes) list \<Rightarrow> connection \<Rightarrow> connection outcome" where
  "queue_all now [] c = Ret c"
| "queue_all now ((kind, sq, payload) # out) c = on_ret (queue now kind sq payload c) (queue_all now out)"

definition probe :: "instant \<Rightarrow> connection \<Rightarrow> bool" where
  "probe now c \<longleftrightarrow> c_cur_window c = 0
     \<and> (case c_last_data_sent c of None \<Rightarrow> True | Some t \<Rightarrow> c_rto c \<le> now - t)"

text \<open>One packet of new data, taken from the front of the outbox.\<close>

definition send_one :: "instant \<Rightarrow> nat \<Rightarrow> connection \<Rightarrow> connection outcome" where
  "send_one now n c =
     (let payload = take n (c_outbox c); sq = c_seq_nr c in
      queue now Data sq payload
        (c\<lparr>c_outbox := drop n (c_outbox c), c_seq_nr := sq + 1, c_cur_window := c_cur_window c + n,
           c_in_flight := c_in_flight c @ [fresh sq Data payload now], c_last_data_sent := Some now\<rparr>))"

lemma queue_outbox [simp]: "queue now kind sq payload c = Ret c' \<Longrightarrow> c_outbox c' = c_outbox c"
  by (auto simp: queue_def Let_def res_iff)

function send_new :: "instant \<Rightarrow> nat \<Rightarrow> connection \<Rightarrow> connection outcome" where
  "send_new now window c =
     (if c_outbox c = [] then Ret c
      else
        let n = min (length (c_outbox c)) MAX_PAYLOAD in
        if window < c_cur_window c + n \<and> \<not> probe now c then Ret c
        else on_ret (send_one now n c) (send_new now window))"
  by pat_completeness auto
termination
  by (relation "measure (\<lambda>(now, window, c). length (c_outbox c))")
    (auto simp: send_one_def Let_def MAX_PAYLOAD_def MAX_PACKET_def HEADER_LEN_def)

declare send_new.simps [simp del]

definition send_fin :: "instant \<Rightarrow> connection \<Rightarrow> connection outcome" where
  "send_fin now c =
     (if c_fin_pending c \<and> \<not> c_fin_sent c \<and> c_outbox c = [] then
        let sq = c_seq_nr c in
        queue now Fin sq []
          (c\<lparr>c_seq_nr := sq + 1, c_fin_sent := True, c_in_flight := c_in_flight c @ [fresh sq Fin [] now]\<rparr>)
      else Ret c)"

definition send_pending :: "instant \<Rightarrow> connection \<Rightarrow> connection outcome" where
  "send_pending now c =
     (let window = min (f64_to_nat (c_max_window c)) (unat (c_peer_window c)) in
      on_ret (resend_lost now window (c_in_flight c) (c_cur_window c)) (\<lambda>(ps, cur, out).
      on_ret (queue_all now out (c\<lparr>c_in_flight := ps, c_cur_window := cur\<rparr>)) (\<lambda>c.
      on_ret (send_new now window c) (\<lambda>c.
      on_ret (send_fin now c) (\<lambda>c.
        Ret (if c_rto_deadline c = None \<and> c_in_flight c \<noteq> [] then c\<lparr>c_rto_deadline := Some (now + c_rto c)\<rparr> else c))))))"

definition flush :: "instant \<Rightarrow> connection \<Rightarrow> connection outcome" where
  "flush now c =
     on_ret (if c_state c = Open then send_pending now c else Ret c) (\<lambda>c.
     on_ret (if c_ack_pending c \<and> c_state c \<noteq> Ended then send_state now c else Ret c) (\<lambda>c.
       Ret (finish_if_done c)))"

section \<open>Packets in\<close>

text \<open>What was waiting for the packet just received moves to the inbox.\<close>

function drain_reorder :: "connection \<Rightarrow> connection outcome" where
  "drain_reorder c =
     (case map_of (c_reorder c) (c_ack_nr c + 1) of
        None \<Rightarrow> Ret c
      | Some payload \<Rightarrow>
          on_ret (usize_sub (c_reorder_bytes c) (length payload)) (\<lambda>n.
            drain_reorder
              (c\<lparr>c_reorder := al_remove (c_ack_nr c + 1) (c_reorder c), c_reorder_bytes := n,
                 c_inbox := c_inbox c @ payload, c_ack_nr := c_ack_nr c + 1\<rparr>)))"
  by pat_completeness auto
termination
proof (relation "measure (\<lambda>c. length (c_reorder c))")
  fix c :: connection and payload n
  assume "map_of (c_reorder c) (c_ack_nr c + 1) = Some payload"
  then have "(c_ack_nr c + 1, payload) \<in> set (c_reorder c)" by (rule map_of_SomeD)
  then show "(c\<lparr>c_reorder := al_remove (c_ack_nr c + 1) (c_reorder c), c_reorder_bytes := n,
      c_inbox := c_inbox c @ payload, c_ack_nr := c_ack_nr c + 1\<rparr>, c) \<in> measure (\<lambda>c. length (c_reorder c))"
    by (auto simp: al_remove_def intro: length_filter_less)
qed simp

declare drain_reorder.simps [simp del]

definition receive :: "packet \<Rightarrow> connection \<Rightarrow> connection outcome" where
  "receive packet c =
     (let ahead = pk_seq_nr packet - c_ack_nr c; c = c\<lparr>c_ack_pending := True\<rparr> in
      if ahead = 0 \<or> REORDER_WINDOW < ahead then Ret c
      else if unat (receive_window c) < length (pk_payload packet) then Ret c
      else
        let c = (if pk_kind packet = Fin then c\<lparr>c_fin_seq := Some (pk_seq_nr packet)\<rparr> else c) in
        on_ret
          (if ahead = 1 then
             drain_reorder (c\<lparr>c_inbox := c_inbox c @ pk_payload packet, c_ack_nr := pk_seq_nr packet\<rparr>)
           else if map_of (c_reorder c) (pk_seq_nr packet) = None then
             Ret (c\<lparr>c_reorder_bytes := c_reorder_bytes c + length (pk_payload packet),
                    c_reorder := bt_insert (pk_seq_nr packet) (pk_payload packet) (c_reorder c)\<rparr>)
           else Ret c) (\<lambda>c.
        Ret (if c_fin_seq c = Some (c_ack_nr c) then c\<lparr>c_peer_closed := True\<rparr> else c)))"

section \<open>Congestion control\<close>

definition update_rtt :: "duration \<Rightarrow> connection \<Rightarrow> connection" where
  "update_rtt sample c =
     (let c = (case c_rtt c of
                 None \<Rightarrow> c\<lparr>c_rtt := Some sample, c_rtt_var := sample div 2\<rparr>
               | Some rtt \<Rightarrow>
                   let error = (max rtt sample) - (min rtt sample) in
                   c\<lparr>c_rtt_var := c_rtt_var c * 3 div 4 + error div 4, c_rtt := Some (rtt * 7 div 8 + sample div 8)\<rparr>);
          rtt = (case c_rtt c of None \<Rightarrow> sample | Some rtt \<Rightarrow> rtt)
      in c\<lparr>c_rto := clamp (rtt + c_rtt_var c * 4) MIN_RTO MAX_RTO\<rparr>)"

definition note_delay :: "nat \<Rightarrow> u32 \<Rightarrow> (nat \<times> u32) list \<Rightarrow> (nat \<times> u32) list" where
  "note_delay minute delay base =
     (if base \<noteq> [] \<and> fst (last base) = minute then
        (if sint (delay - snd (last base)) < 0 then butlast base @ [(minute, delay)] else base)
      else
        let base = base @ [(minute, delay)]; keep = BASE_DELAY_MINUTES + 1 in
        if keep < length base then tl base else base)"

definition least_delay :: "u32 \<Rightarrow> (nat \<times> u32) list \<Rightarrow> u32" where
  "least_delay delay base =
     (case map snd base of [] \<Rightarrow> delay
      | d # ds \<Rightarrow> foldl (\<lambda>a b. if sint (a - b) \<le> 0 then a else b) d ds)"

definition update_window :: "instant \<Rightarrow> nat \<Rightarrow> u32 \<Rightarrow> connection \<Rightarrow> connection" where
  "update_window now acked_bytes delay c =
     (let minute = (now - c_epoch c) div 1000000000 div 60;
          c = c\<lparr>c_delay_base := note_delay minute delay (c_delay_base c)\<rparr>;
          base = least_delay delay (c_delay_base c);
          queuing = max (of_int (sint (delay - base))) (0 :: f64);
          acked = f64_of_nat acked_bytes;
          c = (if c_slow_start c then
                 (if f64_mul TARGET_DELAY_US (f64_round (9 / 10)) < queuing \<or> c_ssthresh c \<le> c_max_window c
                  then c\<lparr>c_slow_start := False\<rparr>
                  else c\<lparr>c_max_window := f64_add (c_max_window c) acked\<rparr>)
               else
                 let delay_factor = f64_div (f64_sub TARGET_DELAY_US queuing) TARGET_DELAY_US;
                     window_factor = min (f64_div acked (c_max_window c)) 1
                 in c\<lparr>c_max_window := f64_add (c_max_window c)
                        (f64_mul (f64_mul MAX_GROWTH_PER_RTT delay_factor) window_factor)\<rparr>);
          in_use = f64_of_nat (c_cur_window c + acked_bytes)
      in c\<lparr>c_max_window :=
             clamp (min (c_max_window c) (f64_add (f64_mul 2 in_use) (f64_mul 4 (f64_of_nat MAX_PACKET))))
               MIN_WINDOW (f64_mul (f64_mul 16 1024) 1024)\<rparr>)"

definition cut_window :: "instant \<Rightarrow> connection \<Rightarrow> connection" where
  "cut_window now c =
     (let round_trip = (case c_rtt c of None \<Rightarrow> INITIAL_RTO | Some rtt \<Rightarrow> rtt) in
      if (case c_last_window_cut c of None \<Rightarrow> False | Some t \<Rightarrow> now - t < round_trip) then c
      else
        let w = max (f64_div (c_max_window c) 2) MIN_WINDOW in
        c\<lparr>c_last_window_cut := Some now, c_slow_start := False, c_max_window := w, c_ssthresh := w\<rparr>)"

section \<open>Acknowledgements\<close>

text \<open>
  The packets the peer has in order leave the front of the queue; with them go the
  bytes acknowledged so far and the latest round-trip sample.
\<close>

fun pop_acked :: "instant \<Rightarrow> u16 \<Rightarrow> sent list \<Rightarrow> connection \<Rightarrow> nat \<Rightarrow> duration option \<Rightarrow>
    (connection \<times> nat \<times> duration option) outcome" where
  "pop_acked now ack [] c acked sample = Ret (c\<lparr>c_in_flight := []\<rparr>, acked, sample)"
| "pop_acked now ack (front # rest) c acked sample =
     (if \<not> seq_le (s_seq front) ack then Ret (c\<lparr>c_in_flight := front # rest\<rparr>, acked, sample)
      else
        on_ret (if in_network front then usize_sub (c_cur_window c) (length (s_payload front)) else Ret (c_cur_window c)) (\<lambda>cur.
          pop_acked now ack rest
            (c\<lparr>c_cur_window := cur, c_fin_acked := (if s_kind front = Fin then True else c_fin_acked c)\<rparr>)
            (if \<not> s_sacked front then acked + length (s_payload front) else acked)
            (if s_transmissions front = 1 \<and> \<not> s_sacked front then Some (now - s_sent_at front) else sample)))"

text \<open>The sequence numbers a selective acknowledgement names.\<close>

definition sack_seqs :: "u16 \<Rightarrow> bytes \<Rightarrow> u16 list" where
  "sack_seqs ack sack =
     concat (map (\<lambda>(i, byte).
       map (\<lambda>b. ack + 2 + of_nat (i * 8 + b)) (filter (\<lambda>b. byte AND push_bit b 1 \<noteq> 0) [0..<8]))
       (enumerate 0 sack))"

definition sack_one :: "instant \<Rightarrow> u16 \<Rightarrow> connection \<times> nat \<times> duration option \<Rightarrow> (connection \<times> nat \<times> duration option) outcome" where
  "sack_one now sq st =
     (case st of (c, acked, sample) \<Rightarrow>
        case iter_position (\<lambda>p. s_seq p = sq) (c_in_flight c) of
          None \<Rightarrow> Ret st
        | Some i \<Rightarrow>
            let p = c_in_flight c ! i in
            if s_sacked p then Ret st
            else
              on_ret (if in_network p then usize_sub (c_cur_window c) (length (s_payload p)) else Ret (c_cur_window c)) (\<lambda>cur.
                Ret (c\<lparr>c_cur_window := cur, c_in_flight := (c_in_flight c)[i := p\<lparr>s_sacked := True, s_lost := False\<rparr>]\<rparr>,
                     acked + length (s_payload p),
                     if s_transmissions p = 1 then Some (now - s_sent_at p) else sample)))"

fun sack_all :: "instant \<Rightarrow> u16 list \<Rightarrow> connection \<times> nat \<times> duration option \<Rightarrow> (connection \<times> nat \<times> duration option) outcome" where
  "sack_all now [] st = Ret st"
| "sack_all now (sq # sqs) st = on_ret (sack_one now sq st) (sack_all now sqs)"

definition lose_front :: "instant \<Rightarrow> connection \<Rightarrow> connection outcome" where
  "lose_front now c =
     (case iter_position (\<lambda>p. \<not> s_sacked p) (c_in_flight c) of
        None \<Rightarrow> Ret c
      | Some i \<Rightarrow>
          let front = c_in_flight c ! i in
          if s_transmissions front = 1 \<and> \<not> s_lost front then
            on_ret (usize_sub (c_cur_window c) (length (s_payload front))) (\<lambda>cur.
              Ret (cut_window now (c\<lparr>c_in_flight := (c_in_flight c)[i := front\<lparr>s_lost := True\<rparr>], c_cur_window := cur\<rparr>)))
          else Ret c)"

text \<open>Duplicate acknowledgements are counted, and anything acknowledged moves the window.\<close>

definition count_ack :: "instant \<Rightarrow> packet \<Rightarrow> nat \<Rightarrow> connection \<Rightarrow> connection outcome" where
  "count_ack now packet acked c =
     (if 0 < acked then
        Ret (update_window now acked (pk_timestamp_diff packet) (c\<lparr>c_timeouts := 0, c_dup_acks := 0\<rparr>))
      else if pk_kind packet = State \<and> pk_ack_nr packet = c_last_ack_nr c \<and> c_in_flight c \<noteq> [] then
        on_ret (u32_inc (c_dup_acks c)) (\<lambda>n. Ret (c\<lparr>c_dup_acks := n\<rparr>))
      else Ret c)"

definition process_ack :: "instant \<Rightarrow> packet \<Rightarrow> connection \<Rightarrow> connection outcome" where
  "process_ack now packet c =
     (let ack = pk_ack_nr packet in
      if c_in_flight c \<noteq> [] \<and> \<not> seq_le ack (c_seq_nr c - 1) then Ret c
      else
        on_ret (pop_acked now ack (c_in_flight c) c 0 None) (\<lambda>st.
        on_ret (sack_all now (sack_seqs ack (pk_sack packet)) st) (\<lambda>(c, acked, sample).
          let sacked_after_front = length (filter s_sacked (c_in_flight c));
              c = (case sample of None \<Rightarrow> c | Some d \<Rightarrow> update_rtt d c)
          in on_ret (count_ack now packet acked c) (\<lambda>c.
             let c = (if seq_le (c_last_ack_nr c) ack then c\<lparr>c_last_ack_nr := ack\<rparr> else c);
                 lost_front = (c_dup_acks c = DUP_ACK_THRESHOLD \<or> DUP_ACK_THRESHOLD \<le> sacked_after_front)
             in on_ret (if lost_front then lose_front now c else Ret c) (\<lambda>c.
                Ret (c\<lparr>c_rto_deadline := (if c_in_flight c = [] then None else Some (now + c_rto c))\<rparr>))))))"

section \<open>Timers\<close>

fun lose_all :: "sent list \<Rightarrow> nat \<Rightarrow> (sent list \<times> nat) outcome" where
  "lose_all [] cur = Ret ([], cur)"
| "lose_all (p # ps) cur =
     (if \<not> s_sacked p \<and> \<not> s_lost p then
        on_ret (usize_sub cur (length (s_payload p))) (\<lambda>cur.
        on_ret (lose_all ps cur) (\<lambda>(ps, cur). Ret (p\<lparr>s_lost := True\<rparr> # ps, cur)))
      else on_ret (lose_all ps cur) (\<lambda>(ps, cur). Ret (p # ps, cur)))"

definition on_timeout :: "instant \<Rightarrow> connection \<Rightarrow> connection outcome" where
  "on_timeout now c =
     (if c_state c = Connecting then
        if MAX_SYN_ATTEMPTS \<le> c_syn_attempts c then Ret (fail TimedOut c)
        else
          let c = c\<lparr>c_rto := min (c_rto c * 2) MAX_RTO\<rparr> in
          on_ret (case c_in_flight c of [] \<Rightarrow> Ret c
                  | syn # rest \<Rightarrow> on_ret (u32_inc (s_transmissions syn)) (\<lambda>n.
                      Ret (c\<lparr>c_in_flight := syn\<lparr>s_transmissions := n, s_sent_at := now\<rparr> # rest\<rparr>)))
            (send_syn_again now)
      else
        on_ret (u32_inc (c_timeouts c)) (\<lambda>n.
          if MAX_TIMEOUTS < n then Ret (fail TimedOut (c\<lparr>c_timeouts := n\<rparr>))
          else
            on_ret (lose_all (c_in_flight c) (c_cur_window c)) (\<lambda>(ps, cur).
              let rto = min (c_rto c * 2) MAX_RTO in
              Ret (c\<lparr>c_timeouts := n, c_in_flight := ps, c_cur_window := cur,
                     c_ssthresh := max (f64_div (c_max_window c) 2) (f64_mul 2 MIN_WINDOW),
                     c_max_window := MIN_WINDOW, c_slow_start := True, c_rto := rto,
                     c_rto_deadline := Some (now + rto)\<rparr>))))"

section \<open>What the owner asks of it\<close>

definition connect_from :: "instant \<Rightarrow> u16 \<Rightarrow> u16 \<Rightarrow> connection outcome" where
  "connect_from now recv_id initial_seq =
     send_syn now (new now Connecting (recv_id + 1) recv_id initial_seq)"

definition connect :: "instant \<Rightarrow> u16 \<Rightarrow> connection outcome" where
  "connect now recv_id = connect_from now recv_id 1"

definition accept :: "instant \<Rightarrow> packet \<Rightarrow> u16 \<Rightarrow> connection outcome" where
  "accept now syn initial_seq =
     (let c = new now Open (pk_connection_id syn) (pk_connection_id syn + 1) initial_seq in
      send_state now
        (c\<lparr>c_ack_nr := pk_seq_nr syn, c_peer_window := pk_wnd_size syn,
           c_reply_micro := micros c now - pk_timestamp syn\<rparr>))"

definition take_outgoing :: "connection \<Rightarrow> bytes list \<times> connection" where
  "take_outgoing c = (c_outgoing c, c\<lparr>c_outgoing := []\<rparr>)"

definition unacked :: "connection \<Rightarrow> nat" where
  "unacked c = length (c_outbox c) + sum_list (map (\<lambda>p. length (s_payload p)) (c_in_flight c))"

definition conn_write :: "bytes \<Rightarrow> connection \<Rightarrow> nat \<times> connection" where
  "conn_write data c =
     (if c_state c = Ended \<or> c_fin_pending c then (0, c)
      else
        let n = min (length data) (SEND_BUFFER - unacked c) in
        (n, c\<lparr>c_outbox := c_outbox c @ take n data\<rparr>))"

definition writable :: "connection \<Rightarrow> nat" where
  "writable c = (if c_state c = Ended \<or> c_fin_pending c then 0 else SEND_BUFFER - unacked c)"

definition conn_read :: "nat \<Rightarrow> connection \<Rightarrow> bytes \<times> connection" where
  "conn_read len c =
     (let before = receive_window c;
          n = min len (length (c_inbox c));
          out = take n (c_inbox c);
          c = c\<lparr>c_inbox := drop n (c_inbox c)\<rparr>
      in (out,
          if 0 < n \<and> before < of_nat MAX_PACKET \<and> of_nat MAX_PACKET \<le> receive_window c
          then c\<lparr>c_ack_pending := True\<rparr> else c))"

definition readable :: "connection \<Rightarrow> nat" where
  "readable c = length (c_inbox c)"

definition is_eof :: "connection \<Rightarrow> bool" where
  "is_eof c \<longleftrightarrow> c_peer_closed c \<and> c_inbox c = []"

definition is_finished :: "connection \<Rightarrow> bool" where
  "is_finished c \<longleftrightarrow> c_state c = Ended"

definition is_flushed :: "connection \<Rightarrow> bool" where
  "is_flushed c \<longleftrightarrow> c_outbox c = [] \<and> list_all (\<lambda>p. s_kind p \<noteq> Data) (c_in_flight c)"

definition close :: "connection \<Rightarrow> connection" where
  "close c = c\<lparr>c_fin_pending := True\<rparr>"

definition abort :: "instant \<Rightarrow> connection \<Rightarrow> connection outcome" where
  "abort now c =
     on_ret (if c_state c \<noteq> Ended then queue now Reset (c_seq_nr c) [] c else Ret c) (\<lambda>c.
       Ret (fail ConnectionAborted c))"

definition next_timeout :: "connection \<Rightarrow> instant option" where
  "next_timeout c =
     (if c_state c = Ended then None
      else
        let keepalive = c_last_sent c + KEEPALIVE; dead = c_last_heard c + DEAD_AFTER in
        Some (case c_rto_deadline c of None \<Rightarrow> min keepalive dead | Some t \<Rightarrow> min t (min keepalive dead)))"

section \<open>The clock and the network\<close>

definition on_tick :: "instant \<Rightarrow> connection \<Rightarrow> connection outcome" where
  "on_tick now c =
     (if c_state c = Ended then Ret c
      else if DEAD_AFTER \<le> now - c_last_heard c then Ret (fail TimedOut c)
      else
        on_ret (case c_rto_deadline c of None \<Rightarrow> Ret c
                | Some deadline \<Rightarrow> if deadline \<le> now then on_timeout now c else Ret c) (\<lambda>c.
        on_ret (if c_state c = Open \<and> KEEPALIVE \<le> now - c_last_sent c then send_state now c else Ret c)
          (flush now)))"

definition on_packet :: "instant \<Rightarrow> packet \<Rightarrow> connection \<Rightarrow> connection outcome" where
  "on_packet now packet c =
     (if c_state c = Ended then
        if c_error c = None \<and> (pk_kind packet = Fin \<or> pk_kind packet = Data) then send_state now c else Ret c
      else
        let c = c\<lparr>c_last_heard := now, c_reply_micro := micros c now - pk_timestamp packet\<rparr> in
        if pk_kind packet = Reset then
          Ret (fail (if c_state c = Connecting then ConnectionRefused else ConnectionReset)
                 (c\<lparr>c_in_flight := [], c_cur_window := 0\<rparr>))
        else if c_state c = Connecting then
          on_ret
            (if pk_kind packet = State then
               process_ack now packet
                 (c\<lparr>c_state := Open, c_ack_nr := pk_seq_nr packet - 1, c_peer_window := pk_wnd_size packet\<rparr>)
             else Ret c)
            (flush now)
        else
          on_ret (process_ack now packet (c\<lparr>c_peer_window := pk_wnd_size packet\<rparr>)) (\<lambda>c.
          on_ret
            (case pk_kind packet of
               Data \<Rightarrow> receive packet c
             | Fin \<Rightarrow> receive packet c
             | Syn \<Rightarrow> Ret (c\<lparr>c_ack_pending := True\<rparr>)
             | State \<Rightarrow> Ret c
             | Reset \<Rightarrow> Ret c)
            (flush now)))"

end
