(* ===== verification/Utp_Safe.thy ===== *)
theory Utp_Safe
  imports Utp_Conn "HOL-Library.Sublist"
begin

text \<open>
  What a uTP connection keeps to, whatever packets, times and calls it is given: the
  bytes it counts as in the network are those of the packets it has in flight, the
  reorder buffer holds only packets within the window ahead, the buffers and the
  windows stay within their bounds, every datagram fits a packet, and nothing panics.
  The packets it has numbered form a log, and every datagram is one of them.
\<close>

section \<open>Receiving\<close>

definition held_bytes :: "(u16 \<times> bytes) list \<Rightarrow> nat" where
  "held_bytes m = sum_list (map (\<lambda>e. length (snd e)) m)"

definition ahead_ok :: "nat \<Rightarrow> u16 \<Rightarrow> (u16 \<times> bytes) list \<Rightarrow> bool" where
  "ahead_ok low ack m \<longleftrightarrow> (\<forall>e\<in>set m. low \<le> unat (fst e - ack) \<and> unat (fst e - ack) \<le> 64)"

definition rcv_ok :: "connection \<Rightarrow> bool" where
  "rcv_ok c \<longleftrightarrow> sorted_wrt (<) (map fst (c_reorder c)) \<and> c_reorder_bytes c = held_bytes (c_reorder c)
     \<and> ahead_ok 2 (c_ack_nr c) (c_reorder c) \<and> length (c_inbox c) + c_reorder_bytes c \<le> RECEIVE_BUFFER
     \<and> (c_state c = Connecting \<longrightarrow> c_reorder c = [] \<and> c_inbox c = [])"

text \<open>What the receiving side consists of.\<close>

definition rcv_view :: "connection \<Rightarrow> bytes \<times> (u16 \<times> bytes) list \<times> nat \<times> u16 \<times> u16 option \<times> bool" where
  "rcv_view c = (c_inbox c, c_reorder c, c_reorder_bytes c, c_ack_nr c, c_fin_seq c, c_peer_closed c)"

lemma rcv_view_eq:
  "rcv_view c' = rcv_view c \<longleftrightarrow> c_inbox c' = c_inbox c \<and> c_reorder c' = c_reorder c \<and> c_reorder_bytes c' = c_reorder_bytes c
     \<and> c_ack_nr c' = c_ack_nr c \<and> c_fin_seq c' = c_fin_seq c \<and> c_peer_closed c' = c_peer_closed c"
  by (simp add: rcv_view_def)

lemma rcv_ok_frame:
  "rcv_view c' = rcv_view c \<Longrightarrow> c_state c' = c_state c \<or> c_state c' \<noteq> Connecting \<Longrightarrow> rcv_ok c \<Longrightarrow> rcv_ok c'"
  by (auto simp: rcv_ok_def rcv_view_eq)

lemma unat_receive_window:
  "unat (receive_window c) = RECEIVE_BUFFER - (length (c_inbox c) + c_reorder_bytes c)"
  by (simp add: receive_window_def unat_of_nat RECEIVE_BUFFER_def)

lemma held_remove:
  "distinct (map fst m) \<Longrightarrow> map_of m k = Some v \<Longrightarrow> held_bytes m = length v + held_bytes (al_remove k m)"
proof (induction m)
  case (Cons e m)
  show ?case
  proof (cases "fst e = k")
    case True
    with Cons.prems have "filter (\<lambda>x. fst x \<noteq> k) m = m" by (intro filter_True) (metis distinct.simps(2) image_eqI list.set_map list.simps(9))
    with True Cons.prems show ?thesis by (cases e) (simp add: al_remove_def held_bytes_def)
  next
    case False
    with Cons show ?thesis by (cases e) (simp add: al_remove_def held_bytes_def)
  qed
qed simp

lemma held_insert: "k \<notin> fst ` set m \<Longrightarrow> held_bytes (bt_insert k v m) = length v + held_bytes m"
  by (induction m) (auto simp: held_bytes_def)

lemma ahead_insert:
  assumes "ahead_ok low ack m" "low \<le> unat (k - ack)" "unat (k - ack) \<le> 64"
  shows "ahead_ok low ack (bt_insert k v m)"
  unfolding ahead_ok_def
proof
  fix e assume e: "e \<in> set (bt_insert k v m)"
  have "fst e \<in> insert k (fst ` set m)" unfolding bt_insert_keys [of k v m, symmetric] using e by (rule imageI)
  then show "low \<le> unat (fst e - ack) \<and> unat (fst e - ack) \<le> 64"
    using assms unfolding ahead_ok_def by (elim insertE imageE) simp_all
qed

lemma sorted_al_remove: "sorted_wrt (<) (map fst m) \<Longrightarrow> sorted_wrt (<) (map fst (al_remove k m))"
  by (induction m) (auto simp: al_remove_def)

lemma ahead_step: "x \<noteq> a + 1 \<Longrightarrow> x \<noteq> a \<Longrightarrow> unat (x - (a + 1)) = unat (x - a) - 1" for x a :: u16
proof -
  assume "x \<noteq> a + 1" "x \<noteq> a"
  then have "x - a \<noteq> 0" by simp
  then have "1 \<le> x - a" by (simp add: word_le_nat_alt unat_gt_0 Suc_le_eq)
  then have "unat (x - a - 1) = unat (x - a) - unat (1 :: u16)" by (rule unat_sub)
  then show ?thesis by (simp add: diff_diff_eq)
qed

lemma ahead_one: "unat (x - a) = 1 \<longleftrightarrow> x = a + 1" for x a :: u16
proof
  assume "unat (x - a) = 1"
  then have "x - a = 1" by (simp add: word_unat_eq_iff)
  then show "x = a + 1" by (simp add: diff_eq_eq add.commute)
qed simp

definition drain_ok :: "connection \<Rightarrow> bool" where
  "drain_ok c \<longleftrightarrow> sorted_wrt (<) (map fst (c_reorder c)) \<and> c_reorder_bytes c = held_bytes (c_reorder c)
     \<and> ahead_ok 1 (c_ack_nr c) (c_reorder c) \<and> length (c_inbox c) + c_reorder_bytes c \<le> RECEIVE_BUFFER"

lemma drain_step:
  assumes "drain_ok c" "map_of (c_reorder c) (c_ack_nr c + 1) = Some payload"
  shows "length payload \<le> c_reorder_bytes c"
    "drain_ok (c\<lparr>c_reorder := al_remove (c_ack_nr c + 1) (c_reorder c), c_reorder_bytes := c_reorder_bytes c - length payload,
       c_inbox := c_inbox c @ payload, c_ack_nr := c_ack_nr c + 1\<rparr>)"
proof -
  have d: "distinct (map fst (c_reorder c))" using assms(1) by (simp add: drain_ok_def strict_sorted_iff)
  note held = held_remove [OF d assms(2)]
  have a: "ahead_ok 1 (c_ack_nr c) (c_reorder c)" using assms(1) by (simp add: drain_ok_def)
  have "ahead_ok 1 (c_ack_nr c + 1) (al_remove (c_ack_nr c + 1) (c_reorder c))"
    unfolding ahead_ok_def
  proof
    fix e assume "e \<in> set (al_remove (c_ack_nr c + 1) (c_reorder c))"
    then have e: "fst e \<noteq> c_ack_nr c + 1" "1 \<le> unat (fst e - c_ack_nr c)" "unat (fst e - c_ack_nr c) \<le> 64"
      using a by (auto simp: al_remove_def ahead_ok_def)
    then have "unat (fst e - c_ack_nr c) \<noteq> 1" by (simp only: ahead_one not_False_eq_True)
    moreover have "fst e \<noteq> c_ack_nr c" using e(2) by auto
    ultimately show "1 \<le> unat (fst e - (c_ack_nr c + 1)) \<and> unat (fst e - (c_ack_nr c + 1)) \<le> 64"
      using e ahead_step [of "fst e" "c_ack_nr c"] by (intro conjI; linarith)
  qed
  then show "drain_ok (c\<lparr>c_reorder := al_remove (c_ack_nr c + 1) (c_reorder c), c_reorder_bytes := c_reorder_bytes c - length payload,
       c_inbox := c_inbox c @ payload, c_ack_nr := c_ack_nr c + 1\<rparr>)" "length payload \<le> c_reorder_bytes c"
    using assms(1) held by (auto simp: drain_ok_def sorted_al_remove)
qed

lemma drain_returns:
  "drain_ok c \<Longrightarrow> returns (drain_reorder c) (\<lambda>c'. drain_ok c' \<and> ahead_ok 2 (c_ack_nr c') (c_reorder c')
     \<and> (\<exists>i m n a. c' = c\<lparr>c_inbox := i, c_reorder := m, c_reorder_bytes := n, c_ack_nr := a\<rparr>))"
proof (induction c rule: drain_reorder.induct)
  case (1 c)
  show ?case
  proof (cases "map_of (c_reorder c) (c_ack_nr c + 1)")
    case None
    then have "c_ack_nr c + 1 \<notin> fst ` set (c_reorder c)" by (simp add: map_of_eq_None_iff)
    then have ne: "fst e \<noteq> c_ack_nr c + 1" if "e \<in> set (c_reorder c)" for e using that by force
    have "2 \<le> unat (fst e - c_ack_nr c)" if "e \<in> set (c_reorder c)" for e
    proof -
      have "1 \<le> unat (fst e - c_ack_nr c)" using that 1(2) by (simp add: drain_ok_def ahead_ok_def)
      moreover have "unat (fst e - c_ack_nr c) \<noteq> 1" using ne [OF that] by (simp only: ahead_one not_False_eq_True)
      ultimately show ?thesis by linarith
    qed
    then have "ahead_ok 2 (c_ack_nr c) (c_reorder c)" using 1(2) by (simp add: drain_ok_def ahead_ok_def)
    moreover have "\<exists>i m n a. c = c\<lparr>c_inbox := i, c_reorder := m, c_reorder_bytes := n, c_ack_nr := a\<rparr>"
      by (intro exI [of _ "c_inbox c"] exI [of _ "c_reorder c"] exI [of _ "c_reorder_bytes c"] exI [of _ "c_ack_nr c"]) simp
    ultimately show ?thesis using None 1(2) by (subst drain_reorder.simps) simp
  next
    case (Some payload)
    let ?c = "c\<lparr>c_reorder := al_remove (c_ack_nr c + 1) (c_reorder c), c_reorder_bytes := c_reorder_bytes c - length payload,
       c_inbox := c_inbox c @ payload, c_ack_nr := c_ack_nr c + 1\<rparr>"
    note s = drain_step [OF 1(2) Some]
    have sub: "usize_sub (c_reorder_bytes c) (length payload) = Ret (c_reorder_bytes c - length payload)"
      using s(1) by (simp add: usize_sub_def)
    have "returns (drain_reorder ?c) (\<lambda>c'. drain_ok c' \<and> ahead_ok 2 (c_ack_nr c') (c_reorder c')
     \<and> (\<exists>i m n a. c' = ?c\<lparr>c_inbox := i, c_reorder := m, c_reorder_bytes := n, c_ack_nr := a\<rparr>))"
      by (rule 1(1) [OF Some sub s(2)])
    then show ?thesis
      unfolding drain_reorder.simps [of c] Some option.case sub returns_simps
      by (rule returns_mono) auto
  qed
qed

text \<open>The four things a packet of the stream can do.\<close>

definition noted :: "packet \<Rightarrow> connection \<Rightarrow> connection" where
  "noted pk c = (if pk_kind pk = Fin then c\<lparr>c_ack_pending := True, c_fin_seq := Some (pk_seq_nr pk)\<rparr> else c\<lparr>c_ack_pending := True\<rparr>)"

definition kept :: "packet \<Rightarrow> connection \<Rightarrow> connection" where
  "kept pk c = (if map_of (c_reorder c) (pk_seq_nr pk) = None then
     c\<lparr>c_reorder_bytes := c_reorder_bytes c + length (pk_payload pk),
       c_reorder := bt_insert (pk_seq_nr pk) (pk_payload pk) (c_reorder c)\<rparr> else c)"

definition closed_if :: "connection \<Rightarrow> connection" where
  "closed_if c = (if c_fin_seq c = Some (c_ack_nr c) then c\<lparr>c_peer_closed := True\<rparr> else c)"

definition refused :: "packet \<Rightarrow> connection \<Rightarrow> bool" where
  "refused pk c \<longleftrightarrow> pk_seq_nr pk - c_ack_nr c = 0 \<or> REORDER_WINDOW < pk_seq_nr pk - c_ack_nr c
     \<or> unat (receive_window c) < length (pk_payload pk)"

lemma noted_sel [simp]:
  "c_ack_nr (noted pk c) = c_ack_nr c" "c_inbox (noted pk c) = c_inbox c" "c_reorder (noted pk c) = c_reorder c"
  "c_reorder_bytes (noted pk c) = c_reorder_bytes c" "c_state (noted pk c) = c_state c" "c_peer_closed (noted pk c) = c_peer_closed c"
  by (simp_all add: noted_def)

lemma receive_eq:
  "receive pk c =
     (if refused pk c then Ret (c\<lparr>c_ack_pending := True\<rparr>)
      else if pk_seq_nr pk = c_ack_nr c + 1 then
        on_ret (drain_reorder ((noted pk c)\<lparr>c_inbox := c_inbox c @ pk_payload pk, c_ack_nr := pk_seq_nr pk\<rparr>)) (\<lambda>c. Ret (closed_if c))
      else Ret (closed_if (kept pk (noted pk c))))"
proof -
  have "(pk_seq_nr pk - c_ack_nr c = 1) = (pk_seq_nr pk = c_ack_nr c + 1)" by (simp add: diff_eq_eq add.commute)
  then show ?thesis
    by (simp add: receive_def Let_def refused_def noted_def kept_def closed_if_def receive_window_def)
qed

text \<open>A packet changes only the receiving side, and keeps it in order.\<close>

definition rcv_changed :: "connection \<Rightarrow> connection \<Rightarrow> bool" where
  "rcv_changed c c' \<longleftrightarrow> (\<exists>p i m n a f q. c' = c\<lparr>c_ack_pending := p, c_inbox := i, c_reorder := m, c_reorder_bytes := n,
     c_ack_nr := a, c_fin_seq := f, c_peer_closed := q\<rparr>)"

lemma rcv_changedI: "c' = c\<lparr>c_ack_pending := p, c_inbox := i, c_reorder := m, c_reorder_bytes := n,
     c_ack_nr := a, c_fin_seq := f, c_peer_closed := q\<rparr> \<Longrightarrow> rcv_changed c c'"
  unfolding rcv_changed_def by blast

lemma rcv_changed_trans: "rcv_changed c c' \<Longrightarrow> rcv_changed c' c'' \<Longrightarrow> rcv_changed c c''"
proof -
  assume "rcv_changed c c'" "rcv_changed c' c''"
  then obtain p i m n a f q p' i' m' n' a' f' q' where
    c': "c' = c\<lparr>c_ack_pending := p, c_inbox := i, c_reorder := m, c_reorder_bytes := n, c_ack_nr := a, c_fin_seq := f, c_peer_closed := q\<rparr>"
    and c'': "c'' = c'\<lparr>c_ack_pending := p', c_inbox := i', c_reorder := m', c_reorder_bytes := n', c_ack_nr := a', c_fin_seq := f',
      c_peer_closed := q'\<rparr>" unfolding rcv_changed_def by blast
  show ?thesis unfolding c'' c' by (rule rcv_changedI) simp
qed

lemma rcv_changed_updates:
  "rcv_changed c (c\<lparr>c_ack_pending := p\<rparr>)" "rcv_changed c (c\<lparr>c_fin_seq := f\<rparr>)" "rcv_changed c (c\<lparr>c_peer_closed := q\<rparr>)"
  "rcv_changed c (c\<lparr>c_inbox := i, c_reorder := m, c_reorder_bytes := n, c_ack_nr := a\<rparr>)"
  by (rule rcv_changedI [where p = p and i = "c_inbox c" and m = "c_reorder c" and n = "c_reorder_bytes c" and a = "c_ack_nr c"
        and f = "c_fin_seq c" and q = "c_peer_closed c"], simp,
      rule rcv_changedI [where p = "c_ack_pending c" and i = "c_inbox c" and m = "c_reorder c" and n = "c_reorder_bytes c"
        and a = "c_ack_nr c" and f = f and q = "c_peer_closed c"], simp,
      rule rcv_changedI [where p = "c_ack_pending c" and i = "c_inbox c" and m = "c_reorder c" and n = "c_reorder_bytes c"
        and a = "c_ack_nr c" and f = "c_fin_seq c" and q = q], simp,
      rule rcv_changedI [where p = "c_ack_pending c" and f = "c_fin_seq c" and q = "c_peer_closed c"], simp)

lemma rcv_changed_parts:
  "rcv_changed c c" "rcv_changed c (noted pk c)" "rcv_changed c (closed_if c)" "rcv_changed c (kept pk c)"
proof -
  have "rcv_changed c (c\<lparr>c_ack_pending := True, c_fin_seq := f\<rparr>)" for f
    by (rule rcv_changed_trans [OF rcv_changed_updates(1) rcv_changed_updates(2)])
  then show "rcv_changed c (noted pk c)" by (simp add: noted_def rcv_changed_updates)
  show same: "rcv_changed c c" using rcv_changed_updates(1) [of c "c_ack_pending c"] by simp
  then show "rcv_changed c (closed_if c)" by (simp add: closed_if_def rcv_changed_updates)
  have "rcv_changed c (c\<lparr>c_reorder_bytes := n, c_reorder := m\<rparr>)" for n m
    by (rule rcv_changedI [where p = "c_ack_pending c" and i = "c_inbox c" and m = m and n = n and a = "c_ack_nr c"
        and f = "c_fin_seq c" and q = "c_peer_closed c"]) simp
  with same show "rcv_changed c (kept pk c)" by (simp add: kept_def)
qed

lemma rcv_ok_closed: "rcv_ok c \<Longrightarrow> rcv_ok (closed_if c)"
  by (simp add: rcv_ok_def closed_if_def)

lemma next_drain_ok:
  assumes "rcv_ok c" "\<not> refused pk c" "pk_seq_nr pk = c_ack_nr c + 1"
  shows "drain_ok ((noted pk c)\<lparr>c_inbox := c_inbox c @ pk_payload pk, c_ack_nr := pk_seq_nr pk\<rparr>)"
proof -
  have "ahead_ok 1 (c_ack_nr c + 1) (c_reorder c)"
    unfolding ahead_ok_def
  proof
    fix e assume "e \<in> set (c_reorder c)"
    then have e: "2 \<le> unat (fst e - c_ack_nr c)" "unat (fst e - c_ack_nr c) \<le> 64"
      using assms(1) by (auto simp: rcv_ok_def ahead_ok_def)
    then have "fst e \<noteq> c_ack_nr c" "fst e \<noteq> c_ack_nr c + 1" by auto
    with e ahead_step [of "fst e" "c_ack_nr c"] show "1 \<le> unat (fst e - (c_ack_nr c + 1)) \<and> unat (fst e - (c_ack_nr c + 1)) \<le> 64"
      by (intro conjI; linarith)
  qed
  then show ?thesis using assms by (auto simp: drain_ok_def rcv_ok_def refused_def unat_receive_window)
qed

lemma early_ok:
  assumes "rcv_ok c" "c_state c \<noteq> Connecting" "\<not> refused pk c" "pk_seq_nr pk \<noteq> c_ack_nr c + 1"
  shows "2 \<le> unat (pk_seq_nr pk - c_ack_nr c)" "unat (pk_seq_nr pk - c_ack_nr c) \<le> 64" "rcv_ok (kept pk (noted pk c))"
proof -
  have "0 < unat (pk_seq_nr pk - c_ack_nr c)" using assms(3) by (simp add: refused_def unat_gt_0)
  moreover have "unat (pk_seq_nr pk - c_ack_nr c) \<noteq> 1" using assms(4) by (simp only: ahead_one not_False_eq_True)
  ultimately show low: "2 \<le> unat (pk_seq_nr pk - c_ack_nr c)" by linarith
  show high: "unat (pk_seq_nr pk - c_ack_nr c) \<le> 64"
    using assms(3) by (simp add: refused_def REORDER_WINDOW_def word_le_nat_alt not_less)
  show "rcv_ok (kept pk (noted pk c))"
    using assms low high
    by (auto simp: rcv_ok_def kept_def refused_def unat_receive_window sorted_bt_insert held_insert map_of_eq_None_iff ahead_insert)
qed

lemma receive_returns:
  assumes "rcv_ok c" "c_state c \<noteq> Connecting"
  shows "returns (receive pk c) (\<lambda>c'. rcv_ok c' \<and> rcv_changed c c')"
proof -
  consider (refuse) "refused pk c" | (next_one) "\<not> refused pk c" "pk_seq_nr pk = c_ack_nr c + 1"
    | (early) "\<not> refused pk c" "pk_seq_nr pk \<noteq> c_ack_nr c + 1" by blast
  then show ?thesis
  proof cases
    case refuse
    moreover have "rcv_ok (c\<lparr>c_ack_pending := True\<rparr>)" using assms(1) by (simp add: rcv_ok_def)
    ultimately show ?thesis by (simp add: receive_eq rcv_changed_updates)
  next
    case next_one
    let ?c = "(noted pk c)\<lparr>c_inbox := c_inbox c @ pk_payload pk, c_ack_nr := pk_seq_nr pk\<rparr>"
    have "returns (drain_reorder ?c) (\<lambda>c'. rcv_ok (closed_if c') \<and> rcv_changed c (closed_if c'))"
    proof (rule returns_mono [OF drain_returns [OF next_drain_ok [OF assms(1) next_one]]])
      fix c' assume "drain_ok c' \<and> ahead_ok 2 (c_ack_nr c') (c_reorder c')
        \<and> (\<exists>i m n a. c' = ?c\<lparr>c_inbox := i, c_reorder := m, c_reorder_bytes := n, c_ack_nr := a\<rparr>)"
      then obtain i m n a where ok: "drain_ok c'" "ahead_ok 2 (c_ack_nr c') (c_reorder c')"
        and c': "c' = ?c\<lparr>c_inbox := i, c_reorder := m, c_reorder_bytes := n, c_ack_nr := a\<rparr>" by auto
      have "c_state c' \<noteq> Connecting" using assms(2) by (simp add: c')
      with ok have "rcv_ok c'" by (simp add: rcv_ok_def drain_ok_def)
      moreover have ch: "rcv_changed (noted pk c) c'"
        using rcv_changed_updates(4) [where c = "noted pk c" and i = i and m = m and n = n and a = a] by (simp add: c')
      ultimately have "rcv_ok c'" "rcv_changed c (closed_if c')"
        using rcv_changed_trans [OF rcv_changed_trans [OF rcv_changed_parts(2) ch] rcv_changed_parts(3)] by simp_all
      then show "rcv_ok (closed_if c') \<and> rcv_changed c (closed_if c')" by (simp add: rcv_ok_closed)
    qed
    then show ?thesis using next_one by (simp add: receive_eq)
  next
    case early
    moreover have "rcv_changed c (closed_if (kept pk (noted pk c)))"
      by (rule rcv_changed_trans [OF rcv_changed_trans [OF rcv_changed_parts(2) rcv_changed_parts(4)] rcv_changed_parts(3)])
    ultimately show ?thesis using early_ok [OF assms early] by (simp add: receive_eq rcv_ok_closed)
  qed
qed

section \<open>The log of numbered packets\<close>

type_synonym entry = "packet_type \<times> bytes"

definition seq_at :: "u16 \<Rightarrow> nat \<Rightarrow> u16" where
  "seq_at s0 i = s0 + of_nat i"

definition numbered :: "u16 \<Rightarrow> entry list \<Rightarrow> (u16 \<times> packet_type \<times> bytes) list" where
  "numbered s0 lg = map (\<lambda>i. (seq_at s0 i, lg ! i)) [0..<length lg]"

definition entry_of :: "sent \<Rightarrow> u16 \<times> packet_type \<times> bytes" where
  "entry_of p = (s_seq p, s_kind p, s_payload p)"

text \<open>A datagram fits a packet, and one of the stream carries the entry of its number.\<close>

definition carried :: "u16 \<Rightarrow> entry list \<Rightarrow> bytes \<Rightarrow> bool" where
  "carried s0 lg d \<longleftrightarrow> length d \<le> MAX_PACKET \<and> (\<exists>pk. packet_decode d = Inr pk
     \<and> (pk_kind pk = Data \<or> pk_kind pk = Fin \<longrightarrow> (\<exists>i<length lg. pk_seq_nr pk = seq_at s0 i \<and> lg ! i = (pk_kind pk, pk_payload pk))))"

definition entry_ok :: "entry \<Rightarrow> bool" where
  "entry_ok e \<longleftrightarrow> length (snd e) \<le> MAX_PAYLOAD \<and> (fst e = Data \<and> snd e \<noteq> [] \<or> fst e \<in> {Fin, Syn} \<and> snd e = [])"

definition log_ok :: "entry list \<Rightarrow> bool" where
  "log_ok lg \<longleftrightarrow> list_all entry_ok lg \<and> list_all (\<lambda>e. fst e \<noteq> Fin) (butlast lg) \<and> list_all (\<lambda>e. fst e \<noteq> Syn) (tl lg)"

lemma length_numbered [simp]: "length (numbered s0 lg) = length lg"
  by (simp add: numbered_def)

lemma numbered_snoc: "numbered s0 (lg @ [e]) = numbered s0 lg @ [(seq_at s0 (length lg), e)]"
  by (simp add: numbered_def nth_append)

lemma numbered_append: "set (numbered s0 lg) \<subseteq> set (numbered s0 (lg @ es))"
  by (auto simp: numbered_def nth_append intro!: image_eqI)

lemma in_numbered: "(sq, e) \<in> set (numbered s0 lg) \<longleftrightarrow> (\<exists>i<length lg. sq = seq_at s0 i \<and> lg ! i = e)"
  by (auto simp: numbered_def)

lemma carried_append: "carried s0 lg d \<Longrightarrow> carried s0 (lg @ es) d"
  unfolding carried_def by (metis length_append nth_append trans_less_add1)

lemma seq_at_Suc: "seq_at s0 (Suc i) = seq_at s0 i + 1"
  by (simp add: seq_at_def)

section \<open>Sending\<close>

definition flying :: "sent list \<Rightarrow> nat" where
  "flying ps = sum_list (map (\<lambda>p. if in_network p then length (s_payload p) else 0) ps)"

definition sent_ok :: "nat \<Rightarrow> sent \<Rightarrow> bool" where
  "sent_ok b p \<longleftrightarrow> \<not> (s_sacked p \<and> s_lost p) \<and> s_transmissions p \<le> Suc b"

definition snd_ok :: "nat \<Rightarrow> u16 \<Rightarrow> entry list \<Rightarrow> connection \<Rightarrow> bool" where
  "snd_ok b s0 lg c \<longleftrightarrow> c_seq_nr c = seq_at s0 (length lg) \<and> suffix (map entry_of (c_in_flight c)) (numbered s0 lg)
     \<and> c_cur_window c = flying (c_in_flight c) \<and> list_all (sent_ok b) (c_in_flight c)
     \<and> list_all (carried s0 lg) (c_outgoing c) \<and> log_ok lg
     \<and> (c_fin_sent c \<longleftrightarrow> lg \<noteq> [] \<and> fst (last lg) = Fin) \<and> (c_fin_sent c \<longrightarrow> c_fin_pending c \<and> c_outbox c = [])
     \<and> unacked c \<le> SEND_BUFFER"

definition MAX_WINDOW :: f64 where "MAX_WINDOW = f64_mul (f64_mul 16 1024) 1024"

definition tmr_ok :: "nat \<Rightarrow> connection \<Rightarrow> bool" where
  "tmr_ok b c \<longleftrightarrow> c_dup_acks c \<le> b \<and> c_syn_attempts c \<le> MAX_SYN_ATTEMPTS
     \<and> (c_state c \<noteq> Ended \<longrightarrow> c_timeouts c \<le> MAX_TIMEOUTS)
     \<and> MIN_WINDOW \<le> c_max_window c \<and> c_max_window c \<le> MAX_WINDOW \<and> c_rto c \<le> MAX_RTO"

definition conn_ok :: "nat \<Rightarrow> u16 \<Rightarrow> entry list \<Rightarrow> connection \<Rightarrow> bool" where
  "conn_ok b s0 lg c \<longleftrightarrow> rcv_ok c \<and> snd_ok b s0 lg c \<and> tmr_ok b c"

text \<open>Every byte accepted from the owner, in order: in the log, or still waiting.\<close>

definition stream :: "entry list \<Rightarrow> connection \<Rightarrow> bytes" where
  "stream lg c = concat (map snd lg) @ c_outbox c"

text \<open>
  A piece of the sending side returns, keeps what has to be kept while the log only
  grows, and does not touch the receiving side.
\<close>

definition goes :: "nat \<Rightarrow> u16 \<Rightarrow> entry list \<Rightarrow> connection \<Rightarrow> connection outcome \<Rightarrow> bool" where
  "goes b s0 lg c r \<longleftrightarrow> returns r (\<lambda>c'. \<exists>es. conn_ok b s0 (lg @ es) c'
     \<and> stream (lg @ es) c' = stream lg c \<and> rcv_view c' = rcv_view c \<and> c_state c' \<in> {c_state c, Ended})"

lemma goes_Ret:
  "conn_ok b s0 lg c' \<Longrightarrow> c_outbox c' = c_outbox c \<Longrightarrow> rcv_view c' = rcv_view c \<Longrightarrow> c_state c' \<in> {c_state c, Ended} \<Longrightarrow>
     goes b s0 lg c (Ret c')"
  unfolding goes_def by (simp add: stream_def exI [of _ "[]"])

lemma goes_extend:
  "goes b s0 (lg @ es) c' r \<Longrightarrow> stream (lg @ es) c' = stream lg c \<Longrightarrow> rcv_view c' = rcv_view c \<Longrightarrow>
     c_state c' \<in> {c_state c, Ended} \<Longrightarrow> goes b s0 lg c r"
  unfolding goes_def by (erule returns_mono) (metis append_assoc insert_iff singletonD)

lemma goes_bind:
  assumes "goes b s0 lg c r"
    and step: "\<And>es c'. conn_ok b s0 (lg @ es) c' \<Longrightarrow> r = Ret c' \<Longrightarrow> c_state c' \<in> {c_state c, Ended} \<Longrightarrow> goes b' s0 (lg @ es) c' (k c')"
  shows "goes b' s0 lg c (on_ret r k)"
proof -
  obtain c' es where r: "r = Ret c'" and c': "conn_ok b s0 (lg @ es) c'" "stream (lg @ es) c' = stream lg c" "rcv_view c' = rcv_view c"
    "c_state c' \<in> {c_state c, Ended}"
    using assms(1) unfolding goes_def returns_iff by blast
  from step [OF c'(1) r c'(4)] c'(2-4) have "goes b' s0 lg c (k c')" by (rule goes_extend)
  then show ?thesis by (simp add: r)
qed

lemma sent_ok_mono: "sent_ok b p \<Longrightarrow> b \<le> b' \<Longrightarrow> sent_ok b' p"
  by (auto simp: sent_ok_def)

lemma conn_ok_mono: "conn_ok b s0 lg c \<Longrightarrow> b \<le> b' \<Longrightarrow> conn_ok b' s0 lg c"
  by (auto simp: conn_ok_def snd_ok_def tmr_ok_def elim!: list.pred_mono_strong intro: sent_ok_mono)

text \<open>A datagram is queued; nothing panics, for the mask only names packets ahead.\<close>

lemma sack_bits_returns:
  "list_all (\<lambda>sq. 2 \<le> unat (sq - ack)) sqs \<Longrightarrow> returns (sack_bits ack sqs bits) (\<lambda>m. length m = length bits)"
proof (induction sqs arbitrary: bits)
  case (Cons sq sqs)
  let ?b = "unat (sq - ack) - 2"
  let ?m = "if ?b div 8 < length bits then bits[?b div 8 := bits ! (?b div 8) OR push_bit (?b mod 8) 1] else bits"
  have len: "length ?m = length bits" by simp
  have "returns (sack_bits ack sqs ?m) (\<lambda>m. length m = length bits)"
    using Cons.IH [of ?m] Cons.prems unfolding len by simp
  moreover have "usize_sub (unat (sq - ack)) 2 = Ret ?b" using Cons.prems by (simp add: usize_sub_def)
  ultimately show ?case by (simp only: sack_bits.simps returns_simps)
qed simp

lemma selective_ack_returns:
  assumes "rcv_ok c"
  shows "returns (selective_ack c) (\<lambda>m. length m \<le> MAX_SACK_BYTES)"
proof (cases "max_by_key (\<lambda>sq. sq - c_ack_nr c) (map fst (c_reorder c))")
  case None
  then show ?thesis by (simp add: selective_ack_def)
next
  case (Some final)
  have a: "list_all (\<lambda>sq. 2 \<le> unat (sq - c_ack_nr c)) (map fst (c_reorder c))"
    using assms by (auto simp: rcv_ok_def ahead_ok_def list_all_iff)
  have "final \<in> set (map fst (c_reorder c))" using max_by_key_Some [OF Some] by simp
  with a have "2 \<le> unat (final - c_ack_nr c)" by (simp only: list_all_iff)
  then have sub: "usize_sub (unat (final - c_ack_nr c)) 1 = Ret (unat (final - c_ack_nr c) - 1)" by (simp add: usize_sub_def)
  show ?thesis
    unfolding selective_ack_def Some option.case sub returns_simps Let_def
    by (rule returns_mono [OF sack_bits_returns [OF a]]) simp
qed

definition queued :: "instant \<Rightarrow> packet_type \<Rightarrow> bytes \<Rightarrow> connection \<Rightarrow> connection" where
  "queued now kind d c = c\<lparr>c_outgoing := c_outgoing c @ [d], c_last_sent := now,
     c_ack_pending := (if kind = Data \<or> kind = Fin \<or> kind = State then False else c_ack_pending c)\<rparr>"

lemma queue_returns:
  assumes "rcv_ok c" "length payload \<le> MAX_PAYLOAD" "kind = State \<longrightarrow> payload = []"
  shows "\<exists>d pk. queue now kind sq payload c = Ret (queued now kind d c) \<and> packet_decode d = Inr pk \<and> length d \<le> MAX_PACKET
    \<and> pk_kind pk = kind \<and> pk_seq_nr pk = sq \<and> pk_payload pk = payload"
proof -
  obtain m where m: "selective_ack c = Ret m" "length m \<le> MAX_SACK_BYTES"
    using selective_ack_returns [OF assms(1)] by (auto simp: returns_iff)
  define pk where "pk = (header c now kind sq)\<lparr>pk_payload := payload, pk_sack := (if kind = State then m else [])\<rparr>"
  have "queue now kind sq payload c = Ret (queued now kind (packet_encode pk) c)"
    by (auto simp: queue_def Let_def m queued_def pk_def header_def)
  moreover have "packet_decode (packet_encode pk) = Inr pk"
    using m(2) by (intro utp_codec.decode_encode) (simp add: pk_def)
  moreover have "length (packet_encode pk) \<le> MAX_PACKET"
    using assms(2,3) m(2)
    by (auto simp: length_packet_encode pk_def MAX_PAYLOAD_def MAX_PACKET_def HEADER_LEN_def MAX_SACK_BYTES_def header_def)
  moreover have "pk_kind pk = kind" "pk_seq_nr pk = sq" "pk_payload pk = payload" by (simp_all add: pk_def header_def)
  ultimately show ?thesis by blast
qed

lemma queued_sel [simp]:
  "c_outbox (queued now kind d c) = c_outbox c" "rcv_view (queued now kind d c) = rcv_view c"
  "c_state (queued now kind d c) = c_state c" "c_in_flight (queued now kind d c) = c_in_flight c"
  by (simp_all add: queued_def rcv_view_def)

lemma conn_ok_queued: "conn_ok b s0 lg c \<Longrightarrow> carried s0 lg d \<Longrightarrow> conn_ok b s0 lg (queued now kind d c)"
  by (simp add: conn_ok_def rcv_ok_def snd_ok_def tmr_ok_def queued_def unacked_def)

lemma queue_goes:
  assumes "conn_ok b s0 lg c" "length payload \<le> MAX_PAYLOAD" "kind = State \<longrightarrow> payload = []"
    "kind = Data \<or> kind = Fin \<longrightarrow> (sq, kind, payload) \<in> set (numbered s0 lg)"
  shows "goes b s0 lg c (queue now kind sq payload c)"
proof -
  have "rcv_ok c" using assms(1) by (simp add: conn_ok_def)
  from queue_returns [OF this assms(2,3)] obtain d pk where
    q: "queue now kind sq payload c = Ret (queued now kind d c)" and d: "packet_decode d = Inr pk" "length d \<le> MAX_PACKET"
    "pk_kind pk = kind" "pk_seq_nr pk = sq" "pk_payload pk = payload" by blast
  have "carried s0 lg d" using d assms(4) by (auto simp: carried_def in_numbered)
  with assms(1) q show ?thesis by (auto intro: goes_Ret conn_ok_queued)
qed

text \<open>The packets in flight are marked, or the first of them dropped; the log stays as it is.\<close>

lemma flying_simps [simp]:
  "flying [] = 0" "flying (p # ps) = (if in_network p then length (s_payload p) else 0) + flying ps"
  by (simp_all add: flying_def)

definition bulk :: "sent list \<Rightarrow> nat" where
  "bulk ps = sum_list (map (\<lambda>p. length (s_payload p)) ps)"

lemma bulk_entries: "bulk ps = sum_list (map (\<lambda>e. length (snd (snd e))) (map entry_of ps))"
  by (simp add: bulk_def entry_of_def comp_def)

lemma bulk_suffix: "suffix (map entry_of ps) (map entry_of qs) \<Longrightarrow> bulk ps \<le> bulk qs"
proof -
  assume "suffix (map entry_of ps) (map entry_of qs)"
  then obtain zs where "map entry_of qs = zs @ map entry_of ps" by (elim suffixE)
  then show ?thesis by (simp add: bulk_entries del: map_map)
qed

lemma unacked_bulk: "unacked c = length (c_outbox c) + bulk (c_in_flight c)"
  by (simp add: unacked_def bulk_def)

lemma conn_ok_flight:
  assumes "conn_ok b s0 lg c" "suffix (map entry_of ps) (map entry_of (c_in_flight c))" "cur = flying ps"
    "list_all (sent_ok b') ps" "b \<le> b'"
  shows "conn_ok b' s0 lg (c\<lparr>c_in_flight := ps, c_cur_window := cur\<rparr>)"
proof -
  have "suffix (map entry_of ps) (numbered s0 lg)"
    using assms(1,2) by (auto simp: conn_ok_def snd_ok_def intro: suffix_order.trans)
  then show ?thesis
    using assms bulk_suffix [OF assms(2)]
    by (auto simp: conn_ok_def rcv_ok_def snd_ok_def tmr_ok_def unacked_bulk)
qed

text \<open>An entry is added to the log, and its packet to those in flight.\<close>

lemma conn_ok_number:
  assumes ok: "conn_ok b s0 lg c" and "entry_ok (kind, payload)" "\<not> c_fin_sent c"
    and syn: "kind = Syn \<longrightarrow> lg = []" and out: "c_outbox c = payload @ rest" and fin: "kind = Fin \<longleftrightarrow> f" "f \<longrightarrow> c_fin_pending c \<and> rest = []"
  shows "conn_ok b s0 (lg @ [(kind, payload)]) (c\<lparr>c_outbox := rest, c_seq_nr := c_seq_nr c + 1, c_fin_sent := f,
    c_cur_window := c_cur_window c + length payload, c_in_flight := c_in_flight c @ [fresh (c_seq_nr c) kind payload now]\<rparr>)"
proof -
  have snd: "snd_ok b s0 lg c" using ok by (simp add: conn_ok_def)
  have seq: "c_seq_nr c = seq_at s0 (length lg)" using snd by (simp add: snd_ok_def)
  have nofin: "\<not> (lg \<noteq> [] \<and> fst (last lg) = Fin)" using snd assms(3) by (simp add: snd_ok_def)
  have "list_all (\<lambda>e. fst e \<noteq> Fin) lg"
    using snd nofin by (cases lg rule: rev_cases) (auto simp: snd_ok_def log_ok_def)
  then have log: "log_ok (lg @ [(kind, payload)])" using snd assms(2) syn by (cases lg) (auto simp: snd_ok_def log_ok_def)
  have suf: "suffix (map entry_of (c_in_flight c @ [fresh (c_seq_nr c) kind payload now])) (numbered s0 (lg @ [(kind, payload)]))"
    using snd by (simp add: numbered_snoc seq entry_of_def fresh_def snd_ok_def)
  have "list_all (carried s0 (lg @ [(kind, payload)])) (c_outgoing c)"
    using snd by (auto simp: snd_ok_def elim!: list.pred_mono_strong intro: carried_append)
  then show ?thesis
    using ok snd log suf out fin assms(3)
    by (auto simp: conn_ok_def rcv_ok_def snd_ok_def tmr_ok_def unacked_bulk bulk_def sent_ok_def fresh_def in_network_def
        flying_def seq_at_Suc)
qed

definition resent :: "nat \<Rightarrow> sent list \<Rightarrow> nat \<Rightarrow> sent list \<times> nat \<times> (packet_type \<times> u16 \<times> bytes) list \<Rightarrow> bool" where
  "resent b ps cur = (\<lambda>(ps', cur', out). map entry_of ps' = map entry_of ps \<and> cur' + flying ps = cur + flying ps'
     \<and> list_all (sent_ok (Suc b)) ps' \<and> (\<lambda>(kind, sq, payload). (sq, kind, payload)) ` set out \<subseteq> entry_of ` set ps)"

lemma resent_keep: "resent b ps cur (ps', cur', out) \<Longrightarrow> sent_ok b p \<Longrightarrow> resent b (p # ps) cur (p # ps', cur', out)"
  by (auto simp: resent_def intro: sent_ok_mono)

lemma resent_again:
  assumes "resent b ps (cur + length (s_payload p)) (ps', cur', out)" "sent_ok b p" "s_lost p"
  shows "resent b (p # ps) cur (p\<lparr>s_lost := False, s_transmissions := s_transmissions p + 1, s_sent_at := now\<rparr> # ps', cur',
    (s_kind p, s_seq p, s_payload p) # out)"
proof -
  let ?p = "p\<lparr>s_lost := False, s_transmissions := s_transmissions p + 1, s_sent_at := now\<rparr>"
  have "sent_ok (Suc b) ?p" "entry_of ?p = entry_of p" "in_network ?p" "\<not> in_network p" "s_payload ?p = s_payload p"
    "(s_seq p, s_kind p, s_payload p) = entry_of p"
    using assms(2,3) by (simp_all add: sent_ok_def entry_of_def in_network_def)
  then show ?thesis using assms(1) by (auto simp: resent_def)
qed

lemma resend_lost_returns:
  assumes "Suc (Suc b) < 2 ^ 32"
  shows "list_all (sent_ok b) ps \<Longrightarrow> returns (resend_lost now window ps cur) (resent b ps cur)"
proof (induction ps arbitrary: cur)
  case Nil
  then show ?case by (simp add: resent_def)
next
  case (Cons p ps)
  have ok: "sent_ok b p" "list_all (sent_ok b) ps" using Cons.prems by simp_all
  note IH = Cons.IH [OF ok(2)]
  consider (keep) "\<not> s_lost p" | (full) "s_lost p" "window < cur + length (s_payload p) \<and> 0 < cur"
    | (go) "s_lost p" "\<not> (window < cur + length (s_payload p) \<and> 0 < cur)" by blast
  then show ?case
  proof cases
    case keep
    then show ?thesis using ok(1) by (auto intro!: returns_mono [OF IH [of cur]] resent_keep)
  next
    case full
    have "resent b (p # ps) cur (p # ps, cur, [])"
      using Cons.prems by (auto simp: resent_def list_all_iff intro: sent_ok_mono)
    with full show ?thesis by simp
  next
    case go
    have inc: "u32_inc (s_transmissions p) = Ret (s_transmissions p + 1)"
      using ok(1) assms by (simp add: u32_inc_def sent_ok_def)
    have "resend_lost now window (p # ps) cur = on_ret (resend_lost now window ps (cur + length (s_payload p))) (\<lambda>(ps, cur, out).
        Ret (p\<lparr>s_lost := False, s_transmissions := s_transmissions p + 1, s_sent_at := now\<rparr> # ps, cur,
          (s_kind p, s_seq p, s_payload p) # out))"
      unfolding resend_lost.simps inc if_not_P [OF go(2)] using go(1) by simp
    then show ?thesis
      by (simp only: returns_simps)
        (auto intro!: returns_mono [OF IH [of "cur + length (s_payload p)"]] resent_again [OF _ ok(1) go(1), simplified])
  qed
qed

lemma queue_all_goes:
  "conn_ok b s0 lg c \<Longrightarrow> (\<lambda>(kind, sq, payload). (sq, kind, payload)) ` set out \<subseteq> set (numbered s0 lg) \<Longrightarrow>
     goes b s0 lg c (queue_all now out c)"
proof (induction out arbitrary: lg c)
  case Nil
  then show ?case by (simp add: goes_Ret)
next
  case (Cons e out)
  obtain kind sq payload where e: "e = (kind, sq, payload)" by (cases e)
  have m: "(sq, kind, payload) \<in> set (numbered s0 lg)" using Cons.prems(2) by (simp add: e)
  then have "entry_ok (kind, payload)" using Cons.prems(1)
    by (auto simp: in_numbered conn_ok_def snd_ok_def log_ok_def list_all_length)
  then have "goes b s0 lg c (queue now kind sq payload c)"
    using m Cons.prems(1) by (intro queue_goes) (auto simp: entry_ok_def)
  then show ?case unfolding e queue_all.simps
  proof (rule goes_bind)
    fix es c' assume "conn_ok b s0 (lg @ es) c'"
    then show "goes b s0 (lg @ es) c' (queue_all now out c')"
      using Cons.prems(2) numbered_append [of s0 lg es] by (intro Cons.IH) auto
  qed
qed

lemma send_one_goes:
  assumes "conn_ok b s0 lg c" "c_outbox c \<noteq> []" "n = min (length (c_outbox c)) MAX_PAYLOAD"
  shows "goes b s0 lg c (send_one now n c)"
proof -
  let ?p = "take n (c_outbox c)"
  let ?c = "c\<lparr>c_outbox := drop n (c_outbox c), c_seq_nr := c_seq_nr c + 1, c_cur_window := c_cur_window c + n,
     c_in_flight := c_in_flight c @ [fresh (c_seq_nr c) Data ?p now], c_last_data_sent := Some now\<rparr>"
  have unsent: "\<not> c_fin_sent c" using assms(1,2) by (auto simp: conn_ok_def snd_ok_def)
  have "conn_ok b s0 (lg @ [(Data, ?p)]) (c\<lparr>c_outbox := drop n (c_outbox c), c_seq_nr := c_seq_nr c + 1, c_fin_sent := False,
    c_cur_window := c_cur_window c + length ?p, c_in_flight := c_in_flight c @ [fresh (c_seq_nr c) Data ?p now]\<rparr>)"
    using assms unsent by (intro conn_ok_number) (simp_all add: entry_ok_def MAX_PAYLOAD_def MAX_PACKET_def HEADER_LEN_def)
  moreover have "length ?p = n" using assms(3) by simp
  ultimately have ok: "conn_ok b s0 (lg @ [(Data, ?p)]) ?c"
    using unsent by (simp add: conn_ok_def rcv_ok_def snd_ok_def tmr_ok_def unacked_def)
  have "c_seq_nr c = seq_at s0 (length lg)" using assms(1) by (simp add: conn_ok_def snd_ok_def)
  then have "(c_seq_nr c, Data, ?p) \<in> set (numbered s0 (lg @ [(Data, ?p)]))" by (simp add: numbered_snoc)
  then have "goes b s0 (lg @ [(Data, ?p)]) ?c (queue now Data (c_seq_nr c) ?p ?c)"
    using ok assms(3) by (intro queue_goes) simp_all
  then have "goes b s0 lg c (queue now Data (c_seq_nr c) ?p ?c)"
    by (rule goes_extend) (simp_all add: stream_def rcv_view_def)
  then show ?thesis by (simp add: send_one_def Let_def)
qed

lemma send_new_goes: "conn_ok b s0 lg c \<Longrightarrow> goes b s0 lg c (send_new now window c)"
proof (induction now window c arbitrary: lg rule: send_new.induct)
  case (1 now window c)
  let ?n = "min (length (c_outbox c)) MAX_PAYLOAD"
  consider (stop) "c_outbox c = [] \<or> window < c_cur_window c + ?n \<and> \<not> probe now c"
    | (go) "c_outbox c \<noteq> []" "\<not> (window < c_cur_window c + ?n \<and> \<not> probe now c)" by blast
  then show ?case
  proof cases
    case stop
    then have "send_new now window c = Ret c" by (subst send_new.simps) (auto simp: Let_def)
    then show ?thesis using "1.prems" by (simp add: goes_Ret)
  next
    case go
    have "goes b s0 lg c (on_ret (send_one now ?n c) (send_new now window))"
    proof (rule goes_bind [OF send_one_goes [OF "1.prems" go(1) refl]])
      fix es c' assume "conn_ok b s0 (lg @ es) c'" "send_one now ?n c = Ret c'"
      then show "goes b s0 (lg @ es) c' (send_new now window c')" using go by (intro "1.IH" [OF _ refl]) auto
    qed
    moreover have "send_new now window c = on_ret (send_one now ?n c) (send_new now window)"
      unfolding send_new.simps [of now window c] Let_def if_not_P [OF go(1)] if_not_P [OF go(2)] ..
    ultimately show ?thesis by simp
  qed
qed

lemma send_fin_goes:
  assumes "conn_ok b s0 lg c"
  shows "goes b s0 lg c (send_fin now c)"
proof (cases "c_fin_pending c \<and> \<not> c_fin_sent c \<and> c_outbox c = []")
  case False
  then show ?thesis using assms by (auto simp: send_fin_def intro: goes_Ret)
next
  case True
  let ?c = "c\<lparr>c_seq_nr := c_seq_nr c + 1, c_fin_sent := True, c_in_flight := c_in_flight c @ [fresh (c_seq_nr c) Fin [] now]\<rparr>"
  have "conn_ok b s0 (lg @ [(Fin, [])]) (c\<lparr>c_outbox := [], c_seq_nr := c_seq_nr c + 1, c_fin_sent := True,
    c_cur_window := c_cur_window c + length ([] :: bytes), c_in_flight := c_in_flight c @ [fresh (c_seq_nr c) Fin [] now]\<rparr>)"
    using assms True by (intro conn_ok_number) (simp_all add: entry_ok_def)
  then have ok: "conn_ok b s0 (lg @ [(Fin, [])]) ?c"
    using True by (simp add: conn_ok_def rcv_ok_def snd_ok_def tmr_ok_def unacked_def)
  have "c_seq_nr c = seq_at s0 (length lg)" using assms by (simp add: conn_ok_def snd_ok_def)
  then have "(c_seq_nr c, Fin, []) \<in> set (numbered s0 (lg @ [(Fin, [])]))" by (simp add: numbered_snoc)
  then have "goes b s0 (lg @ [(Fin, [])]) ?c (queue now Fin (c_seq_nr c) [] ?c)"
    using ok by (intro queue_goes) simp_all
  then have "goes b s0 lg c (queue now Fin (c_seq_nr c) [] ?c)"
    by (rule goes_extend) (simp_all add: stream_def rcv_view_def)
  then show ?thesis using True by (simp add: send_fin_def Let_def)
qed

lemma conn_ok_timers:
  "conn_ok b s0 lg c \<Longrightarrow> conn_ok b s0 lg (c\<lparr>c_rto_deadline := d\<rparr>)"
  "conn_ok b s0 lg c \<Longrightarrow> conn_ok b s0 lg (c\<lparr>c_ack_pending := a\<rparr>)"
  "conn_ok b s0 lg c \<Longrightarrow> conn_ok b s0 lg (c\<lparr>c_last_heard := h, c_reply_micro := m\<rparr>)"
  "conn_ok b s0 lg c \<Longrightarrow> conn_ok b s0 lg (c\<lparr>c_peer_window := w\<rparr>)"
  by (simp_all add: conn_ok_def rcv_ok_def snd_ok_def tmr_ok_def unacked_def)

lemma conn_ok_ended: "conn_ok b s0 lg c \<Longrightarrow> conn_ok b s0 lg (c\<lparr>c_state := Ended\<rparr>)"
  "conn_ok b s0 lg c \<Longrightarrow> conn_ok b s0 lg (fail e c)"
  by (simp_all add: fail_def conn_ok_def rcv_ok_def snd_ok_def tmr_ok_def unacked_def)

lemma rcv_view_sel [simp]:
  "rcv_view (c\<lparr>c_rto_deadline := d\<rparr>) = rcv_view c" "rcv_view (c\<lparr>c_state := s\<rparr>) = rcv_view c"
  "rcv_view (fail e c) = rcv_view c" "rcv_view (c\<lparr>c_in_flight := ps, c_cur_window := cur\<rparr>) = rcv_view c"
  "c_outbox (fail e c) = c_outbox c" "c_state (fail e c) = Ended"
  by (simp_all add: rcv_view_def fail_def)

lemma send_pending_goes:
  assumes "conn_ok b s0 lg c" "Suc (Suc b) < 2 ^ 32"
  shows "goes (Suc b) s0 lg c (send_pending now c)"
proof -
  let ?w = "min (f64_to_nat (c_max_window c)) (unat (c_peer_window c))"
  have ok: "list_all (sent_ok b) (c_in_flight c)" "c_cur_window c = flying (c_in_flight c)"
    and suf: "suffix (map entry_of (c_in_flight c)) (numbered s0 lg)"
    using assms(1) by (simp_all add: conn_ok_def snd_ok_def)
  note sub = set_mono_suffix [OF suf]
  obtain ps cur out where r: "resend_lost now ?w (c_in_flight c) (c_cur_window c) = Ret (ps, cur, out)"
    and q: "resent b (c_in_flight c) (c_cur_window c) (ps, cur, out)"
    using resend_lost_returns [OF assms(2) ok(1), of now ?w "c_cur_window c"] by (auto simp: returns_iff)
  let ?c = "c\<lparr>c_in_flight := ps, c_cur_window := cur\<rparr>"
  have "conn_ok (Suc b) s0 lg ?c"
    using assms(1) q ok(2) by (intro conn_ok_flight [where b = b]) (auto simp: resent_def)
  moreover have "(\<lambda>(kind, sq, payload). (sq, kind, payload)) ` set out \<subseteq> set (numbered s0 lg)"
    using q sub unfolding resent_def prod.case set_map by (meson order_trans)
  ultimately have "goes (Suc b) s0 lg ?c (queue_all now out ?c)" by (rule queue_all_goes)
  then have all: "goes (Suc b) s0 lg c (queue_all now out ?c)" by (auto simp: goes_def stream_def)
  show ?thesis
    unfolding send_pending_def Let_def r on_ret_simps prod.case
    by (intro goes_bind [OF all] goes_bind [OF send_new_goes] goes_bind [OF send_fin_goes] goes_Ret)
      (auto intro: conn_ok_timers)
qed

lemma send_state_goes: "conn_ok b s0 lg c \<Longrightarrow> goes b s0 lg c (send_state now c)"
  unfolding send_state_def by (rule queue_goes) simp_all

lemma finish_if_done_ok:
  "conn_ok b s0 lg c \<Longrightarrow> goes b s0 lg c (Ret (finish_if_done c))"
  by (intro goes_Ret) (simp_all add: finish_if_done_def conn_ok_ended)

lemma flush_goes:
  assumes "conn_ok b s0 lg c" "Suc (Suc b) < 2 ^ 32"
  shows "goes (Suc b) s0 lg c (flush now c)"
proof -
  have "goes (Suc b) s0 lg c (if c_state c = Open then send_pending now c else Ret c)"
    using send_pending_goes [OF assms] goes_Ret [OF conn_ok_mono [OF assms(1), of "Suc b"]] by simp
  then show ?thesis
    unfolding flush_def
    by (intro goes_bind [where b = "Suc b"]) (auto intro: send_state_goes goes_Ret finish_if_done_ok)
qed

lemma abort_goes: "conn_ok b s0 lg c \<Longrightarrow> goes b s0 lg c (abort now c)"
  unfolding abort_def
  by (intro goes_bind [where b = b]) (auto intro: queue_goes goes_Ret conn_ok_ended)

section \<open>Acknowledgements\<close>

text \<open>Packets acknowledged, or presumed lost: only the queue in flight and its count change.\<close>

definition marked :: "nat \<Rightarrow> connection \<Rightarrow> connection \<Rightarrow> bool" where
  "marked b c c' \<longleftrightarrow> (\<exists>ps cur f. c' = c\<lparr>c_in_flight := ps, c_cur_window := cur, c_fin_acked := f\<rparr>
     \<and> suffix (map entry_of ps) (map entry_of (c_in_flight c)) \<and> cur = flying ps \<and> list_all (sent_ok b) ps)"

lemma markedI:
  "c' = c\<lparr>c_in_flight := ps, c_cur_window := cur, c_fin_acked := f\<rparr> \<Longrightarrow> suffix (map entry_of ps) (map entry_of (c_in_flight c))
     \<Longrightarrow> cur = flying ps \<Longrightarrow> list_all (sent_ok b) ps \<Longrightarrow> marked b c c'"
  unfolding marked_def by blast

lemma marked_refl: "conn_ok b s0 lg c \<Longrightarrow> marked b c c"
  by (rule markedI [where ps = "c_in_flight c" and cur = "c_cur_window c" and f = "c_fin_acked c"]) (simp_all add: conn_ok_def snd_ok_def)

lemma marked_trans: "marked b c c' \<Longrightarrow> marked b c' c'' \<Longrightarrow> marked b c c''"
  unfolding marked_def by (fastforce intro: suffix_order.trans)

lemma conn_ok_marked:
  assumes "conn_ok b s0 lg c" "marked b c c'"
  shows "conn_ok b s0 lg c'" "c_outbox c' = c_outbox c" "rcv_view c' = rcv_view c" "c_state c' = c_state c"
proof -
  obtain ps cur f where c': "c' = c\<lparr>c_in_flight := ps, c_cur_window := cur, c_fin_acked := f\<rparr>"
    and m: "suffix (map entry_of ps) (map entry_of (c_in_flight c))" "cur = flying ps" "list_all (sent_ok b) ps"
    using assms(2) by (auto simp: marked_def)
  have "conn_ok b s0 lg (c\<lparr>c_in_flight := ps, c_cur_window := cur\<rparr>)"
    using assms(1) m by (rule conn_ok_flight) simp
  then show "conn_ok b s0 lg c'"
    by (simp add: c' conn_ok_def rcv_ok_def snd_ok_def tmr_ok_def unacked_def)
  show "c_outbox c' = c_outbox c" "rcv_view c' = rcv_view c" "c_state c' = c_state c" by (simp_all add: c' rcv_view_def)
qed

lemma flying_update:
  "i < length ps \<Longrightarrow> flying (ps[i := q]) + (if in_network (ps ! i) then length (s_payload (ps ! i)) else 0) =
     flying ps + (if in_network q then length (s_payload q) else 0)"
proof (induction ps arbitrary: i)
  case (Cons p ps)
  show ?case
  proof (cases i)
    case (Suc j)
    with Cons.IH [of j] Cons.prems show ?thesis by (auto split: if_splits)
  qed simp
qed simp

lemma flying_nth: "i < length ps \<Longrightarrow> in_network (ps ! i) \<Longrightarrow> length (s_payload (ps ! i)) \<le> flying ps"
  by (induction ps arbitrary: i) (auto simp: nth_Cons split: nat.splits intro: trans_le_add2)

lemma pop_acked_returns:
  "c_cur_window c = flying ps \<Longrightarrow> returns (pop_acked now ack ps c acked sample) (\<lambda>(c', acked', sample'). \<exists>ps' f.
     c' = c\<lparr>c_in_flight := ps', c_cur_window := flying ps', c_fin_acked := f\<rparr> \<and> suffix ps' ps)"
proof (induction ps arbitrary: c acked sample)
  case Nil
  then show ?case by (auto intro!: exI [of _ "c_fin_acked c"])
next
  case (Cons p ps)
  show ?case
  proof (cases "seq_le (s_seq p) ack")
    case False
    then show ?thesis using Cons.prems by (auto intro!: exI [of _ "p # ps"] exI [of _ "c_fin_acked c"])
  next
    case True
    let ?c = "c\<lparr>c_cur_window := flying ps, c_fin_acked := (if s_kind p = Fin then True else c_fin_acked c)\<rparr>"
    have cur: "(if in_network p then usize_sub (c_cur_window c) (length (s_payload p)) else Ret (c_cur_window c)) = Ret (flying ps)"
      using Cons.prems by (simp add: usize_sub_def)
    obtain a s where eq: "pop_acked now ack (p # ps) c acked sample = pop_acked now ack ps ?c a s"
      unfolding pop_acked.simps cur using True by simp
    have "returns (pop_acked now ack ps ?c a s) (\<lambda>(c', acked', sample'). \<exists>ps' f.
        c' = ?c\<lparr>c_in_flight := ps', c_cur_window := flying ps', c_fin_acked := f\<rparr> \<and> suffix ps' ps)"
      by (rule Cons.IH) simp
    then show ?thesis
      unfolding eq by (rule returns_mono) (auto simp: suffix_Cons)
  qed
qed

lemma pop_acked_marked:
  assumes "conn_ok b s0 lg c"
  shows "returns (pop_acked now ack (c_in_flight c) c acked sample) (\<lambda>st. marked b c (fst st))"
proof -
  have "c_cur_window c = flying (c_in_flight c)" using assms by (simp add: conn_ok_def snd_ok_def)
  then show ?thesis
  proof (rule returns_mono [OF pop_acked_returns])
    fix st :: "connection \<times> nat \<times> duration option"
    assume "case st of (c', acked', sample') \<Rightarrow> \<exists>ps' f. c' = c\<lparr>c_in_flight := ps', c_cur_window := flying ps', c_fin_acked := f\<rparr>
      \<and> suffix ps' (c_in_flight c)"
    then obtain ps f where c': "fst st = c\<lparr>c_in_flight := ps, c_cur_window := flying ps, c_fin_acked := f\<rparr>" and s: "suffix ps (c_in_flight c)"
      by (auto split: prod.splits)
    have "list_all (sent_ok b) ps"
      using assms set_mono_suffix [OF s] by (auto simp: conn_ok_def snd_ok_def list_all_iff)
    with c' show "marked b c (fst st)" using s by (auto intro!: markedI map_mono_suffix)
  qed
qed

lemma mark_one:
  assumes "conn_ok b s0 lg c" "i < length (c_in_flight c)" "entry_of q = entry_of (c_in_flight c ! i)" "sent_ok b q"
    "cur + (if in_network (c_in_flight c ! i) then length (s_payload (c_in_flight c ! i)) else 0) =
       c_cur_window c + (if in_network q then length (s_payload q) else 0)"
  shows "marked b c (c\<lparr>c_in_flight := (c_in_flight c)[i := q], c_cur_window := cur\<rparr>)"
proof (rule markedI [where f = "c_fin_acked c"])
  have "c_cur_window c = flying (c_in_flight c)" using assms(1) by (simp add: conn_ok_def snd_ok_def)
  then show "cur = flying ((c_in_flight c)[i := q])"
    using flying_update [OF assms(2), of q] assms(5) by linarith
  have "map entry_of ((c_in_flight c)[i := q]) = map entry_of (c_in_flight c)"
    using assms(2,3) by (simp add: map_update list_update_same_conv)
  then show "suffix (map entry_of ((c_in_flight c)[i := q])) (map entry_of (c_in_flight c))" by simp
  have "list_all (sent_ok b) (c_in_flight c)" using assms(1) by (simp add: conn_ok_def snd_ok_def)
  then show "list_all (sent_ok b) ((c_in_flight c)[i := q])"
    using assms(4) set_update_subset_insert [of "c_in_flight c" i q] by (auto simp: list_all_iff)
qed simp

lemma sack_one_marked:
  assumes "conn_ok b s0 lg c"
  shows "returns (sack_one now sq (c, acked, sample)) (\<lambda>st. marked b c (fst st))"
proof (cases "iter_position (\<lambda>p. s_seq p = sq) (c_in_flight c)")
  case None
  with marked_refl [OF assms] show ?thesis by (simp add: sack_one_def)
next
  case (Some i)
  let ?p = "c_in_flight c ! i"
  have i: "i < length (c_in_flight c)" using iter_position_Some [OF Some] by simp
  have ok: "c_cur_window c = flying (c_in_flight c)" "sent_ok b ?p" using assms i by (simp_all add: conn_ok_def snd_ok_def list_all_length)
  show ?thesis
  proof (cases "s_sacked ?p")
    case True
    with Some marked_refl [OF assms] show ?thesis by (simp add: sack_one_def Let_def)
  next
    case False
    let ?cur = "c_cur_window c - (if in_network ?p then length (s_payload ?p) else 0)"
    have le: "in_network ?p \<longrightarrow> length (s_payload ?p) \<le> c_cur_window c" using flying_nth [OF i] ok(1) by simp
    then have cur: "(if in_network ?p then usize_sub (c_cur_window c) (length (s_payload ?p)) else Ret (c_cur_window c)) = Ret ?cur"
      by (simp add: usize_sub_def)
    have "marked b c (c\<lparr>c_in_flight := (c_in_flight c)[i := ?p\<lparr>s_sacked := True, s_lost := False\<rparr>], c_cur_window := ?cur\<rparr>)"
      using le ok(2) by (intro mark_one [OF assms i]) (simp_all add: entry_of_def sent_ok_def in_network_def)
    moreover have "c\<lparr>c_cur_window := ?cur, c_in_flight := (c_in_flight c)[i := ?p\<lparr>s_sacked := True, s_lost := False\<rparr>]\<rparr> =
        c\<lparr>c_in_flight := (c_in_flight c)[i := ?p\<lparr>s_sacked := True, s_lost := False\<rparr>], c_cur_window := ?cur\<rparr>" by simp
    ultimately show ?thesis
      unfolding sack_one_def prod.case Some option.case Let_def if_not_P [OF False] cur by (simp only: returns_simps fst_conv)
  qed
qed

lemma sack_all_marked:
  "conn_ok b s0 lg c \<Longrightarrow> returns (sack_all now sqs (c, acked, sample)) (\<lambda>st. marked b c (fst st))"
proof (induction sqs arbitrary: c acked sample)
  case Nil
  then show ?case by (simp add: marked_refl)
next
  case (Cons sq sqs)
  obtain c' a' s' where one: "sack_one now sq (c, acked, sample) = Ret (c', a', s')" and m: "marked b c c'"
    using sack_one_marked [OF Cons.prems, of now sq acked sample] by (auto simp: returns_iff)
  have "returns (sack_all now sqs (c', a', s')) (\<lambda>st. marked b c' (fst st))"
    using Cons.IH conn_ok_marked(1) [OF Cons.prems m] by blast
  then have "returns (sack_all now sqs (c', a', s')) (\<lambda>st. marked b c (fst st))"
    by (rule returns_mono) (rule marked_trans [OF m])
  then show ?case by (simp add: one)
qed

text \<open>Congestion control moves the timers and the window only, within their bounds.\<close>

definition core :: "connection \<Rightarrow> _" where
  "core c = (rcv_view c, c_state c, c_seq_nr c, c_in_flight c, c_cur_window c, c_outgoing c, c_fin_sent c, c_fin_pending c, c_outbox c)"

lemma conn_ok_core:
  "core c' = core c \<Longrightarrow> conn_ok b s0 lg c \<Longrightarrow> tmr_ok b' c' \<Longrightarrow> b \<le> b' \<Longrightarrow> conn_ok b' s0 lg c'"
  by (auto simp: core_def conn_ok_def rcv_ok_def snd_ok_def unacked_def rcv_view_eq elim!: list.pred_mono_strong intro: sent_ok_mono)

lemma window_bounds: "MIN_WINDOW = 1400" "MAX_WINDOW = 16777216" "INITIAL_WINDOW = 2800"
proof -
  have n: "f64_mul (of_nat a) (of_nat b) = of_nat (a * b)" if "a * b < 2 ^ 53" for a b
    using f64_of_nat_exact [OF that] by (simp add: f64_mul_def f64_of_nat_def)
  show "MIN_WINDOW = 1400" using f64_of_nat_exact [of 1400] by (simp add: MIN_WINDOW_def MAX_PACKET_def)
  show "MAX_WINDOW = 16777216" using n [of 16 1024] n [of 16384 1024] by (simp add: MAX_WINDOW_def)
  show "INITIAL_WINDOW = 2800" using f64_of_nat_exact [of 1400] n [of 2 1400] by (simp add: INITIAL_WINDOW_def MAX_PACKET_def)
qed

lemma update_rtt_ok: "core (update_rtt d c) = core c" "tmr_ok b c \<Longrightarrow> tmr_ok b (update_rtt d c)"
proof -
  have "MIN_RTO \<le> MAX_RTO" by (simp add: MIN_RTO_def MAX_RTO_def millis_def secs_def)
  then show "tmr_ok b c \<Longrightarrow> tmr_ok b (update_rtt d c)"
    using clamp_bounds [of MIN_RTO MAX_RTO] by (simp add: update_rtt_def Let_def tmr_ok_def split: option.split)
qed (simp add: update_rtt_def Let_def core_def rcv_view_def split: option.split)

definition tuned :: "connection \<Rightarrow> connection \<Rightarrow> bool" where
  "tuned c c' \<longleftrightarrow> core c' = core c \<and> c_dup_acks c' = c_dup_acks c \<and> c_syn_attempts c' = c_syn_attempts c
     \<and> c_timeouts c' = c_timeouts c \<and> c_rto c' = c_rto c"

lemma tuned_updates:
  "tuned c (c'\<lparr>c_delay_base := d\<rparr>) = tuned c c'" "tuned c (c'\<lparr>c_slow_start := b\<rparr>) = tuned c c'"
  "tuned c (c'\<lparr>c_max_window := w\<rparr>) = tuned c c'" "tuned c (if p then c' else c'') = (if p then tuned c c' else tuned c c'')"
  "tuned c c"
  by (simp_all add: tuned_def core_def rcv_view_def)

lemma update_window_ok: "core (update_window now n d c) = core c" "tmr_ok b c \<Longrightarrow> tmr_ok b (update_window now n d c)"
proof -
  have t: "tuned c (update_window now n d c)"
    by (simp only: update_window_def Let_def tuned_updates if_cancel)
  have "MIN_WINDOW \<le> MAX_WINDOW" by (simp add: window_bounds)
  moreover obtain x where "c_max_window (update_window now n d c) = clamp x MIN_WINDOW MAX_WINDOW"
    unfolding update_window_def Let_def MAX_WINDOW_def [symmetric] by (simp split del: if_split)
  ultimately show "tmr_ok b c \<Longrightarrow> tmr_ok b (update_window now n d c)" "core (update_window now n d c) = core c"
    using t clamp_bounds [of MIN_WINDOW MAX_WINDOW] by (auto simp: tuned_def tmr_ok_def core_def)
qed

lemma f64_half: "0 < x \<Longrightarrow> f64_div x 2 \<le> x"
proof -
  assume x: "0 < x"
  let ?y = "x / 2" and ?e = "exponent (x / 2)"
  have y: "\<bar>?y\<bar> = ?y" "0 < ?y" using x by simp_all
  have "f64_round ?y - ?y \<le> 2 powi (?e - 53)" using f64_round_error [of ?y] unfolding y(1) by linarith
  also have "\<dots> \<le> 2 powi ?e" by (intro power_int_increasing) simp_all
  also have "\<dots> \<le> ?y" using exponent_bounds [OF y(2)] by simp
  finally show ?thesis by (simp add: f64_div_def)
qed

lemma cut_window_ok: "core (cut_window now c) = core c" "tmr_ok b c \<Longrightarrow> tmr_ok b (cut_window now c)"
proof -
  show "tmr_ok b c \<Longrightarrow> tmr_ok b (cut_window now c)"
    using f64_half [of "c_max_window c"]
    by (auto simp: cut_window_def Let_def tmr_ok_def window_bounds split: option.split)
qed (simp add: cut_window_def Let_def core_def rcv_view_def split: option.split)

lemma count_ack_goes:
  assumes "conn_ok b s0 lg c" "Suc b < 2 ^ 32"
  shows "goes (Suc b) s0 lg c (count_ack now pk acked c)"
proof -
  have t: "tmr_ok b c" using assms(1) by (simp add: conn_ok_def)
  have up: "goes (Suc b) s0 lg c (Ret c')" if "core c' = core c" "tmr_ok (Suc b) c'" for c'
    using conn_ok_core [OF that(1) assms(1) that(2)] that(1) by (intro goes_Ret) (simp_all add: core_def)
  have one: "tmr_ok (Suc b) (c\<lparr>c_timeouts := 0, c_dup_acks := 0\<rparr>)" "tmr_ok (Suc b) (c\<lparr>c_dup_acks := Suc (c_dup_acks c)\<rparr>)"
    "tmr_ok (Suc b) c" using t by (auto simp: tmr_ok_def)
  have inc: "u32_inc (c_dup_acks c) = Ret (Suc (c_dup_acks c))" using t assms(2) by (simp add: u32_inc_def tmr_ok_def)
  have "core (c\<lparr>c_timeouts := 0, c_dup_acks := 0\<rparr>) = core c" "core (c\<lparr>c_dup_acks := Suc (c_dup_acks c)\<rparr>) = core c"
    by (simp_all add: core_def rcv_view_def)
  then show ?thesis
    unfolding count_ack_def inc on_ret_simps using one by (auto intro!: up simp: update_window_ok)
qed

lemma lose_front_goes:
  assumes "conn_ok b s0 lg c"
  shows "goes b s0 lg c (lose_front now c)"
proof (cases "iter_position (\<lambda>p. \<not> s_sacked p) (c_in_flight c)")
  case None
  with assms show ?thesis by (simp add: lose_front_def goes_Ret)
next
  case (Some i)
  let ?p = "c_in_flight c ! i"
  have i: "i < length (c_in_flight c)" "\<not> s_sacked ?p" using iter_position_Some [OF Some] by simp_all
  show ?thesis
  proof (cases "s_transmissions ?p = 1 \<and> \<not> s_lost ?p")
    case False
    with Some assms show ?thesis by (auto simp: lose_front_def Let_def intro: goes_Ret)
  next
    case True
    let ?cur = "c_cur_window c - length (s_payload ?p)"
    let ?c = "c\<lparr>c_in_flight := (c_in_flight c)[i := ?p\<lparr>s_lost := True\<rparr>], c_cur_window := ?cur\<rparr>"
    have p: "in_network ?p" using i True by (simp add: in_network_def)
    have "c_cur_window c = flying (c_in_flight c)" "sent_ok b ?p" using assms i by (simp_all add: conn_ok_def snd_ok_def list_all_length)
    then have le: "length (s_payload ?p) \<le> c_cur_window c" "sent_ok b ?p" using flying_nth [OF i(1) p] by simp_all
    then have "marked b c ?c"
      using p i by (intro mark_one [OF assms i(1)]) (simp_all add: entry_of_def sent_ok_def in_network_def)
    note m = conn_ok_marked [OF assms this]
    have "tmr_ok b ?c" using m(1) by (simp add: conn_ok_def)
    then have "conn_ok b s0 lg (cut_window now ?c)"
      using conn_ok_core [OF cut_window_ok(1) m(1)] cut_window_ok(2) by blast
    moreover have "c_outbox (cut_window now ?c) = c_outbox c" "rcv_view (cut_window now ?c) = rcv_view c"
      "c_state (cut_window now ?c) \<in> {c_state c, Ended}"
      using cut_window_ok(1) [of now ?c] m by (simp_all add: core_def)
    ultimately have "goes b s0 lg c (Ret (cut_window now ?c))" by (rule goes_Ret)
    moreover have "lose_front now c = Ret (cut_window now ?c)"
      using Some True le(1) by (simp add: lose_front_def Let_def usize_sub_def)
    ultimately show ?thesis by simp
  qed
qed

lemma process_ack_goes:
  assumes "conn_ok b s0 lg c" "Suc b < 2 ^ 32"
  shows "goes (Suc b) s0 lg c (process_ack now pk c)"
proof (cases "c_in_flight c \<noteq> [] \<and> \<not> seq_le (pk_ack_nr pk) (c_seq_nr c - 1)")
  case True
  then show ?thesis using conn_ok_mono [OF assms(1), of "Suc b"] by (auto simp: process_ack_def Let_def intro: goes_Ret)
next
  case False
  obtain c1 a1 s1 where pop: "pop_acked now (pk_ack_nr pk) (c_in_flight c) c 0 None = Ret (c1, a1, s1)" and m1: "marked b c c1"
    using pop_acked_marked [OF assms(1), of now "pk_ack_nr pk" 0 None] by (auto simp: returns_iff)
  obtain c2 acked sample where sack: "sack_all now (sack_seqs (pk_ack_nr pk) (pk_sack pk)) (c1, a1, s1) = Ret (c2, acked, sample)"
    and m2: "marked b c1 c2"
    using sack_all_marked [OF conn_ok_marked(1) [OF assms(1) m1], of now "sack_seqs (pk_ack_nr pk) (pk_sack pk)" a1 s1]
    by (auto simp: returns_iff)
  note ok2 = conn_ok_marked [OF assms(1) marked_trans [OF m1 m2]]
  define c3 where "c3 = (case sample of None \<Rightarrow> c2 | Some d \<Rightarrow> update_rtt d c2)"
  have core3: "core c3 = core c2" by (simp add: c3_def update_rtt_ok split: option.split)
  have "tmr_ok b c3" using ok2(1) by (auto simp: c3_def conn_ok_def update_rtt_ok split: option.split)
  then have ok3: "conn_ok b s0 lg c3" using conn_ok_core [OF core3 ok2(1)] by blast
  let ?rest = "\<lambda>c. on_ret (if c_dup_acks c = DUP_ACK_THRESHOLD \<or> DUP_ACK_THRESHOLD \<le> length (filter s_sacked (c_in_flight c2))
      then lose_front now c else Ret c)
    (\<lambda>c. Ret (c\<lparr>c_rto_deadline := (if c_in_flight c = [] then None else Some (now + c_rto c))\<rparr>))"
  have rest: "goes (Suc b) s0 lg' c' (?rest (if seq_le (c_last_ack_nr c') (pk_ack_nr pk) then c'\<lparr>c_last_ack_nr := pk_ack_nr pk\<rparr> else c'))"
    if "conn_ok (Suc b) s0 lg' c'" for lg' c'
  proof -
    let ?c = "if seq_le (c_last_ack_nr c') (pk_ack_nr pk) then c'\<lparr>c_last_ack_nr := pk_ack_nr pk\<rparr> else c'"
    have "conn_ok (Suc b) s0 lg' ?c" using that by (simp add: conn_ok_def rcv_ok_def snd_ok_def tmr_ok_def unacked_def)
    then have "goes (Suc b) s0 lg' ?c (?rest ?c)"
      by (intro goes_bind [where b = "Suc b"]) (auto intro: lose_front_goes goes_Ret conn_ok_timers)
    then show ?thesis by (rule goes_extend [where es = "[]", simplified]) (simp_all add: stream_def rcv_view_def)
  qed
  have "goes (Suc b) s0 lg c3 (process_ack now pk c)"
    unfolding process_ack_def Let_def if_not_P [OF False] pop sack on_ret_simps prod.case c3_def [symmetric]
    by (rule goes_bind [OF count_ack_goes [OF ok3 assms(2)]]) (rule rest)
  then show ?thesis
    by (rule goes_extend [where es = "[]", simplified]) (use core3 ok2 in \<open>simp_all add: stream_def core_def\<close>)
qed

end
