(* ===== verification/Utp_Run.thy ===== *)
theory Utp_Run
  imports Utp_Safe
begin

text \<open>
  A uTP connection over its whole life. Every call its owner can make keeps the
  invariant, so whatever packets arrive, in whatever order and at whatever times,
  the code does not panic and stays within its bounds.
\<close>

section \<open>Timers\<close>

lemma lose_all_returns:
  "list_all (sent_ok b) ps \<Longrightarrow> flying ps \<le> cur \<Longrightarrow> returns (lose_all ps cur) (\<lambda>(ps', cur').
     map entry_of ps' = map entry_of ps \<and> flying ps' = 0 \<and> cur' = cur - flying ps \<and> list_all (sent_ok b) ps')"
proof (induction ps arbitrary: cur)
  case Nil
  then show ?case by simp
next
  case (Cons p ps)
  have ok: "sent_ok b p" "list_all (sent_ok b) ps" using Cons.prems by simp_all
  show ?case
  proof (cases "\<not> s_sacked p \<and> \<not> s_lost p")
    case True
    let ?cur = "cur - length (s_payload p)"
    have f: "flying ps \<le> ?cur" "usize_sub cur (length (s_payload p)) = Ret ?cur"
      using True Cons.prems by (simp_all add: in_network_def usize_sub_def)
    have "sent_ok b (p\<lparr>s_lost := True\<rparr>)" "entry_of (p\<lparr>s_lost := True\<rparr>) = entry_of p"
      using ok True by (simp_all add: sent_ok_def entry_of_def)
    then show ?thesis
      using True f by (auto intro!: returns_mono [OF Cons.IH [OF ok(2) f(1)]] simp: in_network_def)
  next
    case False
    then have f: "flying ps \<le> cur" "\<not> in_network p" using Cons.prems by (simp_all add: in_network_def)
    then show ?thesis
      using False ok by (auto intro!: returns_mono [OF Cons.IH [OF ok(2) f(1)]])
  qed
qed

lemma send_syn_again_goes:
  assumes "conn_ok b s0 lg c" "c_syn_attempts c < MAX_SYN_ATTEMPTS"
  shows "goes b s0 lg c (send_syn_again now c)"
proof -
  let ?c = "c\<lparr>c_syn_attempts := c_syn_attempts c + 1\<rparr>"
  have inc: "u32_inc (c_syn_attempts c) = Ret (c_syn_attempts c + 1)"
    using assms(2) by (simp add: u32_inc_def MAX_SYN_ATTEMPTS_def)
  have "conn_ok b s0 lg ?c"
    using assms by (simp add: conn_ok_def rcv_ok_def snd_ok_def tmr_ok_def unacked_def)
  then have "goes b s0 lg ?c (queue now Syn (c_seq_nr c - 1) [] ?c)" by (intro queue_goes) simp_all
  then have "goes b s0 lg c (queue now Syn (c_seq_nr c - 1) [] ?c)"
    by (rule goes_extend [where es = "[]", simplified]) (simp_all add: stream_def rcv_view_def)
  then show ?thesis
    unfolding send_syn_again_def inc on_ret_simps
    by (rule goes_bind) (auto intro: goes_Ret conn_ok_timers)
qed

lemma syn_timeout_goes:
  assumes ok: "conn_ok b s0 lg c" and "Suc (Suc b) < 2 ^ 32" "c_state c = Connecting"
  shows "goes (Suc b) s0 lg c (on_timeout now c)"
proof (cases "MAX_SYN_ATTEMPTS \<le> c_syn_attempts c")
  case True
  with assms conn_ok_mono [OF ok, of "Suc b"] show ?thesis
    by (auto simp: on_timeout_def intro!: goes_Ret conn_ok_ended)
next
  case False
  let ?c = "c\<lparr>c_rto := min (c_rto c * 2) MAX_RTO\<rparr>"
  have "tmr_ok (Suc b) ?c" using ok by (auto simp: conn_ok_def tmr_ok_def)
  then have c: "conn_ok (Suc b) s0 lg ?c" using ok by (intro conn_ok_core [OF _ ok]) (simp_all add: core_def rcv_view_def)
  let ?bump = "case c_in_flight ?c of [] \<Rightarrow> Ret ?c
    | syn # rest \<Rightarrow> on_ret (u32_inc (s_transmissions syn)) (\<lambda>n. Ret (?c\<lparr>c_in_flight := syn\<lparr>s_transmissions := n, s_sent_at := now\<rparr> # rest\<rparr>))"
  have bump: "goes (Suc b) s0 lg c ?bump \<and> returns ?bump (\<lambda>c'. c_syn_attempts c' = c_syn_attempts c)"
  proof (cases "c_in_flight ?c")
    case Nil
    with c show ?thesis by (auto intro!: goes_Ret simp: rcv_view_def)
  next
    case (Cons p ps)
    let ?p = "p\<lparr>s_transmissions := s_transmissions p + 1, s_sent_at := now\<rparr>"
    have p: "sent_ok b p" "list_all (sent_ok b) ps" "c_cur_window c = flying (p # ps)"
      using ok Cons by (simp_all add: conn_ok_def snd_ok_def)
    then have inc: "u32_inc (s_transmissions p) = Ret (s_transmissions p + 1)"
      using assms(2) by (simp add: u32_inc_def sent_ok_def)
    have "list_all (sent_ok (Suc b)) (?p # ps)"
      using p by (auto simp: sent_ok_def list_all_iff)
    moreover have "map entry_of (?p # ps) = map entry_of (c_in_flight ?c)" "c_cur_window ?c = flying (?p # ps)"
      using p Cons by (simp_all add: entry_of_def in_network_def)
    ultimately have "conn_ok (Suc b) s0 lg (?c\<lparr>c_in_flight := ?p # ps, c_cur_window := c_cur_window ?c\<rparr>)"
      by (intro conn_ok_flight [OF c]) simp_all
    moreover have "?c\<lparr>c_in_flight := ?p # ps, c_cur_window := c_cur_window ?c\<rparr> = ?c\<lparr>c_in_flight := ?p # ps\<rparr>" by simp
    ultimately have "conn_ok (Suc b) s0 lg (?c\<lparr>c_in_flight := ?p # ps\<rparr>)" by simp
    then show ?thesis unfolding Cons list.case inc on_ret_simps by (auto intro!: goes_Ret simp: rcv_view_def)
  qed
  have "goes (Suc b) s0 lg c (on_ret ?bump (send_syn_again now))"
  proof (rule goes_bind [OF conjunct1 [OF bump]])
    fix es c' assume "conn_ok (Suc b) s0 (lg @ es) c'" "?bump = Ret c'"
    then show "goes (Suc b) s0 (lg @ es) c' (send_syn_again now c')"
      using bump False by (intro send_syn_again_goes) simp_all
  qed
  then show ?thesis using assms(3) False by (simp add: on_timeout_def Let_def)
qed

lemma on_timeout_goes:
  assumes ok: "conn_ok b s0 lg c" and "Suc (Suc b) < 2 ^ 32" "c_state c \<noteq> Ended"
  shows "goes (Suc b) s0 lg c (on_timeout now c)"
proof (cases "c_state c = Connecting")
  case True
  with assms show ?thesis by (intro syn_timeout_goes)
next
  case False
  have t: "tmr_ok b c" "list_all (sent_ok b) (c_in_flight c)" "c_cur_window c = flying (c_in_flight c)"
    using ok by (simp_all add: conn_ok_def snd_ok_def)
  then have inc: "u32_inc (c_timeouts c) = Ret (c_timeouts c + 1)"
    using assms(3) by (simp add: tmr_ok_def u32_inc_def MAX_TIMEOUTS_def)
  show ?thesis
  proof (cases "MAX_TIMEOUTS < c_timeouts c + 1")
    case True
    let ?c = "fail TimedOut (c\<lparr>c_timeouts := c_timeouts c + 1\<rparr>)"
    have "conn_ok (Suc b) s0 lg ?c"
      using conn_ok_mono [OF ok, of "Suc b"] by (simp add: fail_def conn_ok_def rcv_ok_def snd_ok_def tmr_ok_def unacked_def)
    then have "goes (Suc b) s0 lg c (Ret ?c)" by (rule goes_Ret) (simp_all add: fail_def rcv_view_def)
    then show ?thesis using True False by (simp add: on_timeout_def inc)
  next
    case small: False
    obtain ps cur where l: "lose_all (c_in_flight c) (c_cur_window c) = Ret (ps, cur)" and
      ps: "map entry_of ps = map entry_of (c_in_flight c)" "flying ps = 0" "cur = 0" "list_all (sent_ok b) ps"
      using lose_all_returns [OF t(2), of "c_cur_window c"] t(3) by (auto simp: returns_iff)
    have "conn_ok (Suc b) s0 lg (c\<lparr>c_in_flight := ps, c_cur_window := cur\<rparr>)"
      using ps by (intro conn_ok_flight [OF ok]) (auto simp: list_all_iff intro: sent_ok_mono)
    then have "goes (Suc b) s0 lg c (Ret (c\<lparr>c_timeouts := c_timeouts c + 1, c_in_flight := ps, c_cur_window := cur,
        c_ssthresh := x, c_max_window := MIN_WINDOW, c_slow_start := True, c_rto := min (c_rto c * 2) MAX_RTO,
        c_rto_deadline := d\<rparr>))" for x d
      using small by (intro goes_Ret)
        (auto simp: conn_ok_def rcv_ok_def snd_ok_def tmr_ok_def unacked_def rcv_view_def window_bounds)
    then show ?thesis using False small by (simp add: on_timeout_def inc l Let_def)
  qed
qed

lemma on_tick_goes:
  assumes ok: "conn_ok b s0 lg c" and "Suc (Suc (Suc b)) < 2 ^ 32"
  shows "goes (Suc (Suc b)) s0 lg c (on_tick now c)"
proof -
  note up = conn_ok_mono [OF ok]
  consider (ended) "c_state c = Ended" | (dead) "c_state c \<noteq> Ended" "DEAD_AFTER \<le> now - c_last_heard c"
    | (live) "c_state c \<noteq> Ended" "\<not> DEAD_AFTER \<le> now - c_last_heard c" by blast
  then show ?thesis
  proof cases
    case ended
    with up [of "Suc (Suc b)"] show ?thesis by (auto simp: on_tick_def intro: goes_Ret)
  next
    case dead
    with up [of "Suc (Suc b)"] show ?thesis by (auto simp: on_tick_def intro!: goes_Ret conn_ok_ended)
  next
    case live
    have t: "goes (Suc b) s0 lg c (case c_rto_deadline c of None \<Rightarrow> Ret c
        | Some deadline \<Rightarrow> if deadline \<le> now then on_timeout now c else Ret c)"
      using on_timeout_goes [OF ok _ live(1)] assms(2) goes_Ret [OF up [of "Suc b"]] by (auto split: option.split)
    show ?thesis
      unfolding on_tick_def if_not_P [OF live(1)] if_not_P [OF live(2)]
    proof (rule goes_bind [OF t])
      fix es c' assume c': "conn_ok (Suc b) s0 (lg @ es) c'"
      have "goes (Suc b) s0 (lg @ es) c' (if c_state c' = Open \<and> KEEPALIVE \<le> now - c_last_sent c' then send_state now c' else Ret c')"
        using send_state_goes [OF c'] goes_Ret [OF c'] by simp
      then show "goes (Suc (Suc b)) s0 (lg @ es) c'
          (on_ret (if c_state c' = Open \<and> KEEPALIVE \<le> now - c_last_sent c' then send_state now c' else Ret c') (flush now))"
        by (rule goes_bind) (rule flush_goes, assumption, rule assms(2))
    qed
  qed
qed

section \<open>Packets\<close>

lemma conn_ok_received:
  assumes "conn_ok b s0 lg c" "rcv_changed c c'" "rcv_ok c'"
  shows "conn_ok b s0 lg c'" "c_outbox c' = c_outbox c" "c_state c' = c_state c"
proof -
  obtain p i m n a f q where c': "c' = c\<lparr>c_ack_pending := p, c_inbox := i, c_reorder := m, c_reorder_bytes := n,
     c_ack_nr := a, c_fin_seq := f, c_peer_closed := q\<rparr>" using assms(2) by (auto simp: rcv_changed_def)
  then show "conn_ok b s0 lg c'" "c_outbox c' = c_outbox c" "c_state c' = c_state c"
    using assms(1,3) by (simp_all add: conn_ok_def snd_ok_def tmr_ok_def unacked_def)
qed

text \<open>
  What a packet does to the receiving side: one of the stream is received, the answer to a
  request fixes where the stream begins, and nothing else touches it.
\<close>

definition rcv_step :: "packet \<Rightarrow> connection \<Rightarrow> connection \<Rightarrow> bool" where
  "rcv_step pk c c' \<longleftrightarrow>
     (if c_state c = Open \<and> (pk_kind pk = Data \<or> pk_kind pk = Fin) then
        \<exists>c1 c2. rcv_view c1 = rcv_view c \<and> c_state c1 \<noteq> Connecting \<and> rcv_ok c1 \<and> receive pk c1 = Ret c2 \<and> rcv_view c' = rcv_view c2
      else if c_state c = Connecting \<and> pk_kind pk = State then rcv_view c' = rcv_view (c\<lparr>c_ack_nr := pk_seq_nr pk - 1\<rparr>)
      else rcv_view c' = rcv_view c)
     \<and> (c_state c' = Connecting \<longrightarrow> c_state c = Connecting \<and> pk_kind pk \<noteq> State)"

definition steps :: "nat \<Rightarrow> u16 \<Rightarrow> entry list \<Rightarrow> connection \<Rightarrow> connection outcome \<Rightarrow> (connection \<Rightarrow> bool) \<Rightarrow> bool" where
  "steps b s0 lg c r Q \<longleftrightarrow> returns r (\<lambda>c'. \<exists>es. conn_ok b s0 (lg @ es) c' \<and> stream (lg @ es) c' = stream lg c \<and> Q c')"

lemma goes_steps:
  assumes "goes b s0 lg c1 r" "c_outbox c1 = c_outbox c"
    "\<And>c'. r = Ret c' \<Longrightarrow> rcv_view c' = rcv_view c1 \<Longrightarrow> c_state c' \<in> {c_state c1, Ended} \<Longrightarrow> Q c'"
  shows "steps b s0 lg c r Q"
proof -
  have "stream lg c1 = stream lg c" using assms(2) by (simp add: stream_def)
  then show ?thesis
    unfolding steps_def by (intro returns_mono [OF assms(1) [unfolded goes_def]]) (metis assms(3))
qed

lemma stream_packet_steps:
  assumes ok: "conn_ok b s0 lg c" and "Suc (Suc (Suc b)) < 2 ^ 32" "c_state c = Open" "pk_kind pk = Data \<or> pk_kind pk = Fin"
  shows "steps (Suc (Suc b)) s0 lg c (on_packet now pk c) (rcv_step pk c)"
proof -
  let ?c = "c\<lparr>c_last_heard := now, c_reply_micro := micros c now - pk_timestamp pk, c_peer_window := pk_wnd_size pk\<rparr>"
  have "conn_ok b s0 lg ?c" using ok by (simp add: conn_ok_def rcv_ok_def snd_ok_def tmr_ok_def unacked_def)
  then have "goes (Suc b) s0 lg ?c (process_ack now pk ?c)" using assms(2) by (intro process_ack_goes) simp_all
  then obtain c1 es1 where p: "process_ack now pk ?c = Ret c1" and ok1: "conn_ok (Suc b) s0 (lg @ es1) c1"
    and s1: "stream (lg @ es1) c1 = stream lg c" and v1: "rcv_view c1 = rcv_view c" and st1: "c_state c1 \<noteq> Connecting"
    using assms(3) by (auto simp: goes_def returns_iff stream_def rcv_view_def)
  have rcv1: "rcv_ok c1" using ok1 by (simp add: conn_ok_def)
  obtain c2 where r: "receive pk c1 = Ret c2" and rcv2: "rcv_ok c2" "rcv_changed c1 c2"
    using receive_returns [OF rcv1 st1] by (auto simp: returns_iff)
  note ok2 = conn_ok_received [OF ok1 rcv2(2,1)]
  have "goes (Suc (Suc b)) s0 (lg @ es1) c2 (flush now c2)" using assms(2) by (intro flush_goes [OF ok2(1)]) simp
  then obtain c3 es2 where f: "flush now c2 = Ret c3" and ok3: "conn_ok (Suc (Suc b)) s0 (lg @ es1 @ es2) c3"
    and s3: "stream (lg @ es1 @ es2) c3 = stream (lg @ es1) c2" and v3: "rcv_view c3 = rcv_view c2" and st3: "c_state c3 \<noteq> Connecting"
    using st1 ok2(3) by (auto simp: goes_def returns_iff)
  have eq: "on_packet now pk c = Ret c3"
    using assms(3,4) p r f by (auto simp: on_packet_def Let_def)
  have "stream (lg @ es1 @ es2) c3 = stream lg c" using s1 s3 ok2(2) by (simp add: stream_def)
  moreover have "rcv_step pk c c3" using assms(3,4) v1 st1 rcv1 r v3 st3 by (auto simp: rcv_step_def)
  ultimately show ?thesis unfolding steps_def eq returns_simps using ok3 by blast
qed

lemma ended_packet_steps:
  assumes "conn_ok b s0 lg c" "c_state c = Ended"
  shows "steps b s0 lg c (on_packet now pk c) (rcv_step pk c)"
  using assms by (intro goes_steps [where ?c1.0 = c])
    (auto simp: on_packet_def rcv_step_def intro: send_state_goes goes_Ret)

lemma reset_packet_steps:
  assumes "conn_ok b s0 lg c" "c_state c \<noteq> Ended" "pk_kind pk = Reset"
  shows "steps b s0 lg c (on_packet now pk c) (rcv_step pk c)"
proof -
  have "conn_ok b s0 lg (c\<lparr>c_last_heard := now, c_reply_micro := m\<rparr>)" for m using assms(1) by (rule conn_ok_timers)
  then have "conn_ok b s0 lg (c\<lparr>c_last_heard := now, c_reply_micro := m, c_in_flight := [], c_cur_window := 0\<rparr>)" for m
    by (rule conn_ok_flight) simp_all
  from conn_ok_ended(2) [OF this] show ?thesis
    using assms(2,3) by (auto simp: on_packet_def Let_def rcv_step_def rcv_view_def fail_def steps_def stream_def intro!: exI [of _ "[]"])
qed

lemma answer_packet_steps:
  assumes ok: "conn_ok b s0 lg c" and "Suc (Suc (Suc b)) < 2 ^ 32" "c_state c = Connecting" "pk_kind pk \<noteq> Reset"
  shows "steps (Suc (Suc b)) s0 lg c (on_packet now pk c) (rcv_step pk c)"
proof (cases "pk_kind pk = State")
  case False
  let ?c = "c\<lparr>c_last_heard := now, c_reply_micro := micros c now - pk_timestamp pk\<rparr>"
  have "conn_ok (Suc b) s0 lg ?c" by (rule conn_ok_timers [OF conn_ok_mono [OF ok]]) simp
  then have "goes (Suc (Suc b)) s0 lg ?c (flush now ?c)" using assms(2) by (intro flush_goes) simp_all
  then show ?thesis
    using assms(3,4) False
    by (intro goes_steps [where ?c1.0 = ?c]) (auto simp: on_packet_def Let_def rcv_step_def rcv_view_def)
next
  case True
  let ?c = "c\<lparr>c_last_heard := now, c_reply_micro := micros c now - pk_timestamp pk, c_state := Open,
    c_ack_nr := pk_seq_nr pk - 1, c_peer_window := pk_wnd_size pk\<rparr>"
  have "conn_ok b s0 lg ?c"
    using ok assms(3) by (auto simp: conn_ok_def rcv_ok_def snd_ok_def tmr_ok_def unacked_def ahead_ok_def)
  then have "goes (Suc b) s0 lg ?c (process_ack now pk ?c)" using assms(2) by (intro process_ack_goes) simp_all
  then have "goes (Suc (Suc b)) s0 lg ?c (on_ret (process_ack now pk ?c) (flush now))"
    by (rule goes_bind) (rule flush_goes, assumption, rule assms(2))
  then show ?thesis
    using assms(3,4) True
    by (intro goes_steps [where ?c1.0 = ?c]) (auto simp: on_packet_def Let_def rcv_step_def rcv_view_def)
qed

lemma other_packet_steps:
  assumes ok: "conn_ok b s0 lg c" and "Suc (Suc (Suc b)) < 2 ^ 32" "c_state c = Open" "pk_kind pk = State \<or> pk_kind pk = Syn"
  shows "steps (Suc (Suc b)) s0 lg c (on_packet now pk c) (rcv_step pk c)"
proof -
  let ?c = "c\<lparr>c_last_heard := now, c_reply_micro := micros c now - pk_timestamp pk, c_peer_window := pk_wnd_size pk\<rparr>"
  have "conn_ok b s0 lg ?c" using ok by (simp add: conn_ok_def rcv_ok_def snd_ok_def tmr_ok_def unacked_def)
  then have ack: "goes (Suc b) s0 lg ?c (process_ack now pk ?c)" using assms(2) by (intro process_ack_goes) simp_all
  let ?next = "\<lambda>c. on_ret (if pk_kind pk = Syn then Ret (c\<lparr>c_ack_pending := True\<rparr>) else Ret c) (flush now)"
  have step: "goes (Suc (Suc b)) s0 lg' c' (?next c')" if "conn_ok (Suc b) s0 lg' c'" for lg' c'
  proof -
    have "goes (Suc b) s0 lg' c' (if pk_kind pk = Syn then Ret (c'\<lparr>c_ack_pending := True\<rparr>) else Ret c')"
      using that by (auto intro!: goes_Ret conn_ok_timers simp: rcv_view_def)
    then show ?thesis by (rule goes_bind) (rule flush_goes, assumption, rule assms(2))
  qed
  have "goes (Suc (Suc b)) s0 lg ?c (on_ret (process_ack now pk ?c) ?next)" by (rule goes_bind [OF ack]) (rule step)
  moreover have "on_packet now pk c = on_ret (process_ack now pk ?c) ?next"
    using assms(3,4) by (auto simp: on_packet_def Let_def)
  ultimately show ?thesis
    using assms(3,4) by (intro goes_steps [where ?c1.0 = ?c]) (auto simp: rcv_step_def rcv_view_def)
qed

lemma steps_mono: "steps b s0 lg c r Q \<Longrightarrow> b \<le> b' \<Longrightarrow> steps b' s0 lg c r Q"
  unfolding steps_def by (erule returns_mono) (blast intro: conn_ok_mono)

lemma on_packet_steps:
  assumes "conn_ok b s0 lg c" "Suc (Suc (Suc b)) < 2 ^ 32"
  shows "steps (Suc (Suc b)) s0 lg c (on_packet now pk c) (rcv_step pk c)"
proof -
  consider (ended) "c_state c = Ended" | (reset) "c_state c \<noteq> Ended" "pk_kind pk = Reset"
    | (answer) "c_state c = Connecting" "pk_kind pk \<noteq> Reset" | (data) "c_state c = Open" "pk_kind pk = Data \<or> pk_kind pk = Fin"
    | (other) "c_state c = Open" "pk_kind pk = State \<or> pk_kind pk = Syn"
    by (cases "c_state c"; cases "pk_kind pk") auto
  then show ?thesis
  proof cases
    case ended
    from ended_packet_steps [OF assms(1) this] show ?thesis by (rule steps_mono) simp
  next
    case reset
    from reset_packet_steps [OF assms(1) this] show ?thesis by (rule steps_mono) simp
  next
    case answer
    with assms show ?thesis by (rule answer_packet_steps)
  next
    case data
    with assms show ?thesis by (rule stream_packet_steps)
  next
    case other
    with assms show ?thesis by (rule other_packet_steps)
  qed
qed

section \<open>Running the model\<close>

text \<open>
  To run a connection on concrete packets: the definitions, and congruences that leave a
  continuation alone until what it continues from is known.
\<close>

lemma on_ret_weak: "r = r' \<Longrightarrow> on_ret r k = on_ret r' k"
  by simp

lemmas run_congs = on_ret_weak let_weak_cong option.case_cong_weak list.case_cong_weak prod.case_cong_weak

lemmas run_consts = RECEIVE_BUFFER_def SEND_BUFFER_def INITIAL_RTO_def MIN_RTO_def MAX_RTO_def secs_def millis_def
  MAX_PAYLOAD_def MAX_PACKET_def HEADER_LEN_def DUP_ACK_THRESHOLD_def MAX_SYN_ATTEMPTS_def MAX_TIMEOUTS_def
  KEEPALIVE_def DEAD_AFTER_def REORDER_WINDOW_def window_bounds

lemmas run_simps = run_consts Let_def connect_from_def accept_def new_def send_syn_def send_syn_again_def send_state_def fresh_def
  queue_def header_def micros_def receive_window_def selective_ack_def on_packet_def on_tick_def on_timeout_def process_ack_def
  seq_le_def in_network_def usize_sub_def u32_inc_def sack_seqs_def enumerate_eq_zip update_rtt_def count_ack_def lose_front_def
  clamp_def f64_to_nat_def flush_def send_pending_def send_new.simps send_fin_def send_one_def probe_def finish_if_done_def
  receive_def drain_reorder.simps fail_def iter_position_def conn_write_def conn_read_def unacked_def take_outgoing_def close_def

section \<open>A whole life\<close>

text \<open>What the owner of a connection can do with it.\<close>

datatype conn_op = Packet instant packet | Tick instant | Flush instant | Write bytes | Read nat | Close | Abort instant | Take

fun perform :: "conn_op \<Rightarrow> connection \<Rightarrow> connection outcome" where
  "perform (Packet now pk) c = on_packet now pk c"
| "perform (Tick now) c = on_tick now c"
| "perform (Flush now) c = flush now c"
| "perform (Write data) c = Ret (snd (conn_write data c))"
| "perform (Read n) c = Ret (snd (conn_read n c))"
| "perform Close c = Ret (close c)"
| "perform (Abort now) c = abort now c"
| "perform Take c = Ret (snd (take_outgoing c))"

definition utp_step :: "conn_op \<Rightarrow> nat \<times> connection outcome \<Rightarrow> nat \<times> connection outcome" where
  "utp_step oper s = (Suc (fst s), on_ret (snd s) (perform oper))"

text \<open>The two ways a connection begins.\<close>

definition opened :: "u16 \<Rightarrow> connection outcome \<Rightarrow> bool" where
  "opened s0 r \<longleftrightarrow> (\<exists>now recv_id. r = connect_from now recv_id s0) \<or> (\<exists>now syn. r = accept now syn s0)"

lemma new_ok: "conn_ok 0 s0 [] (new now state send_id recv_id s0)"
  by (simp add: conn_ok_def rcv_ok_def snd_ok_def tmr_ok_def new_def seq_at_def held_bytes_def ahead_ok_def log_ok_def
      unacked_def window_bounds INITIAL_RTO_def MAX_RTO_def secs_def)

lemma connect_from_ok:
  "returns (connect_from now recv_id s0) (\<lambda>c. conn_ok 0 s0 [(Syn, [])] c \<and> c_outbox c = [] \<and> c_inbox c = [] \<and> c_state c = Connecting
     \<and> c_fin_seq c = None \<and> \<not> c_peer_closed c)"
proof -
  let ?n = "new now Connecting (recv_id + 1) recv_id s0"
  let ?c = "?n\<lparr>c_syn_attempts := 1, c_in_flight := c_in_flight ?n @ [fresh (c_seq_nr ?n) Syn [] now]\<rparr>"
  have rcv: "rcv_ok ?c" using new_ok [of s0 now Connecting "recv_id + 1" recv_id] by (simp add: conn_ok_def rcv_ok_def)
  obtain d pk where q: "queue now Syn (c_seq_nr ?n) [] ?c = Ret (queued now Syn d ?c)" and d: "packet_decode d = Inr pk"
    "length d \<le> MAX_PACKET" "pk_kind pk = Syn"
    using queue_returns [OF rcv, of "[]" Syn now "c_seq_nr ?n"] by auto
  have "conn_ok 0 s0 ([] @ [(Syn, [])]) (?n\<lparr>c_outbox := [], c_seq_nr := c_seq_nr ?n + 1, c_fin_sent := False,
    c_cur_window := c_cur_window ?n + length ([] :: bytes), c_in_flight := c_in_flight ?n @ [fresh (c_seq_nr ?n) Syn [] now]\<rparr>)"
    by (rule conn_ok_number [OF new_ok]) (simp_all add: entry_ok_def new_def)
  moreover have "carried s0 [(Syn, [])] d" using d by (simp add: carried_def)
  ultimately show ?thesis
    unfolding connect_from_def send_syn_def q on_ret_simps returns_simps
    by (simp add: queued_def new_def conn_ok_def rcv_ok_def snd_ok_def tmr_ok_def unacked_def MAX_SYN_ATTEMPTS_def)
qed

lemma accept_ok:
  "returns (accept now syn s0) (\<lambda>c. conn_ok 0 s0 [] c \<and> c_outbox c = [] \<and> c_inbox c = [] \<and> c_reorder c = [] \<and> c_ack_nr c = pk_seq_nr syn
     \<and> c_state c = Open \<and> c_fin_seq c = None \<and> \<not> c_peer_closed c)"
proof -
  let ?n = "new now Open (pk_connection_id syn) (pk_connection_id syn + 1) s0"
  let ?c = "?n\<lparr>c_ack_nr := pk_seq_nr syn, c_peer_window := pk_wnd_size syn, c_reply_micro := micros ?n now - pk_timestamp syn\<rparr>"
  have ok: "conn_ok 0 s0 [] ?c"
    using new_ok [of s0 now Open "pk_connection_id syn" "pk_connection_id syn + 1"]
    by (simp add: conn_ok_def rcv_ok_def snd_ok_def tmr_ok_def unacked_def ahead_ok_def new_def)
  then have rcv: "rcv_ok ?c" by (simp add: conn_ok_def)
  obtain d pk where q: "send_state now ?c = Ret (queued now State d ?c)" and d: "packet_decode d = Inr pk"
    "length d \<le> MAX_PACKET" "pk_kind pk = State"
    using queue_returns [OF rcv, of "[]" State now "c_seq_nr ?c"] unfolding send_state_def by auto
  have "carried s0 [] d" using d by (simp add: carried_def)
  then have "conn_ok 0 s0 [] (queued now State d ?c)" by (rule conn_ok_queued [OF ok])
  then show ?thesis unfolding accept_def Let_def q returns_simps by (simp add: queued_def new_def)
qed

text \<open>Bytes put on the outbox, and bytes taken from the inbox.\<close>

lemma conn_ok_outbox:
  assumes "conn_ok b s0 lg c" "\<not> c_fin_pending c" "unacked c + length d \<le> SEND_BUFFER"
  shows "conn_ok b s0 lg (c\<lparr>c_outbox := c_outbox c @ d\<rparr>)"
proof -
  have "snd_ok b s0 lg c" using assms(1) by (simp add: conn_ok_def)
  then have "snd_ok b s0 lg (c\<lparr>c_outbox := c_outbox c @ d\<rparr>)"
    using assms(2,3) unfolding snd_ok_def by (elim conjE, intro conjI) (simp_all add: unacked_def)
  with assms(1) show ?thesis by (simp add: conn_ok_def rcv_ok_def tmr_ok_def)
qed

lemma conn_ok_inbox:
  assumes "conn_ok b s0 lg c" "length i \<le> length (c_inbox c)"
  shows "conn_ok b s0 lg (c\<lparr>c_inbox := i\<rparr>)" "conn_ok b s0 lg (c\<lparr>c_inbox := i, c_ack_pending := a\<rparr>)"
proof -
  have "rcv_ok c" using assms(1) by (simp add: conn_ok_def)
  then have "rcv_ok (c\<lparr>c_inbox := i\<rparr>)" using assms(2) unfolding rcv_ok_def by auto
  with assms(1) show "conn_ok b s0 lg (c\<lparr>c_inbox := i\<rparr>)" by (simp add: conn_ok_def snd_ok_def unacked_def tmr_ok_def)
  then show "conn_ok b s0 lg (c\<lparr>c_inbox := i, c_ack_pending := a\<rparr>)" by (rule conn_ok_timers(2))
qed

lemma write_view:
  "stream lg (snd (conn_write data c)) = stream lg c @ take (fst (conn_write data c)) data"
  "rcv_view (snd (conn_write data c)) = rcv_view c" "c_state (snd (conn_write data c)) = c_state c"
  by (simp_all add: conn_write_def Let_def stream_def rcv_view_def)

lemma write_ok: "conn_ok b s0 lg c \<Longrightarrow> conn_ok b s0 lg (snd (conn_write data c))"
proof (cases "c_state c = Ended \<or> c_fin_pending c")
  case False
  assume ok: "conn_ok b s0 lg c"
  then have "unacked c \<le> SEND_BUFFER" by (simp add: conn_ok_def snd_ok_def)
  with ok False show ?thesis by (auto simp: conn_write_def Let_def intro!: conn_ok_outbox)
qed (simp add: conn_write_def)

lemma read_view:
  "stream lg (snd (conn_read n c)) = stream lg c" "c_state (snd (conn_read n c)) = c_state c"
  "fst (conn_read n c) @ c_inbox (snd (conn_read n c)) = c_inbox c"
  "rcv_view (snd (conn_read n c)) = rcv_view (c\<lparr>c_inbox := c_inbox (snd (conn_read n c))\<rparr>)"
  by (simp_all add: conn_read_def Let_def stream_def rcv_view_def)

lemma read_ok: "conn_ok b s0 lg c \<Longrightarrow> conn_ok b s0 lg (snd (conn_read n c))"
  unfolding conn_read_def Let_def snd_conv by (split if_split) (simp add: conn_ok_inbox)

lemma close_ok:
  assumes "conn_ok b s0 lg c"
  shows "conn_ok b s0 lg (close c)" "conn_ok b s0 lg (snd (take_outgoing c))"
  using assms by (auto simp: close_def take_outgoing_def conn_ok_def rcv_ok_def snd_ok_def tmr_ok_def unacked_def)

lemma goes_ok: "goes b s0 lg c r \<Longrightarrow> returns r (\<lambda>c'. \<exists>lg'. conn_ok b s0 lg' c')"
  unfolding goes_def by (erule returns_mono) blast

lemma perform_ok:
  assumes ok: "conn_ok b s0 lg c" and "Suc (Suc (Suc b)) < 2 ^ 32"
  shows "returns (perform oper c) (\<lambda>c'. \<exists>lg'. conn_ok (Suc (Suc b)) s0 lg' c')"
proof -
  note up = conn_ok_mono [OF ok, of "Suc (Suc b)", simplified]
  show ?thesis
  proof (cases oper)
    case (Packet now pk)
    show ?thesis unfolding Packet perform.simps
      by (rule returns_mono [OF on_packet_steps [OF assms, unfolded steps_def]]) blast
  next
    case (Tick now)
    show ?thesis unfolding Tick perform.simps by (rule goes_ok [OF on_tick_goes [OF assms]])
  next
    case (Flush now)
    have "conn_ok (Suc b) s0 lg c" by (rule conn_ok_mono [OF ok]) simp
    then show ?thesis unfolding Flush perform.simps using assms(2) by (intro goes_ok [OF flush_goes]) simp_all
  next
    case (Abort now)
    show ?thesis unfolding Abort perform.simps by (rule goes_ok [OF abort_goes [OF up]])
  qed (use write_ok [OF up] read_ok [OF up] close_ok [OF up] in \<open>auto intro!: exI [of _ lg]\<close>)
qed

definition utp_inv :: "nat \<times> connection outcome \<Rightarrow> bool" where
  "utp_inv s \<longleftrightarrow> (fst s < 2 ^ 31 - 1 \<longrightarrow> (\<exists>s0. returns (snd s) (\<lambda>c. \<exists>lg. conn_ok (2 * fst s) s0 lg c)))"

interpretation utp_machine: machine utp_step utp_inv
proof
  fix s oper
  assume inv: "utp_inv s"
  show "utp_inv (utp_step oper s)"
    unfolding utp_inv_def
  proof
    assume n: "fst (utp_step oper s) < 2 ^ 31 - 1"
    then obtain s0 c lg where c: "snd s = Ret c" "conn_ok (2 * fst s) s0 lg c"
      using inv by (auto simp: utp_inv_def utp_step_def returns_iff)
    have "Suc (Suc (Suc (2 * fst s))) < 2 ^ 32" using n by (simp add: utp_step_def)
    from perform_ok [OF c(2) this, of oper] show "\<exists>s0. returns (snd (utp_step oper s)) (\<lambda>c. \<exists>lg. conn_ok (2 * fst (utp_step oper s)) s0 lg c)"
      by (auto simp: utp_step_def c(1))
  qed
qed

lemma opened_ok: "opened s0 r \<Longrightarrow> returns r (\<lambda>c. \<exists>lg. conn_ok 0 s0 lg c)"
  unfolding opened_def
  using returns_mono [OF connect_from_ok] returns_mono [OF accept_ok] by (metis (no_types, lifting))

lemma utp_fold: "fold utp_step ops (n, r) = (n + length ops, fold (\<lambda>oper r. on_ret r (perform oper)) ops r)"
  by (induction ops arbitrary: n r) (simp_all add: utp_step_def)

text \<open>
  C6: Whatever the owner does with a connection, and whatever packets arrive at whatever
  times, no operation panics: no subtraction goes below zero and no counter of 32 bits
  overflows, for as many as two thousand million operations. The bytes counted as in the
  network are those of the packets in flight that are neither acknowledged nor presumed
  lost; what is held for the application and what it has queued stay within their buffers;
  the packets held out of order are those from 2 to 64 ahead; every datagram fits a packet
  and is a packet a peer can read; the congestion window and the retransmission timeout
  stay within their bounds.
\<close>

theorem utp_never_panics:
  assumes "opened s0 r" and "length ops < 2 ^ 31 - 1"
  shows "\<exists>c. fold (\<lambda>oper r. on_ret r (perform oper)) ops r = Ret c
    \<and> c_cur_window c = flying (c_in_flight c) \<and> unacked c \<le> SEND_BUFFER
    \<and> c_reorder_bytes c = held_bytes (c_reorder c) \<and> length (c_inbox c) + c_reorder_bytes c \<le> RECEIVE_BUFFER
    \<and> (\<forall>e\<in>set (c_reorder c). 2 \<le> unat (fst e - c_ack_nr c) \<and> unat (fst e - c_ack_nr c) \<le> 64)
    \<and> (\<forall>d\<in>set (c_outgoing c). length d \<le> MAX_PACKET \<and> (\<exists>pk. packet_decode d = Inr pk))
    \<and> 1400 \<le> c_max_window c \<and> c_max_window c \<le> 16 * 1024 * 1024 \<and> c_rto c \<le> MAX_RTO"
proof -
  have "utp_inv (0, r)" using opened_ok [OF assms(1)] by (auto simp: utp_inv_def)
  then have "utp_inv (fold utp_step ops (0, r))" by (rule utp_machine.inv_run)
  then obtain t0 lg c where c: "fold (\<lambda>oper r. on_ret r (perform oper)) ops r = Ret c" "conn_ok (2 * length ops) t0 lg c"
    using assms(2) by (auto simp: utp_inv_def utp_fold returns_iff)
  then show ?thesis
    by (auto simp: conn_ok_def rcv_ok_def snd_ok_def tmr_ok_def ahead_ok_def window_bounds list_all_iff carried_def)
qed

definition sample_syn :: packet where
  "sample_syn = \<lparr>pk_kind = Syn, pk_connection_id = 7, pk_timestamp = 0, pk_timestamp_diff = 0, pk_wnd_size = 100000,
     pk_seq_nr = 1, pk_ack_nr = 0, pk_sack = [], pk_payload = []\<rparr>"

definition sample_life :: "conn_op list" where
  "sample_life = [Write [1, 2, 3], Flush 5, Packet 9 (sample_syn\<lparr>pk_kind := Data, pk_seq_nr := 3, pk_payload := [7]\<rparr>),
     Tick (secs 2), Read 10, Close, Flush (secs 3), Take]"

theorem utp_never_panics_witness:
  "\<exists>c. fold (\<lambda>oper r. on_ret r (perform oper)) sample_life (accept 0 sample_syn 65535) = Ret c
    \<and> c_cur_window c = flying (c_in_flight c) \<and> unacked c \<le> SEND_BUFFER"
proof -
  have "opened 65535 (accept 0 sample_syn 65535)" by (auto simp: opened_def)
  moreover have "length sample_life < 2 ^ 31 - 1" by (simp add: sample_life_def)
  ultimately show ?thesis using utp_never_panics [of 65535 "accept 0 sample_syn 65535" sample_life] by blast
qed

end
