(* ===== verification/Utp_Delivery.thy ===== *)
theory Utp_Delivery
  imports Utp_Run
begin

text \<open>
  From one end of a uTP connection to the other: whatever the network loses, delays,
  repeats or reorders, the bytes read at the far end are the bytes written at the near
  one, in order and without a gap, and the end of the stream is seen only after all of
  them. Sequence numbers have sixteen bits, so a packet must not arrive after tens of
  thousands of later ones have.
\<close>

section \<open>Histories\<close>

text \<open>A connection with what its owner has seen of it.\<close>

record history =
  h_conn :: connection
  h_sent :: "bytes list"
  h_written :: bytes
  h_read :: bytes
  h_count :: nat

definition begun :: "nat \<Rightarrow> connection \<Rightarrow> history" where
  "begun n c = \<lparr>h_conn = c, h_sent = [], h_written = [], h_read = [], h_count = n\<rparr>"

definition sent_by :: "conn_op \<Rightarrow> connection \<Rightarrow> bytes list" where
  "sent_by oper c = (case oper of Take \<Rightarrow> fst (take_outgoing c) | _ \<Rightarrow> [])"

definition written_by :: "conn_op \<Rightarrow> connection \<Rightarrow> bytes" where
  "written_by oper c = (case oper of Write data \<Rightarrow> take (fst (conn_write data c)) data | _ \<Rightarrow> [])"

definition read_by :: "conn_op \<Rightarrow> connection \<Rightarrow> bytes" where
  "read_by oper c = (case oper of Read n \<Rightarrow> fst (conn_read n c) | _ \<Rightarrow> [])"

definition live :: "conn_op \<Rightarrow> history \<Rightarrow> history outcome" where
  "live oper h =
     (let c = h_conn h in
      on_ret (perform oper c) (\<lambda>c'.
        Ret \<lparr>h_conn = c', h_sent = h_sent h @ sent_by oper c, h_written = h_written h @ written_by oper c,
             h_read = h_read h @ read_by oper c, h_count = h_count h + unat (c_ack_nr c' - c_ack_nr c)\<rparr>))"

primrec live_all :: "conn_op list \<Rightarrow> history \<Rightarrow> history outcome" where
  "live_all [] h = Ret h"
| "live_all (oper # ops) h = on_ret (live oper h) (live_all ops)"

text \<open>
  A packet of the stream that arrives is one the sender numbered, and neither so old nor so
  far ahead that its number means another.
\<close>

definition timely :: "nat \<Rightarrow> nat \<Rightarrow> bool" where
  "timely n i \<longleftrightarrow> n \<le> i + 65472 \<and> i < n + 65536"

definition carries :: "u16 \<Rightarrow> entry list \<Rightarrow> nat \<Rightarrow> packet \<Rightarrow> bool" where
  "carries s0 lg i pk \<longleftrightarrow> i < length lg \<and> pk_seq_nr pk = seq_at s0 i \<and> lg ! i = (pk_kind pk, pk_payload pk)"

definition feeds :: "u16 \<Rightarrow> entry list \<Rightarrow> nat \<Rightarrow> conn_op \<Rightarrow> bool" where
  "feeds s0 lg n oper =
     (case oper of
        Packet now pk \<Rightarrow>
          pk_kind pk = Data \<or> pk_kind pk = Fin \<longrightarrow> list_ex (\<lambda>i. carries s0 lg i pk \<and> timely n i) [0..<length lg]
      | _ \<Rightarrow> True)"

primrec fed :: "u16 \<Rightarrow> entry list \<Rightarrow> conn_op list \<Rightarrow> history \<Rightarrow> bool" where
  "fed s0 lg [] h = True"
| "fed s0 lg (oper # ops) h =
     (feeds s0 lg (h_count h) oper \<and> (case live oper h of Ret h' \<Rightarrow> fed s0 lg ops h' | Panic \<Rightarrow> True))"

section \<open>Numbers on the circle\<close>

lemma int_seq_diff:
  "int (unat (seq_at s0 i - (seq_at s0 n - 1))) = (int i + 1 - int n) mod 65536"
proof -
  have "seq_at s0 i - (seq_at s0 n - 1) = (of_int (int i + 1 - int n) :: u16)"
    by (simp add: seq_at_def)
  then show ?thesis by (simp only: uint_nat [symmetric] uint_word_of_int) simp
qed

lemma ahead_index:
  assumes "timely n i" "1 \<le> unat (seq_at s0 i - (seq_at s0 n - 1))" "unat (seq_at s0 i - (seq_at s0 n - 1)) \<le> 64"
  shows "i + 1 = n + unat (seq_at s0 i - (seq_at s0 n - 1))"
proof -
  let ?a = "int (unat (seq_at s0 i - (seq_at s0 n - 1)))"
  have a: "?a = (int i + 1 - int n) mod 65536" by (rule int_seq_diff)
  have b: "1 \<le> ?a" "?a \<le> 64" using assms(2,3) by linarith+
  have t: "int n \<le> int i + 65472" "int i < int n + 65536" using assms(1) by (simp_all add: timely_def)
  have "int i + 1 - int n = ?a"
  proof (cases "int n \<le> int i + 1")
    case True
    show ?thesis
    proof (cases "int i + 1 - int n = 65536")
      case True
      with a have "?a = 0" by (simp only: mod_self)
      with b show ?thesis by linarith
    next
      case False
      with True t a show ?thesis by simp
    qed
  next
    case False
    then have "(int i + 1 - int n) mod 65536 = int i + 1 - int n + 65536"
      using t by (subst mod_add_self2 [symmetric], intro mod_pos_pos_trivial) simp_all
    with a b t False show ?thesis by simp
  qed
  then show ?thesis by linarith
qed

lemma seq_at_inj: "seq_at s0 i = seq_at s0 j \<Longrightarrow> i < j + 65536 \<Longrightarrow> j < i + 65536 \<Longrightarrow> i = j"
proof -
  assume "seq_at s0 i = seq_at s0 j" and lt: "i < j + 65536" "j < i + 65536"
  then have "(of_nat i :: u16) = of_nat j" by (simp add: seq_at_def)
  then have "i mod 65536 = j mod 65536" by (simp add: word_unat_eq_iff unat_of_nat)
  then have "int (i mod 65536) = int (j mod 65536)" by (simp only:)
  then have "int i mod 65536 = int j mod 65536" by (simp only: of_nat_mod of_nat_numeral)
  then have "65536 dvd int i - int j" by (simp only: mod_eq_dvd_iff)
  then obtain q where q: "int i - int j = 65536 * q" by (elim dvdE)
  with lt have "q < 1" "- 1 < q" by linarith+
  with q show "i = j" by simp
qed

lemma seq_at_pred: "seq_at s0 (Suc n) - 1 = seq_at s0 n"
  by (simp add: seq_at_Suc)

section \<open>The receiving end\<close>

text \<open>What is held is that of packets of the log ahead of the position, from \<open>low\<close> on.\<close>

definition held_at :: "u16 \<Rightarrow> entry list \<Rightarrow> nat \<Rightarrow> nat \<Rightarrow> (u16 \<times> bytes) list \<Rightarrow> bool" where
  "held_at s0 lg low high m \<longleftrightarrow> (\<forall>e\<in>set m. \<exists>i. low \<le> i \<and> i < length lg \<and> i \<le> high \<and> fst e = seq_at s0 i \<and> snd (lg ! i) = snd e)"

definition got_at :: "u16 \<Rightarrow> entry list \<Rightarrow> nat \<Rightarrow> bytes \<Rightarrow> connection \<Rightarrow> bool" where
  "got_at s0 lg n got c \<longleftrightarrow> n \<le> length lg \<and> c_ack_nr c = seq_at s0 n - 1
     \<and> got @ c_inbox c = concat (map snd (take n lg))"

definition fin_at :: "u16 \<Rightarrow> entry list \<Rightarrow> nat \<Rightarrow> connection \<Rightarrow> bool" where
  "fin_at s0 lg n c \<longleftrightarrow>
     (\<forall>f. c_fin_seq c = Some f \<longrightarrow> (\<exists>i. i < length lg \<and> i \<le> n + 63 \<and> f = seq_at s0 i \<and> fst (lg ! i) = Fin))
     \<and> (c_peer_closed c \<longrightarrow> n = length lg \<and> lg \<noteq> [] \<and> fst (last lg) = Fin)"

definition rcv_at :: "u16 \<Rightarrow> entry list \<Rightarrow> nat \<Rightarrow> bytes \<Rightarrow> connection \<Rightarrow> bool" where
  "rcv_at s0 lg n got c \<longleftrightarrow> got_at s0 lg n got c \<and> held_at s0 lg (Suc n) (n + 63) (c_reorder c) \<and> fin_at s0 lg n c"

lemma rcv_at_view: "rcv_view c' = rcv_view c \<Longrightarrow> rcv_at s0 lg n got c' = rcv_at s0 lg n got c"
  by (simp add: rcv_at_def got_at_def fin_at_def rcv_view_eq)

lemma got_step:
  assumes "got_at s0 lg n got c" "n < length lg" "snd (lg ! n) = payload"
    "c_inbox c' = c_inbox c @ payload" "c_ack_nr c' = c_ack_nr c + 1"
  shows "got_at s0 lg (Suc n) got c'"
  using assms by (simp add: got_at_def take_Suc_conv_app_nth seq_at_pred flip: append_assoc)

lemma held_weaken: "held_at s0 lg low high m \<Longrightarrow> high \<le> high' \<Longrightarrow> held_at s0 lg low high' m"
  unfolding held_at_def by (meson order_trans)

lemma drain_at:
  assumes "drain_reorder c = Ret c'" "got_at s0 lg n got c" "held_at s0 lg n high (c_reorder c)" "high < n + 65536"
  shows "\<exists>n'. n \<le> n' \<and> n' \<le> max n (Suc high) \<and> got_at s0 lg n' got c' \<and> held_at s0 lg (Suc n') high (c_reorder c')
    \<and> c_fin_seq c' = c_fin_seq c \<and> c_peer_closed c' = c_peer_closed c"
  using assms
proof (induction c arbitrary: n rule: drain_reorder.induct)
  case (1 c)
  have ack: "c_ack_nr c + 1 = seq_at s0 n" using "1.prems"(2) by (simp add: got_at_def)
  show ?case
  proof (cases "map_of (c_reorder c) (c_ack_nr c + 1)")
    case None
    then have "fst e \<noteq> seq_at s0 n" if "e \<in> set (c_reorder c)" for e
      using that unfolding ack map_of_eq_None_iff by (metis imageI)
    with "1.prems"(3) have "held_at s0 lg (Suc n) high (c_reorder c)"
      unfolding held_at_def by (metis Suc_leI le_neq_implies_less)
    moreover have "c' = c" using "1.prems"(1) None by (subst (asm) drain_reorder.simps) simp
    ultimately show ?thesis using "1.prems"(2) by (intro exI [of _ n]) simp
  next
    case (Some payload)
    let ?n = "c_reorder_bytes c - length payload"
    let ?c = "c\<lparr>c_reorder := al_remove (c_ack_nr c + 1) (c_reorder c), c_reorder_bytes := ?n,
       c_inbox := c_inbox c @ payload, c_ack_nr := c_ack_nr c + 1\<rparr>"
    have sub: "usize_sub (c_reorder_bytes c) (length payload) = Ret ?n" and rest: "drain_reorder ?c = Ret c'"
      using "1.prems"(1) Some by (subst (asm) drain_reorder.simps, auto simp: usize_sub_def split: if_splits)+
    have "(seq_at s0 n, payload) \<in> set (c_reorder c)" using map_of_SomeD [OF Some] by (simp add: ack)
    then obtain i where i: "n \<le> i" "i < length lg" "i \<le> high" "seq_at s0 n = seq_at s0 i" "snd (lg ! i) = payload"
      using "1.prems"(3) by (fastforce simp: held_at_def)
    have "n = i" using i "1.prems"(4) by (intro seq_at_inj [OF i(4)]) simp_all
    with i have n: "n < length lg" "n \<le> high" "snd (lg ! n) = payload" by simp_all
    have got: "got_at s0 lg (Suc n) got ?c" using "1.prems"(2) n by (intro got_step [of s0 lg n got c]) simp_all
    have held: "held_at s0 lg (Suc n) high (c_reorder ?c)"
      unfolding held_at_def
    proof
      fix e assume "e \<in> set (c_reorder ?c)"
      then have e: "e \<in> set (c_reorder c)" "fst e \<noteq> seq_at s0 n" by (auto simp: al_remove_def ack)
      with "1.prems"(3) show "\<exists>i\<ge>Suc n. i < length lg \<and> i \<le> high \<and> fst e = seq_at s0 i \<and> snd (lg ! i) = snd e"
        unfolding held_at_def by (metis Suc_leI le_neq_implies_less)
    qed
    from "1.IH" [OF Some sub rest got held] "1.prems"(4) obtain n' where
      "Suc n \<le> n'" "n' \<le> max (Suc n) (Suc high)" "got_at s0 lg n' got c'" "held_at s0 lg (Suc n') high (c_reorder c')"
      "c_fin_seq c' = c_fin_seq c" "c_peer_closed c' = c_peer_closed c" by auto
    then show ?thesis using n by (intro exI [of _ n']) auto
  qed
qed

lemma held_keep:
  assumes "held_at s0 lg low high m" "low \<le> i" "i < length lg" "i \<le> high" "snd (lg ! i) = p"
  shows "held_at s0 lg low high (bt_insert (seq_at s0 i) p m)"
  unfolding held_at_def
proof
  fix e assume "e \<in> set (bt_insert (seq_at s0 i) p m)"
  then consider "e = (seq_at s0 i, p)" | "e \<in> set m" using set_bt_insert [of "seq_at s0 i" p m] by blast
  then show "\<exists>i\<ge>low. i < length lg \<and> i \<le> high \<and> fst e = seq_at s0 i \<and> snd (lg ! i) = snd e"
  proof cases
    case 1
    with assms show ?thesis by (intro exI [of _ i]) simp
  next
    case 2
    with assms(1) show ?thesis by (simp add: held_at_def)
  qed
qed

text \<open>The FIN is the last packet of the log.\<close>

lemma fin_is_last: "log_ok lg \<Longrightarrow> i < length lg \<Longrightarrow> fst (lg ! i) = Fin \<Longrightarrow> Suc i = length lg"
proof (rule ccontr)
  assume ok: "log_ok lg" and i: "i < length lg" "fst (lg ! i) = Fin" and "Suc i \<noteq> length lg"
  then have "i < length (butlast lg)" by simp
  then have "lg ! i \<in> set (butlast lg)" by (metis nth_butlast nth_mem)
  with ok i show False by (simp add: log_ok_def list_all_iff)
qed

lemma closed_at:
  assumes "log_ok lg" "got_at s0 lg n got c" "fin_at s0 lg n c"
  shows "fin_at s0 lg n (closed_if c)"
proof (cases "c_fin_seq c = Some (c_ack_nr c)")
  case True
  with assms(3) obtain i where i: "i < length lg" "i \<le> n + 63" "c_ack_nr c = seq_at s0 i" "fst (lg ! i) = Fin"
    by (auto simp: fin_at_def)
  have last: "Suc i = length lg" using assms(1) i(1,4) by (rule fin_is_last)
  have n: "n \<le> length lg" "c_ack_nr c = seq_at s0 n - 1" using assms(2) by (simp_all add: got_at_def)
  then have "seq_at s0 n = seq_at s0 (Suc i)" using i(3) by (simp add: seq_at_Suc diff_eq_eq)
  then have "n = Suc i" using n last i(2) by (intro seq_at_inj) simp_all
  moreover have "last lg = lg ! i" "lg \<noteq> []" using last by (cases lg rule: rev_cases; simp add: nth_append)+
  ultimately show ?thesis using assms(3) last True i(4) unfolding closed_if_def fin_at_def by simp
qed (use assms(3) in \<open>simp add: closed_if_def\<close>)

lemma fin_later:
  assumes "fin_at s0 lg n c" "n \<le> n'" "n' \<le> length lg" "c_fin_seq c' = c_fin_seq c" "c_peer_closed c' = c_peer_closed c"
  shows "fin_at s0 lg n' c'"
  unfolding fin_at_def
proof (intro conjI allI impI)
  fix f assume "c_fin_seq c' = Some f"
  then obtain i where "i < length lg" "i \<le> n + 63" "f = seq_at s0 i" "fst (lg ! i) = Fin" using assms(1,4) by (auto simp: fin_at_def)
  with assms(2) show "\<exists>i<length lg. i \<le> n' + 63 \<and> f = seq_at s0 i \<and> fst (lg ! i) = Fin" by (intro exI [of _ i]) simp
qed (use assms in \<open>simp_all add: fin_at_def\<close>)

lemma noted_at:
  assumes "fin_at s0 lg n c" "carries s0 lg i pk" "i \<le> n + 63"
  shows "fin_at s0 lg n (noted pk c)"
  using assms by (auto simp: noted_def fin_at_def carries_def)

text \<open>A packet of the log advances the position past what can now be read, or is kept for later.\<close>

lemma receive_at:
  assumes rcv: "rcv_at s0 lg n got c" and log: "log_ok lg" and pk: "carries s0 lg i pk" "timely n i"
    and ret: "receive pk c = Ret c'"
  shows "\<exists>n'. n \<le> n' \<and> n' \<le> n + 64 \<and> rcv_at s0 lg n' got c' \<and> (i = n \<and> \<not> refused pk c \<longrightarrow> n < n')"
proof -
  have got: "got_at s0 lg n got c" and held: "held_at s0 lg (Suc n) (n + 63) (c_reorder c)" and fin: "fin_at s0 lg n c"
    using rcv by (simp_all add: rcv_at_def)
  have ack: "c_ack_nr c = seq_at s0 n - 1" and sq: "pk_seq_nr pk = seq_at s0 i" using got pk(1) by (simp_all add: got_at_def carries_def)
  have i: "i < length lg" "snd (lg ! i) = pk_payload pk" using pk(1) by (simp_all add: carries_def)
  show ?thesis
  proof (cases "refused pk c")
    case True
    then have "rcv_at s0 lg n got c'" using ret rcv by (auto simp: receive_eq rcv_at_def got_at_def fin_at_def)
    then show ?thesis using True by (intro exI [of _ n]) simp
  next
    case False
    let ?a = "unat (seq_at s0 i - (seq_at s0 n - 1))"
    have "1 \<le> ?a" using False by (simp add: refused_def ack sq Suc_le_eq unat_gt_0)
    moreover have "?a \<le> 64" using False by (simp add: refused_def REORDER_WINDOW_def word_le_nat_alt not_less ack sq)
    ultimately have a: "i + 1 = n + ?a" "1 \<le> ?a" "?a \<le> 64" using ahead_index [OF pk(2)] by blast+
    then have near: "n \<le> i" "i \<le> n + 63" by linarith+
    note finn = noted_at [OF fin pk(1) near(2)]
    show ?thesis
    proof (cases "pk_seq_nr pk = c_ack_nr c + 1")
      case True
      let ?c = "(noted pk c)\<lparr>c_inbox := c_inbox c @ pk_payload pk, c_ack_nr := pk_seq_nr pk\<rparr>"
      have "seq_at s0 i = seq_at s0 n" using True by (simp add: ack sq)
      then have eq: "i = n" using near by (intro seq_at_inj) simp_all
      have g: "got_at s0 lg (Suc n) got ?c"
        using got i eq True by (intro got_step [of s0 lg n got c]) simp_all
      obtain c1 where d: "drain_reorder ?c = Ret c1" "c' = closed_if c1"
        using ret False True by (auto simp: receive_eq res_iff)
      from drain_at [OF d(1) g, of "n + 63"] held obtain n' where n': "Suc n \<le> n'" "n' \<le> n + 64" "got_at s0 lg n' got c1"
        "held_at s0 lg (Suc n') (n + 63) (c_reorder c1)" "c_fin_seq c1 = c_fin_seq (noted pk c)" "c_peer_closed c1 = c_peer_closed (noted pk c)"
        by auto
      have "fin_at s0 lg n' c1"
        using n' by (intro fin_later [OF finn]) (simp_all add: got_at_def)
      then have "fin_at s0 lg n' c'" unfolding d(2) by (rule closed_at [OF log n'(3)])
      moreover have "got_at s0 lg n' got c'" "held_at s0 lg (Suc n') (n' + 63) (c_reorder c')"
        using n' held_weaken [OF n'(4), of "n' + 63"] by (auto simp: d(2) closed_if_def got_at_def)
      ultimately show ?thesis using n' by (intro exI [of _ n']) (simp add: rcv_at_def)
    next
      case early: False
      then have "seq_at s0 i \<noteq> seq_at s0 n" by (simp add: ack sq)
      then have later: "Suc n \<le> i" using near by (metis Suc_leI le_neq_implies_less)
      then have h: "held_at s0 lg (Suc n) (n + 63) (c_reorder (kept pk (noted pk c)))"
        using held held_keep [OF held _ i(1) near(2) i(2)] by (simp add: kept_def sq)
      have g: "got_at s0 lg n got (kept pk (noted pk c))" using got by (simp add: got_at_def kept_def)
      have "fin_at s0 lg n (kept pk (noted pk c))" using finn by (simp add: fin_at_def kept_def)
      then have "fin_at s0 lg n (closed_if (kept pk (noted pk c)))" by (rule closed_at [OF log g])
      with g h have "rcv_at s0 lg n got (closed_if (kept pk (noted pk c)))"
        by (auto simp: rcv_at_def closed_if_def got_at_def)
      moreover have "c' = closed_if (kept pk (noted pk c))" using ret False early by (simp add: receive_eq)
      ultimately show ?thesis using later by (intro exI [of _ n]) simp
    qed
  qed
qed

section \<open>One operation\<close>

text \<open>What an operation does to the receiving side.\<close>

definition rcv_effect :: "conn_op \<Rightarrow> connection \<Rightarrow> connection \<Rightarrow> bool" where
  "rcv_effect oper c c' =
     (case oper of
        Packet now pk \<Rightarrow> rcv_step pk c c'
      | Read n \<Rightarrow> rcv_view c' = rcv_view (c\<lparr>c_inbox := c_inbox c'\<rparr>) \<and> read_by oper c @ c_inbox c' = c_inbox c \<and> c_state c' = c_state c
      | _ \<Rightarrow> rcv_view c' = rcv_view c \<and> c_state c' \<in> {c_state c, Ended})"

definition does :: "nat \<Rightarrow> u16 \<Rightarrow> entry list \<Rightarrow> conn_op \<Rightarrow> connection \<Rightarrow> connection \<Rightarrow> bool" where
  "does b s0 lg oper c c' \<longleftrightarrow> (\<exists>es. conn_ok b s0 (lg @ es) c' \<and> stream (lg @ es) c' = stream lg c @ written_by oper c \<and> rcv_effect oper c c')"

lemma goes_does:
  assumes "goes b s0 lg c r" "written_by oper c = []"
    "\<And>c'. rcv_view c' = rcv_view c \<Longrightarrow> c_state c' \<in> {c_state c, Ended} \<Longrightarrow> rcv_effect oper c c'"
  shows "returns r (does b s0 lg oper c)"
  using assms(1) unfolding goes_def by (rule returns_mono) (use assms(2,3) in \<open>auto simp: does_def\<close>)

lemma does_same:
  "conn_ok b s0 lg c' \<Longrightarrow> stream lg c' = stream lg c @ written_by oper c \<Longrightarrow> rcv_effect oper c c' \<Longrightarrow> does b s0 lg oper c c'"
  unfolding does_def by (intro exI [of _ "[]"]) simp

lemma perform_does:
  assumes ok: "conn_ok b s0 lg c" and "Suc (Suc (Suc b)) < 2 ^ 32"
  shows "returns (perform oper c) (does (Suc (Suc b)) s0 lg oper c)"
proof -
  note up = conn_ok_mono [OF ok, of "Suc (Suc b)", simplified]
  show ?thesis
  proof (cases oper)
    case (Packet now pk)
    then show ?thesis
      using on_packet_steps [OF assms, of now pk] by (simp add: steps_def does_def [abs_def] written_by_def rcv_effect_def)
  next
    case (Tick now)
    then show ?thesis using goes_does [OF on_tick_goes [OF assms], where oper = oper] by (simp add: written_by_def rcv_effect_def)
  next
    case (Flush now)
    have "conn_ok (Suc b) s0 lg c" by (rule conn_ok_mono [OF ok]) simp
    from goes_does [OF flush_goes [OF this assms(2)], where oper = oper] show ?thesis using Flush by (simp add: written_by_def rcv_effect_def)
  next
    case (Abort now)
    then show ?thesis using goes_does [OF abort_goes [OF up], where oper = oper] by (simp add: written_by_def rcv_effect_def)
  next
    case (Write data)
    then show ?thesis
      using write_ok [OF up, of data] write_view(1) [of lg data c] write_view(2,3) [of data c] by (auto simp: written_by_def rcv_effect_def intro!: does_same)
  next
    case (Read n)
    then show ?thesis
      using read_ok [OF up, of n] read_view(1) [of lg n c] read_view(2-4) [of n c] by (auto simp: written_by_def rcv_effect_def read_by_def intro!: does_same)
  qed (use close_ok [OF up] in \<open>auto simp: close_def take_outgoing_def stream_def written_by_def rcv_effect_def rcv_view_def intro!: does_same\<close>)
qed

section \<open>The sending end\<close>

definition snd_hist :: "nat \<Rightarrow> u16 \<Rightarrow> entry list \<Rightarrow> history \<Rightarrow> bool" where
  "snd_hist k s0 lg h \<longleftrightarrow> conn_ok (2 * k) s0 lg (h_conn h) \<and> stream lg (h_conn h) = h_written h \<and> list_all (carried s0 lg) (h_sent h)"

lemma live_snd:
  assumes "snd_hist k s0 lg h" "Suc k < 2 ^ 31 - 1"
  shows "returns (live oper h) (\<lambda>h'. \<exists>es. snd_hist (Suc k) s0 (lg @ es) h')"
proof -
  have ok: "conn_ok (2 * k) s0 lg (h_conn h)" and "Suc (Suc (Suc (2 * k))) < 2 ^ 32"
    using assms by (simp_all add: snd_hist_def)
  then have "returns (perform oper (h_conn h)) (does (2 * Suc k) s0 lg oper (h_conn h))" using perform_does [OF ok] by simp
  moreover have "list_all (carried s0 lg) (h_sent h @ sent_by oper (h_conn h))"
    using assms(1) ok by (auto simp: snd_hist_def sent_by_def take_outgoing_def conn_ok_def snd_ok_def split: conn_op.split)
  then have "list_all (carried s0 (lg @ es)) (h_sent h @ sent_by oper (h_conn h))" for es
    by (rule list.pred_mono_strong) (rule carried_append)
  ultimately show ?thesis
    using assms(1) unfolding live_def Let_def returns_simps
    by (elim returns_mono) (fastforce simp: does_def snd_hist_def)
qed

lemma live_all_snd:
  "snd_hist k s0 lg h \<Longrightarrow> k + length ops < 2 ^ 31 - 1 \<Longrightarrow>
     returns (live_all ops h) (\<lambda>h'. \<exists>es. snd_hist (k + length ops) s0 (lg @ es) h')"
proof (induction ops arbitrary: k lg h)
  case Nil
  then show ?case by (auto intro!: exI [of _ "[]"])
next
  case (Cons oper ops)
  from Cons.prems have "returns (live oper h) (\<lambda>h'. \<exists>es. snd_hist (Suc k) s0 (lg @ es) h')" by (intro live_snd) simp_all
  then obtain h' es where h': "live oper h = Ret h'" "snd_hist (Suc k) s0 (lg @ es) h'" by (auto simp: returns_iff)
  have "returns (live_all ops h') (\<lambda>h''. \<exists>es'. snd_hist (Suc k + length ops) s0 ((lg @ es) @ es') h'')"
    using Cons.prems by (intro Cons.IH [OF h'(2)]) simp
  then show ?case unfolding live_all.simps h'(1) on_ret_simps
    by (rule returns_mono) (metis add_Suc_shift append_assoc length_Cons)
qed

section \<open>The receiving end, over its life\<close>

definition rcv_hist :: "nat \<Rightarrow> u16 \<Rightarrow> u16 \<Rightarrow> entry list \<Rightarrow> history \<Rightarrow> bool" where
  "rcv_hist k t0 s0 lg h \<longleftrightarrow> (\<exists>lg'. conn_ok (2 * k) t0 lg' (h_conn h)) \<and> c_state (h_conn h) \<noteq> Connecting
     \<and> rcv_at s0 lg (h_count h) (h_read h) (h_conn h)"

lemma count_moved: "n \<le> n' \<Longrightarrow> n' \<le> n + 64 \<Longrightarrow> n + unat (seq_at s0 n' - 1 - (seq_at s0 n - 1)) = n'"
proof -
  assume n: "n \<le> n'" "n' \<le> n + 64"
  have "seq_at s0 n' - 1 - (seq_at s0 n - 1) = of_nat (n' - n)" using n by (simp add: seq_at_def)
  moreover have "unat (of_nat m :: u16) = m" if "m \<le> 64" for m using that by (simp add: unat_of_nat)
  then have "unat (of_nat (n' - n) :: u16) = n' - n" using n by (simp add: le_diff_conv add.commute del: of_nat_diff)
  ultimately show ?thesis using n by simp
qed

lemma rcv_at_ack: "rcv_at s0 lg n got c \<Longrightarrow> c_ack_nr c = seq_at s0 n - 1"
  by (simp add: rcv_at_def got_at_def)

lemma rcv_at_same:
  "rcv_at s0 lg n got c \<Longrightarrow> rcv_view c' = rcv_view c \<Longrightarrow> rcv_at s0 lg (n + unat (c_ack_nr c' - c_ack_nr c)) got c'"
  using rcv_at_view [of c' c s0 lg n got] by (simp add: rcv_view_eq)

lemma refused_view: "rcv_view c' = rcv_view c \<Longrightarrow> refused pk c' = refused pk c"
  by (simp add: refused_def rcv_view_eq receive_window_def)

lemma packet_at:
  assumes rcv: "rcv_at s0 lg n got c" and log: "log_ok lg" and st: "c_state c \<noteq> Connecting"
    and feeds: "feeds s0 lg n (Packet now pk)" and step: "rcv_step pk c c'"
  defines "n' \<equiv> n + unat (c_ack_nr c' - c_ack_nr c)"
  shows "c_state c' \<noteq> Connecting \<and> rcv_at s0 lg n' got c'"
    "c_state c = Open \<Longrightarrow> pk_kind pk = Data \<or> pk_kind pk = Fin \<Longrightarrow> carries s0 lg n pk \<Longrightarrow> \<not> refused pk c \<Longrightarrow> n < n'"
proof -
  have "(c_state c' \<noteq> Connecting \<and> rcv_at s0 lg n' got c') \<and>
      (c_state c = Open \<and> (pk_kind pk = Data \<or> pk_kind pk = Fin) \<and> carries s0 lg n pk \<and> \<not> refused pk c \<longrightarrow> n < n')"
  proof (cases "c_state c = Open \<and> (pk_kind pk = Data \<or> pk_kind pk = Fin)")
    case False
    then have "rcv_view c' = rcv_view c" "c_state c' \<noteq> Connecting" using step st by (auto simp: rcv_step_def split: if_splits)
    with False show ?thesis using rcv_at_same [OF rcv, of c'] unfolding n'_def by blast
  next
    case True
    then obtain c1 c2 where v: "rcv_view c1 = rcv_view c" "receive pk c1 = Ret c2" "rcv_view c' = rcv_view c2"
      using step by (auto simp: rcv_step_def)
    obtain i where i: "carries s0 lg i pk" "timely n i" using feeds True by (auto simp: feeds_def list_ex_iff)
    have "rcv_at s0 lg n got c1" using rcv rcv_at_view [OF v(1)] by simp
    from receive_at [OF this log i v(2)] obtain m where m: "n \<le> m" "m \<le> n + 64" "rcv_at s0 lg m got c2"
      "i = n \<and> \<not> refused pk c \<longrightarrow> n < m" using refused_view [OF v(1)] by blast
    then have r: "rcv_at s0 lg m got c'" using rcv_at_view [OF v(3)] by simp
    have moved: "n' = m"
      unfolding n'_def using count_moved [OF m(1,2)] by (simp add: rcv_at_ack [OF r] rcv_at_ack [OF rcv])
    moreover have "c_state c' \<noteq> Connecting" using step st by (auto simp: rcv_step_def)
    moreover have "i = n" if "carries s0 lg n pk"
      using that i by (intro seq_at_inj [of s0]) (auto simp: carries_def timely_def)
    ultimately show ?thesis using r m(4) by auto
  qed
  then show "c_state c' \<noteq> Connecting \<and> rcv_at s0 lg n' got c'"
    "c_state c = Open \<Longrightarrow> pk_kind pk = Data \<or> pk_kind pk = Fin \<Longrightarrow> carries s0 lg n pk \<Longrightarrow> \<not> refused pk c \<Longrightarrow> n < n'" by blast+
qed

lemma effect_at:
  assumes rcv: "rcv_at s0 lg n got c" and log: "log_ok lg" and st: "c_state c \<noteq> Connecting"
    and feeds: "feeds s0 lg n oper" and eff: "rcv_effect oper c c'"
  shows "c_state c' \<noteq> Connecting \<and> rcv_at s0 lg (n + unat (c_ack_nr c' - c_ack_nr c)) (got @ read_by oper c) c'"
proof (cases oper)
  case (Packet now pk)
  with packet_at(1) [OF rcv log st, of now pk c'] feeds eff show ?thesis by (simp add: rcv_effect_def read_by_def)
next
  case (Read m)
  then have v: "rcv_view c' = rcv_view (c\<lparr>c_inbox := c_inbox c'\<rparr>)" "read_by oper c @ c_inbox c' = c_inbox c" "c_state c' = c_state c"
    using eff by (simp_all add: rcv_effect_def)
  then show ?thesis using rcv st by (simp add: rcv_at_def got_at_def fin_at_def rcv_view_eq)
qed (use eff rcv_at_same [OF rcv, of c'] st in \<open>auto simp: rcv_effect_def read_by_def\<close>)

lemma live_rcv:
  assumes "rcv_hist k t0 s0 lg h" "log_ok lg" "feeds s0 lg (h_count h) oper" "Suc k < 2 ^ 31 - 1"
  shows "returns (live oper h) (rcv_hist (Suc k) t0 s0 lg)"
proof -
  obtain lg' where ok: "conn_ok (2 * k) t0 lg' (h_conn h)" and "Suc (Suc (Suc (2 * k))) < 2 ^ 32"
    using assms(1,4) by (auto simp: rcv_hist_def)
  then have d: "returns (perform oper (h_conn h)) (does (2 * Suc k) t0 lg' oper (h_conn h))" using perform_does [OF ok] by simp
  have r: "rcv_at s0 lg (h_count h) (h_read h) (h_conn h)" "c_state (h_conn h) \<noteq> Connecting"
    using assms(1) by (simp_all add: rcv_hist_def)
  show ?thesis
    unfolding live_def Let_def returns_simps
  proof (rule returns_mono [OF d])
    fix c' assume "does (2 * Suc k) t0 lg' oper (h_conn h) c'"
    then obtain es where e: "conn_ok (2 * Suc k) t0 (lg' @ es) c'" "rcv_effect oper (h_conn h) c'" by (auto simp: does_def)
    from effect_at [OF r(1) assms(2) r(2) assms(3) e(2)] e(1)
    show "rcv_hist (Suc k) t0 s0 lg \<lparr>h_conn = c', h_sent = h_sent h @ sent_by oper (h_conn h),
        h_written = h_written h @ written_by oper (h_conn h), h_read = h_read h @ read_by oper (h_conn h),
        h_count = h_count h + unat (c_ack_nr c' - c_ack_nr (h_conn h))\<rparr>"
      by (auto simp: rcv_hist_def)
  qed
qed

lemma live_all_rcv:
  "rcv_hist k t0 s0 lg h \<Longrightarrow> log_ok lg \<Longrightarrow> fed s0 lg ops h \<Longrightarrow> k + length ops < 2 ^ 31 - 1 \<Longrightarrow>
     returns (live_all ops h) (rcv_hist (k + length ops) t0 s0 lg)"
proof (induction ops arbitrary: k h)
  case (Cons oper ops)
  from Cons.prems have "returns (live oper h) (rcv_hist (Suc k) t0 s0 lg)" by (intro live_rcv) simp_all
  then obtain h' where h': "live oper h = Ret h'" "rcv_hist (Suc k) t0 s0 lg h'" by (auto simp: returns_iff)
  have "returns (live_all ops h') (rcv_hist (Suc k + length ops) t0 s0 lg)"
    using Cons.prems h'(1) by (intro Cons.IH [OF h'(2)]) simp_all
  then show ?case by (simp add: h'(1))
qed simp

text \<open>Where the two ends start.\<close>

lemma connect_hist:
  "returns (connect_from now recv_id s0) (\<lambda>c. snd_hist 0 s0 [(Syn, [])] (begun n c))"
  by (rule returns_mono [OF connect_from_ok]) (simp add: snd_hist_def begun_def stream_def)

lemma accept_hist:
  "pk_seq_nr syn = s0 \<Longrightarrow> returns (accept now syn t0) (\<lambda>c. rcv_hist 0 t0 s0 ((Syn, []) # es) (begun 1 c))"
  by (rule returns_mono [OF accept_ok])
    (auto simp: rcv_hist_def begun_def rcv_at_def got_at_def held_at_def fin_at_def seq_at_Suc seq_at_def)

lemma numbered_log_length: "log_ok lg \<Longrightarrow> length lg \<le> length (concat (map snd lg)) + 2"
proof -
  have data: "list_all (\<lambda>e. fst e = Data \<and> entry_ok e) es \<Longrightarrow> length es \<le> length (concat (map snd es))" for es
  proof (induction es)
    case (Cons e es)
    then have "0 < length (snd e)" by (auto simp: entry_ok_def)
    moreover have "length es \<le> length (concat (map snd es))" using Cons by simp
    ultimately have "Suc (length es) \<le> length (snd e) + length (concat (map snd es))" by linarith
    then show ?case by simp
  qed simp
  assume ok: "log_ok lg"
  show ?thesis
  proof (cases lg)
    case (Cons e es)
    show ?thesis
    proof (cases es rule: rev_cases)
      case (snoc ds f)
      have "fst d = Data" if "d \<in> set ds" for d
        using ok that by (auto simp: Cons snoc log_ok_def entry_ok_def list_all_iff butlast_append)
      then have "list_all (\<lambda>e. fst e = Data \<and> entry_ok e) ds" using ok by (auto simp: Cons snoc log_ok_def list_all_iff)
      from data [OF this] show ?thesis by (simp add: Cons snoc)
    qed (simp add: Cons)
  qed simp
qed

text \<open>The packet that comes next, if there is room for it, moves the position.\<close>

lemma next_moves:
  assumes h: "rcv_hist k t0 s0 lg h" "log_ok lg" "Suc k < 2 ^ 31 - 1" and st: "c_state (h_conn h) = Open"
    and pk: "carries s0 lg (h_count h) pk" "pk_kind pk = Data \<or> pk_kind pk = Fin"
    and room: "length (pk_payload pk) \<le> unat (receive_window (h_conn h))"
  shows "returns (live (Packet now pk) h) (\<lambda>h'. h_count h < h_count h')"
proof -
  let ?c = "h_conn h" and ?n = "h_count h"
  obtain lg' where ok: "conn_ok (2 * k) t0 lg' ?c" and "Suc (Suc (Suc (2 * k))) < 2 ^ 32"
    using h(1,3) by (auto simp: rcv_hist_def)
  then have d: "returns (perform (Packet now pk) ?c) (does (2 * Suc k) t0 lg' (Packet now pk) ?c)"
    using perform_does [OF ok, of "Packet now pk"] by (simp del: perform.simps)
  have r: "rcv_at s0 lg ?n (h_read h) ?c" "c_state ?c \<noteq> Connecting" using h(1) by (simp_all add: rcv_hist_def)
  have i: "?n < length lg" "timely ?n ?n" using pk(1) by (simp_all add: carries_def timely_def)
  then have f: "feeds s0 lg ?n (Packet now pk)" using pk(1) by (auto simp: feeds_def list_ex_iff intro!: bexI [of _ ?n])
  have "pk_seq_nr pk - c_ack_nr ?c = 1" using rcv_at_ack [OF r(1)] pk(1) by (simp add: carries_def)
  then have nr: "\<not> refused pk ?c" using room by (simp add: refused_def REORDER_WINDOW_def)
  show ?thesis
    unfolding live_def Let_def returns_simps
  proof (rule returns_mono [OF d])
    fix c' assume "does (2 * Suc k) t0 lg' (Packet now pk) ?c c'"
    then have step: "rcv_step pk ?c c'" by (auto simp: does_def rcv_effect_def)
    from packet_at(2) [OF r(1) h(2) r(2) f step st pk(2) pk(1) nr]
    show "?n < h_count \<lparr>h_conn = c', h_sent = h_sent h @ sent_by (Packet now pk) ?c, h_written = h_written h @ written_by (Packet now pk) ?c,
        h_read = h_read h @ read_by (Packet now pk) ?c, h_count = ?n + unat (c_ack_nr c' - c_ack_nr ?c)\<rparr>" by simp
  qed
qed

section \<open>From end to end\<close>

lemma closed_means_all:
  assumes a: "snd_hist k s0 lg ha" and b: "rcv_hist m t0 s0 lg hb"
  shows "prefix (h_read hb @ c_inbox (h_conn hb)) (h_written ha)"
    "c_peer_closed (h_conn hb) \<Longrightarrow> h_read hb @ c_inbox (h_conn hb) = h_written ha \<and> c_fin_pending (h_conn ha)"
proof -
  have w: "h_written ha = concat (map snd lg) @ c_outbox (h_conn ha)" using a by (simp add: snd_hist_def stream_def)
  have g: "h_read hb @ c_inbox (h_conn hb) = concat (map snd (take (h_count hb) lg))"
    and f: "c_peer_closed (h_conn hb) \<longrightarrow> h_count hb = length lg \<and> lg \<noteq> [] \<and> fst (last lg) = Fin"
    using b by (simp_all add: rcv_hist_def rcv_at_def got_at_def fin_at_def)
  have "concat (map snd lg) = concat (map snd (take (h_count hb) lg)) @ concat (map snd (drop (h_count hb) lg))"
    by (metis append_take_drop_id concat_append map_append)
  then show "prefix (h_read hb @ c_inbox (h_conn hb)) (h_written ha)" unfolding g w by simp
  have "c_fin_sent (h_conn ha) \<longleftrightarrow> lg \<noteq> [] \<and> fst (last lg) = Fin" "c_fin_sent (h_conn ha) \<longrightarrow> c_fin_pending (h_conn ha) \<and> c_outbox (h_conn ha) = []"
    using a by (simp_all add: snd_hist_def conn_ok_def snd_ok_def)
  then show "c_peer_closed (h_conn hb) \<Longrightarrow> h_read hb @ c_inbox (h_conn hb) = h_written ha \<and> c_fin_pending (h_conn ha)"
    using f unfolding g w by auto
qed

text \<open>
  C2: The bytes that arrive are the bytes that were sent. Whatever the initiator of a
  connection does and whatever packets reach it, the packets it sends are the entries of one
  log, and each datagram it hands over carries an entry under its number. Feed the accepting
  end with such packets in any order, any number of times, with any left out, as long as no
  packet comes tens of thousands of packets late; and with any other packets besides. Then it
  never panics, what its owner has read, with what is ready to be read, is a prefix of what
  was written, and once it has seen the end of the stream it is all of it and the writer has
  closed. The packet that comes next, when there is room for it, is always taken.
\<close>

theorem utp_delivers:
  assumes "length aops < 2 ^ 31 - 1" and "pk_seq_nr syn = s0"
  shows "\<exists>a ha lg b. connect_from now recv_id s0 = Ret a \<and> live_all aops (begun 0 a) = Ret ha
    \<and> length lg \<le> length (h_written ha) + 2
    \<and> (\<forall>d\<in>set (h_sent ha). \<exists>pk. packet_decode d = Inr pk
         \<and> (pk_kind pk = Data \<or> pk_kind pk = Fin \<longrightarrow> (\<exists>i. carries s0 lg i pk)))
    \<and> accept now' syn t0 = Ret b
    \<and> (\<forall>bops. length bops + 1 < 2 ^ 31 - 1 \<and> fed s0 lg bops (begun 1 b) \<longrightarrow>
         (\<exists>hb. live_all bops (begun 1 b) = Ret hb
          \<and> prefix (h_read hb @ c_inbox (h_conn hb)) (h_written ha)
          \<and> (c_peer_closed (h_conn hb) \<longrightarrow> h_read hb @ c_inbox (h_conn hb) = h_written ha \<and> c_fin_pending (h_conn ha))
          \<and> (\<forall>t pk. c_state (h_conn hb) = Open \<and> carries s0 lg (h_count hb) pk \<and> (pk_kind pk = Data \<or> pk_kind pk = Fin)
               \<and> length (pk_payload pk) \<le> unat (receive_window (h_conn hb)) \<longrightarrow>
               (\<exists>hb'. live (Packet t pk) hb = Ret hb' \<and> h_count hb < h_count hb'))))"
proof -
  obtain a where a: "connect_from now recv_id s0 = Ret a" "snd_hist 0 s0 [(Syn, [])] (begun 0 a)"
    using connect_hist [of now recv_id s0 0] by (auto simp: returns_iff)
  obtain ha es where ha: "live_all aops (begun 0 a) = Ret ha" and sh: "snd_hist (length aops) s0 ([(Syn, [])] @ es) ha"
    using live_all_snd [OF a(2), of aops] assms(1) by (auto simp: returns_iff)
  let ?lg = "(Syn, []) # es"
  obtain b where b: "accept now' syn t0 = Ret b" "rcv_hist 0 t0 s0 ?lg (begun 1 b)"
    using accept_hist [OF assms(2), of now' t0 es] by (auto simp: returns_iff)
  have log: "log_ok ?lg" and w: "h_written ha = concat (map snd ?lg) @ c_outbox (h_conn ha)"
    and sent: "list_all (carried s0 ?lg) (h_sent ha)"
    using sh by (simp_all add: snd_hist_def conn_ok_def snd_ok_def stream_def)
  have len: "length ?lg \<le> length (h_written ha) + 2" using numbered_log_length [OF log] w by simp
  have all: "\<exists>hb. live_all bops (begun 1 b) = Ret hb
          \<and> prefix (h_read hb @ c_inbox (h_conn hb)) (h_written ha)
          \<and> (c_peer_closed (h_conn hb) \<longrightarrow> h_read hb @ c_inbox (h_conn hb) = h_written ha \<and> c_fin_pending (h_conn ha))
          \<and> (\<forall>t pk. c_state (h_conn hb) = Open \<and> carries s0 ?lg (h_count hb) pk \<and> (pk_kind pk = Data \<or> pk_kind pk = Fin)
               \<and> length (pk_payload pk) \<le> unat (receive_window (h_conn hb)) \<longrightarrow>
               (\<exists>hb'. live (Packet t pk) hb = Ret hb' \<and> h_count hb < h_count hb'))"
    if fed: "fed s0 ?lg bops (begun 1 b)" and n: "length bops + 1 < 2 ^ 31 - 1" for bops
  proof -
    obtain hb where hb: "live_all bops (begun 1 b) = Ret hb" "rcv_hist (length bops) t0 s0 ?lg hb"
      using live_all_rcv [OF b(2) log fed] n by (auto simp: returns_iff)
    note means = closed_means_all [OF sh [unfolded append_Cons append_Nil] hb(2)]
    have "returns (live (Packet t pk) hb) (\<lambda>hb'. h_count hb < h_count hb')"
      if "c_state (h_conn hb) = Open" "carries s0 ?lg (h_count hb) pk" "pk_kind pk = Data \<or> pk_kind pk = Fin"
        "length (pk_payload pk) \<le> unat (receive_window (h_conn hb))" for t pk
      using that n by (intro next_moves [OF hb(2) log]) simp_all
    then show ?thesis using hb(1) means unfolding returns_iff by blast
  qed
  have dec: "\<forall>d\<in>set (h_sent ha). \<exists>pk. packet_decode d = Inr pk \<and> (pk_kind pk = Data \<or> pk_kind pk = Fin \<longrightarrow> (\<exists>i. carries s0 ?lg i pk))"
    using sent unfolding list_all_iff carried_def carries_def by meson
  show ?thesis
    by (intro exI [of _ a] exI [of _ ha] exI [of _ ?lg] exI [of _ b] conjI a(1) ha len dec b(1)) (use all in blast)
qed

section \<open>Three bytes on their way\<close>

definition first_syn :: packet where
  "first_syn = \<lparr>pk_kind = Syn, pk_connection_id = 7, pk_timestamp = 0, pk_timestamp_diff = 0, pk_wnd_size = 524288,
     pk_seq_nr = 1, pk_ack_nr = 0, pk_sack = [], pk_payload = []\<rparr>"

definition first_answer :: packet where
  "first_answer = \<lparr>pk_kind = State, pk_connection_id = 7, pk_timestamp = 0, pk_timestamp_diff = 0, pk_wnd_size = 524288,
     pk_seq_nr = 5, pk_ack_nr = 1, pk_sack = [], pk_payload = []\<rparr>"

definition first_data :: packet where
  "first_data = \<lparr>pk_kind = Data, pk_connection_id = 8, pk_timestamp = 0, pk_timestamp_diff = 0, pk_wnd_size = 524288,
     pk_seq_nr = 2, pk_ack_nr = 4, pk_sack = [], pk_payload = [1, 2, 3]\<rparr>"

definition sender_ops :: "conn_op list" where
  "sender_ops = [Packet 5 first_answer, Write [1, 2, 3], Flush 6, Take]"

definition receiver_ops :: "conn_op list" where
  "receiver_ops = [Packet 9 first_data, Packet 9 first_data, Read 2]"

lemmas sample_defs = first_syn_def first_answer_def first_data_def sender_ops_def receiver_ops_def

lemma sample_sender:
  "on_ret (connect_from 0 7 1) (\<lambda>a. live_all sender_ops (begun 0 a)) = Ret ha \<Longrightarrow>
     h_written ha = [1, 2, 3] \<and> packet_encode first_data \<in> set (h_sent ha)"
  by (simp add: run_simps sample_defs live_def begun_def sent_by_def written_by_def read_by_def cong: run_congs) auto

lemma sample_receiver:
  "on_ret (accept 0 first_syn 5) (\<lambda>b. live_all receiver_ops (begun 1 b)) = Ret hb \<Longrightarrow>
     h_read hb = [1, 2] \<and> c_inbox (h_conn hb) = [3] \<and> h_count hb = 2"
  by (simp add: run_simps sample_defs live_def begun_def sent_by_def written_by_def read_by_def cong: run_congs) auto

lemma first_data_only:
  assumes "carries 1 lg i first_data" "length lg \<le> 5"
  shows "feeds 1 lg 1 (Packet 9 first_data)" "feeds 1 lg 2 (Packet 9 first_data)"
proof -
  have "seq_at 1 i = seq_at 1 1" "i < length lg" using assms(1) by (simp_all add: carries_def first_data_def seq_at_def)
  then have "i = 1" using assms(2) by (intro seq_at_inj [of 1]) simp_all
  with assms(1) show "feeds 1 lg 1 (Packet 9 first_data)" "feeds 1 lg 2 (Packet 9 first_data)"
    by (auto simp: feeds_def list_ex_iff timely_def carries_def intro!: bexI [of _ 1])
qed

lemma sample_count:
  "accept 0 first_syn 5 = Ret b \<Longrightarrow> live (Packet 9 first_data) (begun 1 b) = Ret h \<Longrightarrow> h_count h = 2"
  by (simp add: run_simps sample_defs cong: run_congs)
    (auto simp: run_simps sample_defs live_def begun_def sent_by_def written_by_def read_by_def cong: run_congs)

lemma sample_fed:
  assumes "carries 1 lg i first_data" "length lg \<le> 5" "accept 0 first_syn 5 = Ret b"
  shows "fed 1 lg receiver_ops (begun 1 b)"
  using first_data_only [OF assms(1,2)] sample_count [OF assms(3)]
  by (auto simp: receiver_ops_def begun_def feeds_def [of _ _ _ "Read _"] split: outcome.split)

theorem utp_delivers_witness:
  "\<exists>ha hb. on_ret (connect_from 0 7 1) (\<lambda>a. live_all sender_ops (begun 0 a)) = Ret ha \<and> h_written ha = [1, 2, 3]
    \<and> on_ret (accept 0 first_syn 5) (\<lambda>b. live_all receiver_ops (begun 1 b)) = Ret hb
    \<and> prefix (h_read hb @ c_inbox (h_conn hb)) (h_written ha) \<and> h_read hb = [1, 2] \<and> c_inbox (h_conn hb) = [3]"
proof -
  have pre: "length sender_ops < 2 ^ 31 - 1" "pk_seq_nr first_syn = 1" by (simp_all add: sample_defs)
  obtain a ha lg b where a: "connect_from 0 7 1 = Ret a" "live_all sender_ops (begun 0 a) = Ret ha" "length lg \<le> length (h_written ha) + 2"
    and sent: "\<forall>d\<in>set (h_sent ha). \<exists>pk. packet_decode d = Inr pk \<and> (pk_kind pk = Data \<or> pk_kind pk = Fin \<longrightarrow> (\<exists>i. carries 1 lg i pk))"
    and b: "accept 0 first_syn 5 = Ret b" and all: "\<forall>bops. length bops + 1 < 2 ^ 31 - 1 \<and> fed 1 lg bops (begun 1 b) \<longrightarrow>
         (\<exists>hb. live_all bops (begun 1 b) = Ret hb \<and> prefix (h_read hb @ c_inbox (h_conn hb)) (h_written ha))"
    using utp_delivers [OF pre, of 0 7 0 5] by (elim exE conjE) (rule that; assumption | blast)
  have w: "h_written ha = [1, 2, 3]" "packet_encode first_data \<in> set (h_sent ha)" using sample_sender [of ha] a by simp_all
  have "packet_decode (packet_encode first_data) = Inr first_data"
    by (rule utp_codec.decode_encode) (simp add: first_data_def)
  with sent w(2) obtain i where "carries 1 lg i first_data" by (fastforce simp: first_data_def)
  then have "fed 1 lg receiver_ops (begun 1 b)" using a(3) w(1) b by (intro sample_fed) simp_all
  moreover have "length receiver_ops + 1 < 2 ^ 31 - 1" by (simp add: receiver_ops_def)
  ultimately obtain hb where hb: "live_all receiver_ops (begun 1 b) = Ret hb" "prefix (h_read hb @ c_inbox (h_conn hb)) (h_written ha)"
    using all by blast
  then show ?thesis using a b w(1) sample_receiver [of hb] by (intro exI [of _ ha] exI [of _ hb]) simp
qed

section \<open>Bytes that never arrive\<close>

definition late_answer :: packet where
  "late_answer = first_answer\<lparr>pk_timestamp := 1000000, pk_seq_nr := 6\<rparr>"

definition early_bytes :: packet where
  "early_bytes = first_data\<lparr>pk_connection_id := 7, pk_seq_nr := 5, pk_ack_nr := 1\<rparr>"

definition reply :: packet where
  "reply = \<lparr>pk_kind = Data, pk_connection_id = 8, pk_timestamp = 1000000, pk_timestamp_diff = 0, pk_wnd_size = 524288,
     pk_seq_nr = 2, pk_ack_nr = 5, pk_sack = [], pk_payload = [9]\<rparr>"

definition run :: "conn_op list \<Rightarrow> connection outcome \<Rightarrow> connection outcome" where
  "run ops r = fold (\<lambda>oper r. on_ret r (perform oper)) ops r"

lemma returns_weak: "r = r' \<Longrightarrow> returns r P = returns r' P"
  by simp

text \<open>The window update as an update of three fields, whose values do not matter here.\<close>

definition windowed :: "connection \<Rightarrow> connection \<Rightarrow> bool" where
  "windowed c c' \<longleftrightarrow> c' = c\<lparr>c_delay_base := c_delay_base c', c_slow_start := c_slow_start c', c_max_window := c_max_window c'\<rparr>"

lemma windowed_updates:
  "windowed c (c'\<lparr>c_delay_base := d\<rparr>) = windowed c c'" "windowed c (c'\<lparr>c_slow_start := b\<rparr>) = windowed c c'"
  "windowed c (c'\<lparr>c_max_window := w\<rparr>) = windowed c c'" "windowed c (if p then c' else c'') = (if p then windowed c c' else windowed c c'')"
  "windowed c c"
  by (cases c, cases c', auto simp: windowed_def)+

lemma windowed_update_window: "windowed c (update_window now n d c)"
  by (simp only: update_window_def Let_def windowed_updates if_cancel)

text \<open>
  C25: The other direction has a gap. An initiator takes the first packet of the stream to be
  the one numbered as the answer it opens with. When the accepting end writes before its
  answer has arrived, and the answer is lost, the answer to the repeated request is numbered
  past those bytes: the initiator starts behind them, its next packet acknowledges them, and
  they are refused when they come. In this run the accepting end has sent three bytes and
  holds them to be delivered, while its peer, connected and without an error, has nothing to
  read even after they have reached it.
\<close>

theorem answer_lost_bytes:
  "returns (run [Write [1, 2, 3], Flush 1, Packet (secs 1) (first_syn\<lparr>pk_timestamp := 1000000\<rparr>)] (accept 0 first_syn 5)) (\<lambda>a.
     {packet_encode early_bytes, packet_encode late_answer} \<subseteq> set (c_outgoing a)
     \<and> returns (run [Packet (secs 2) reply] (Ret a)) (\<lambda>a'. is_flushed a' \<and> c_inbox a' = [9]))
   \<and> returns (run [Tick (secs 1), Packet (secs 1) late_answer, Write [9], Flush (secs 1)] (connect_from 0 7 1)) (\<lambda>b.
     {packet_encode first_syn, packet_encode (first_syn\<lparr>pk_timestamp := 1000000\<rparr>), packet_encode reply} \<subseteq> set (c_outgoing b)
     \<and> returns (run [Packet (secs 2) early_bytes] (Ret b)) (\<lambda>b'. c_state b' = Open \<and> c_error b' = None \<and> readable b' = 0))"
proof -
  obtain base slow win where uw: "\<And>now n d c. update_window now n d c =
      c\<lparr>c_delay_base := base now n d c, c_slow_start := slow now n d c, c_max_window := win now n d c\<rparr>"
    using windowed_update_window unfolding windowed_def by (rule that)
  show ?thesis
    by (simp add: run_def run_simps uw sample_defs late_answer_def early_bytes_def reply_def is_flushed_def readable_def
        del: returns_simps(2) cong: run_congs returns_weak)
qed

end
