(* ===== verification/Dht_Krpc.thy ===== *)
theory Dht_Krpc
  imports Bencode Rust_Std
begin

text \<open>
  The messages of the DHT, \<^verbatim>\<open>src/src/dht/krpc.rs\<close>: queries, responses and errors as
  bencoded dictionaries, with compact encodings of nodes and peers of both address families.
  An IPv6 address has no flow information and no scope here, as those the code makes have
  none. The result is the round trip of every message.
\<close>

section \<open>Messages\<close>

type_synonym node_id = bytes

record compact_node =
  cn_id :: node_id
  cn_addr :: socket_addr

record mutable_fields =
  mf_k :: bytes
  mf_salt :: "bytes option"
  mf_seq :: int
  mf_sig :: bytes
  mf_cas :: "int option"

record put_item =
  pi_v :: bencode
  pi_mutable :: "mutable_fields option"

datatype query =
    Ping node_id
  | FindNode node_id node_id
  | GetPeers node_id node_id
  | AnnouncePeer node_id node_id u16 bytes bool
  | Get node_id node_id "int option"
  | Put node_id bytes put_item

record response =
  rs_id :: node_id
  rs_nodes :: "compact_node list"
  rs_values :: "socket_addr list"
  rs_token :: "bytes option"
  rs_ip :: "socket_addr option"
  rs_v :: "bencode option"
  rs_k :: "bytes option"
  rs_seq :: "int option"
  rs_sig :: "bytes option"

datatype krpc_message = Query bytes query | Response bytes response | Error bytes int bytes

datatype krpc_error = DecodeFailed decode_error | NotADictionary | MissingField string | UnknownMessageType
  | UnknownQuery bytes | MalformedCompact string

definition query_name :: "query \<Rightarrow> bytes" where
  "query_name q = lit (case q of
       Ping _ \<Rightarrow> ''ping''
     | FindNode _ _ \<Rightarrow> ''find_node''
     | GetPeers _ _ \<Rightarrow> ''get_peers''
     | AnnouncePeer _ _ _ _ _ \<Rightarrow> ''announce_peer''
     | Get _ _ _ \<Rightarrow> ''get''
     | Put _ _ _ \<Rightarrow> ''put'')"

fun sender_id :: "query \<Rightarrow> node_id" where
  "sender_id (Ping nid) = nid"
| "sender_id (FindNode nid _) = nid"
| "sender_id (GetPeers nid _) = nid"
| "sender_id (AnnouncePeer nid _ _ _ _) = nid"
| "sender_id (Get nid _ _) = nid"
| "sender_id (Put nid _ _) = nid"

text \<open>\<open>Response::default()\<close> with the id given.\<close>

definition response_default :: "node_id \<Rightarrow> response" where
  "response_default nid = \<lparr>rs_id = nid, rs_nodes = [], rs_values = [], rs_token = None, rs_ip = None, rs_v = None, rs_k = None,
     rs_seq = None, rs_sig = None\<rparr>"

section \<open>Compact encodings\<close>

definition bytes_of_len :: "nat \<Rightarrow> string \<Rightarrow> bencode option \<Rightarrow> string \<Rightarrow> krpc_error + bytes" where
  "bytes_of_len n what value field =
     and_then (ok_or (Option.bind value as_bytes) (MissingField field)) (\<lambda>b.
       if length b = n then Inr b else Inl (MalformedCompact what))"

definition bytes20 :: "bencode option \<Rightarrow> string \<Rightarrow> krpc_error + bytes" where
  "bytes20 = bytes_of_len 20 ''id/hash not 20 bytes''"

definition bytes32 :: "bencode option \<Rightarrow> string \<Rightarrow> krpc_error + bytes" where
  "bytes32 = bytes_of_len 32 ''public key not 32 bytes''"

definition bytes64 :: "bencode option \<Rightarrow> string \<Rightarrow> krpc_error + bytes" where
  "bytes64 = bytes_of_len 64 ''signature not 64 bytes''"

definition NODE4_LEN :: nat where "NODE4_LEN = 26"

definition NODE6_LEN :: nat where "NODE6_LEN = 38"

definition parse_compact_nodes :: "bytes \<Rightarrow> krpc_error + compact_node list" where
  "parse_compact_nodes data =
     (if length data mod NODE4_LEN \<noteq> 0 then Inl (MalformedCompact ''nodes length not a multiple of 26'')
      else Inr (map (\<lambda>c. \<lparr>cn_id = take 20 c,
          cn_addr = SocketAddr (IpV4 (of_nat (nat_be (take 4 (drop 20 c))))) (of_nat (nat_be (drop 24 c)))\<rparr>) (chunks NODE4_LEN data)))"

definition parse_compact_nodes6 :: "bytes \<Rightarrow> krpc_error + compact_node list" where
  "parse_compact_nodes6 data =
     (if length data mod NODE6_LEN \<noteq> 0 then Inl (MalformedCompact ''nodes6 length not a multiple of 38'')
      else Inr (map (\<lambda>c. \<lparr>cn_id = take 20 c,
          cn_addr = SocketAddr (IpV6 (of_nat (nat_be (take 16 (drop 20 c))))) (of_nat (nat_be (drop 36 c)))\<rparr>) (chunks NODE6_LEN data)))"

definition compact_node_bytes :: "compact_node \<Rightarrow> bytes" where
  "compact_node_bytes n = cn_id n @ octets (addr_ip (cn_addr n)) @ u16_be (addr_port (cn_addr n))"

definition encode_compact_nodes :: "compact_node list \<Rightarrow> bytes" where
  "encode_compact_nodes nodes = concat (map compact_node_bytes (filter (\<lambda>n. \<not> is_ipv6 (cn_addr n)) nodes))"

definition encode_compact_nodes6 :: "compact_node list \<Rightarrow> bytes" where
  "encode_compact_nodes6 nodes = concat (map compact_node_bytes (filter (\<lambda>n. is_ipv6 (cn_addr n)) nodes))"

definition encode_peer :: "socket_addr \<Rightarrow> bytes" where
  "encode_peer peer = octets (addr_ip peer) @ u16_be (addr_port peer)"

definition parse_compact_addr :: "bytes \<Rightarrow> socket_addr option" where
  "parse_compact_addr b =
     (if length b = 6 then Some (SocketAddr (IpV4 (of_nat (nat_be (take 4 b)))) (of_nat (nat_be (drop 4 b))))
      else if length b = 18 then Some (SocketAddr (IpV6 (of_nat (nat_be (take 16 b)))) (of_nat (nat_be (drop 16 b))))
      else None)"

definition parse_values :: "bencode list \<Rightarrow> socket_addr list" where
  "parse_values list =
     filter (\<lambda>peer. addr_port peer \<noteq> 0) (List.map_filter (\<lambda>v. Option.bind (as_bytes v) parse_compact_addr) list)"

definition is_read_only :: "bytes \<Rightarrow> bool" where
  "is_read_only data =
     ((case decode_lenient data of Inl _ \<Rightarrow> None | Inr v \<Rightarrow> Option.bind (get (lit ''ro'') v) as_int) = Some 1)"

section \<open>Encoding\<close>

type_synonym dict = "(bytes \<times> bencode) list"

definition put :: "string \<Rightarrow> bencode \<Rightarrow> dict \<Rightarrow> dict" where
  "put key v d = bt_insert (lit key) v d"

definition put_opt :: "string \<Rightarrow> ('a \<Rightarrow> bencode) \<Rightarrow> 'a option \<Rightarrow> dict \<Rightarrow> dict" where
  "put_opt key f v d = (case v of None \<Rightarrow> d | Some x \<Rightarrow> put key (f x) d)"

fun query_args :: "query \<Rightarrow> dict" where
  "query_args (Ping nid) = put ''id'' (BBytes nid) []"
| "query_args (FindNode nid target) = put ''target'' (BBytes target) (put ''id'' (BBytes nid) [])"
| "query_args (GetPeers nid info_hash) = put ''info_hash'' (BBytes info_hash) (put ''id'' (BBytes nid) [])"
| "query_args (AnnouncePeer nid info_hash port token implied_port) =
     put ''token'' (BBytes token)
      (put ''port'' (BInt (uint port))
      (put ''info_hash'' (BBytes info_hash)
      (put ''implied_port'' (BInt (if implied_port then 1 else 0))
      (put ''id'' (BBytes nid) []))))"
| "query_args (Get nid target seq) = put_opt ''seq'' BInt seq (put ''target'' (BBytes target) (put ''id'' (BBytes nid) []))"
| "query_args (Put nid token item) =
     (let a = put ''v'' (pi_v item) (put ''token'' (BBytes token) (put ''id'' (BBytes nid) []))
      in case pi_mutable item of
           None \<Rightarrow> a
         | Some m \<Rightarrow>
             put_opt ''cas'' BInt (mf_cas m)
              (put ''sig'' (BBytes (mf_sig m))
              (put ''seq'' (BInt (mf_seq m))
              (put_opt ''salt'' BBytes (mf_salt m)
              (put ''k'' (BBytes (mf_k m)) a)))))"

definition nonempty :: "'a list \<Rightarrow> 'a list option" where
  "nonempty xs = (if xs = [] then None else Some xs)"

definition response_dict :: "response \<Rightarrow> dict" where
  "response_dict r =
     put_opt ''sig'' BBytes (rs_sig r)
      (put_opt ''seq'' BInt (rs_seq r)
      (put_opt ''k'' BBytes (rs_k r)
      (put_opt ''v'' (\<lambda>v. v) (rs_v r)
      (put_opt ''values'' (\<lambda>vs. BList (map (BBytes \<circ> encode_peer) vs)) (nonempty (rs_values r))
      (put_opt ''token'' BBytes (rs_token r)
      (put_opt ''nodes6'' BBytes (nonempty (encode_compact_nodes6 (rs_nodes r)))
      (put_opt ''nodes'' BBytes (nonempty (encode_compact_nodes (rs_nodes r)))
      (put ''id'' (BBytes (rs_id r)) []))))))))"

fun message_dict :: "bool \<Rightarrow> krpc_message \<Rightarrow> dict" where
  "message_dict read_only (Query t query) =
     put ''y'' (BBytes (lit ''q''))
      (put ''t'' (BBytes t)
      (put ''q'' (BBytes (query_name query))
      (put_opt ''ro'' BInt (if read_only then Some 1 else None)
      (put ''a'' (BDict (query_args query)) []))))"
| "message_dict read_only (Response t response) =
     put ''y'' (BBytes (lit ''r''))
      (put ''t'' (BBytes t)
      (put_opt ''ip'' (BBytes \<circ> encode_peer) (rs_ip response)
      (put ''r'' (BDict (response_dict response)) [])))"
| "message_dict read_only (Error t code message) =
     put ''y'' (BBytes (lit ''e''))
      (put ''t'' (BBytes t)
      (put ''e'' (BList [BInt code, BBytes message]) []))"

definition encode_with :: "bool \<Rightarrow> krpc_message \<Rightarrow> bytes" where
  "encode_with read_only m = encode (BDict (message_dict read_only m))"

definition encode_message :: "krpc_message \<Rightarrow> bytes" where
  "encode_message m = encode_with False m"

section \<open>Decoding\<close>

definition field_bytes :: "dict \<Rightarrow> string \<Rightarrow> bytes option" where
  "field_bytes d key = Option.bind (map_of d (lit key)) as_bytes"

definition field_int :: "dict \<Rightarrow> string \<Rightarrow> int option" where
  "field_int d key = Option.bind (map_of d (lit key)) as_int"

definition unwrap_or :: "'a \<Rightarrow> 'a option \<Rightarrow> 'a" where
  "unwrap_or x v = (case v of None \<Rightarrow> x | Some y \<Rightarrow> y)"

definition decode_mutable :: "dict \<Rightarrow> krpc_error + mutable_fields option" where
  "decode_mutable a =
     (case map_of a (lit ''k'') of
        None \<Rightarrow> Inr None
      | Some _ \<Rightarrow>
          and_then (bytes32 (map_of a (lit ''k'')) ''a.k'') (\<lambda>k.
          and_then (ok_or (field_int a ''seq'') (MissingField ''a.seq'')) (\<lambda>seq.
          and_then (bytes64 (map_of a (lit ''sig'')) ''a.sig'') (\<lambda>sig.
            Inr (Some \<lparr>mf_k = k, mf_salt = field_bytes a ''salt'', mf_seq = seq, mf_sig = sig, mf_cas = field_int a ''cas''\<rparr>)))))"

definition decode_query :: "bytes \<Rightarrow> dict \<Rightarrow> node_id \<Rightarrow> krpc_error + query" where
  "decode_query q_name a nid =
     (if q_name = lit ''ping'' then Inr (Ping nid)
      else if q_name = lit ''find_node'' then
        and_then (bytes20 (map_of a (lit ''target'')) ''a.target'') (\<lambda>target. Inr (FindNode nid target))
      else if q_name = lit ''get_peers'' then
        and_then (bytes20 (map_of a (lit ''info_hash'')) ''a.info_hash'') (\<lambda>h. Inr (GetPeers nid h))
      else if q_name = lit ''announce_peer'' then
        and_then (bytes20 (map_of a (lit ''info_hash'')) ''a.info_hash'') (\<lambda>h.
          Inr (AnnouncePeer nid h (of_int (unwrap_or 0 (field_int a ''port''))) (unwrap_or [] (field_bytes a ''token''))
            (unwrap_or 0 (field_int a ''implied_port'') = 1)))
      else if q_name = lit ''get'' then
        and_then (bytes20 (map_of a (lit ''target'')) ''a.target'') (\<lambda>target. Inr (Get nid target (field_int a ''seq'')))
      else if q_name = lit ''put'' then
        and_then (ok_or (map_of a (lit ''v'')) (MissingField ''a.v'')) (\<lambda>v.
        and_then (decode_mutable a) (\<lambda>m.
          Inr (Put nid (unwrap_or [] (field_bytes a ''token'')) \<lparr>pi_v = v, pi_mutable = m\<rparr>)))
      else Inl (UnknownQuery q_name))"

definition of_len :: "nat \<Rightarrow> bytes \<Rightarrow> bytes option" where
  "of_len n b = (if length b = n then Some b else None)"

definition decode_response :: "dict \<Rightarrow> dict \<Rightarrow> krpc_error + response" where
  "decode_response msg r =
     and_then (bytes20 (map_of r (lit ''id'')) ''r.id'') (\<lambda>nid.
     and_then (case field_bytes r ''nodes'' of None \<Rightarrow> Inr [] | Some raw \<Rightarrow> parse_compact_nodes raw) (\<lambda>nodes.
     and_then (case field_bytes r ''nodes6'' of None \<Rightarrow> Inr [] | Some raw \<Rightarrow> parse_compact_nodes6 raw) (\<lambda>nodes6.
       Inr \<lparr>rs_id = nid, rs_nodes = nodes @ nodes6,
         rs_values = (case Option.bind (map_of r (lit ''values'')) as_list of None \<Rightarrow> [] | Some l \<Rightarrow> parse_values l),
         rs_token = field_bytes r ''token'', rs_ip = Option.bind (field_bytes msg ''ip'') parse_compact_addr,
         rs_v = map_of r (lit ''v''), rs_k = Option.bind (field_bytes r ''k'') (of_len 32), rs_seq = field_int r ''seq'',
         rs_sig = Option.bind (field_bytes r ''sig'') (of_len 64)\<rparr>)))"

definition decode_message :: "bytes \<Rightarrow> krpc_error + krpc_message" where
  "decode_message data =
     and_then (case decode_lenient data of Inl e \<Rightarrow> Inl (DecodeFailed e) | Inr v \<Rightarrow> Inr v) (\<lambda>value.
     and_then (ok_or (as_dict value) NotADictionary) (\<lambda>msg.
     and_then (ok_or (field_bytes msg ''t'') (MissingField ''t'')) (\<lambda>t.
     and_then (ok_or (field_bytes msg ''y'') (MissingField ''y'')) (\<lambda>y.
       if y = lit ''q'' then
         and_then (ok_or (Option.bind (map_of msg (lit ''q'')) as_str) (MissingField ''q'')) (\<lambda>q_name.
         and_then (ok_or (Option.bind (map_of msg (lit ''a'')) as_dict) (MissingField ''a'')) (\<lambda>a.
         and_then (bytes20 (map_of a (lit ''id'')) ''a.id'') (\<lambda>nid.
         and_then (decode_query q_name a nid) (\<lambda>query. Inr (Query t query)))))
       else if y = lit ''r'' then
         and_then (ok_or (Option.bind (map_of msg (lit ''r'')) as_dict) (MissingField ''r'')) (\<lambda>r.
         and_then (decode_response msg r) (\<lambda>response. Inr (Response t response)))
       else if y = lit ''e'' then
         and_then (ok_or (Option.bind (map_of msg (lit ''e'')) as_list) (MissingField ''e'')) (\<lambda>e.
           Inr (Error t (unwrap_or 0 (case e of [] \<Rightarrow> None | x # _ \<Rightarrow> as_int x))
             (unwrap_or [] (case e of _ # x # _ \<Rightarrow> as_str x | _ \<Rightarrow> None))))
       else Inl UnknownMessageType))))"

section \<open>Dictionaries\<close>

lemma sorted_put [simp]: "sorted_keys d \<Longrightarrow> sorted_keys (put key v d)"
  by (simp add: put_def sorted_keys_def sorted_bt_insert)

lemma map_of_put [simp]: "sorted_keys d \<Longrightarrow> map_of (put key v d) (lit k) = (if k = key then Some v else map_of d (lit k))"
  by (simp add: put_def sorted_keys_def map_of_bt_insert)

lemma sorted_put_opt [simp]: "sorted_keys d \<Longrightarrow> sorted_keys (put_opt key f v d)"
  by (simp add: put_opt_def split: option.split)

lemma map_of_put_opt [simp]:
  "sorted_keys d \<Longrightarrow> map_of (put_opt key f v d) (lit k) =
     (if k = key then (case v of None \<Rightarrow> map_of d (lit k) | Some x \<Rightarrow> Some (f x)) else map_of d (lit k))"
  by (simp add: put_opt_def split: option.split)

lemma sorted_Nil [simp]: "sorted_keys []"
  by (simp add: sorted_keys_def)

definition values_ok :: "nat \<Rightarrow> dict \<Rightarrow> bool" where
  "values_ok n d \<longleftrightarrow> list_all (\<lambda>(k, v). wf_bencode v \<and> fits n v) d"

lemma values_ok_Nil [simp]: "values_ok n []"
  by (simp add: values_ok_def)

lemma values_ok_put [simp]: "values_ok n d \<Longrightarrow> wf_bencode v \<Longrightarrow> fits n v \<Longrightarrow> values_ok n (put key v d)"
  using set_bt_insert [of "lit key" v d] by (auto simp: values_ok_def put_def list_all_iff)

definition opt_ok :: "('a \<Rightarrow> bool) \<Rightarrow> 'a option \<Rightarrow> bool" where
  "opt_ok P v \<longleftrightarrow> (case v of None \<Rightarrow> True | Some x \<Rightarrow> P x)"

lemma opt_ok_simps [simp]: "opt_ok P None" "opt_ok P (Some x) \<longleftrightarrow> P x" "opt_ok (\<lambda>x. True) v"
  by (simp_all add: opt_ok_def split: option.split)

lemma values_ok_put_opt [simp]:
  "values_ok n d \<Longrightarrow> opt_ok (\<lambda>x. wf_bencode (f x) \<and> fits n (f x)) v \<Longrightarrow> values_ok n (put_opt key f v d)"
  by (auto simp: put_opt_def split: option.split)

lemma dict_ok: "sorted_keys d \<Longrightarrow> values_ok n d \<Longrightarrow> wf_bencode (BDict d) \<and> fits (Suc n) (BDict d)"
  by (auto simp: values_ok_def list_all_iff)

section \<open>Compact encodings read back\<close>

lemma chunks_concat_map: "0 < n \<Longrightarrow> \<forall>x\<in>set xs. length (f x) = n \<Longrightarrow> chunks n (concat (map f xs)) = map f xs"
proof (induction xs)
  case (Cons x xs)
  then show ?case by (simp add: chunks.simps [of n "f x @ concat (map f xs)"])
qed (simp add: chunks_short)

lemma length_concat_map: "\<forall>x\<in>set xs. length (f x) = n \<Longrightarrow> length (concat (map f xs)) = n * length xs"
  by (induction xs) auto

definition node_ok :: "compact_node \<Rightarrow> bool" where
  "node_ok n \<longleftrightarrow> length (cn_id n) = 20"

lemma compact_node4:
  assumes "node_ok n" "\<not> is_ipv6 (cn_addr n)"
  shows "length (compact_node_bytes n) = 26" "take 20 (compact_node_bytes n) = cn_id n"
    "SocketAddr (IpV4 (of_nat (nat_be (take 4 (drop 20 (compact_node_bytes n))))))
       (of_nat (nat_be (drop 24 (compact_node_bytes n)))) = cn_addr n"
proof -
  obtain nid a p where n: "n = \<lparr>cn_id = nid, cn_addr = SocketAddr (IpV4 a) p\<rparr>" "length nid = 20"
    using assms by (cases n; cases "cn_addr n") (auto simp: node_ok_def is_ipv6_def split: ip_addr.splits)
  then show "length (compact_node_bytes n) = 26" "take 20 (compact_node_bytes n) = cn_id n"
    "SocketAddr (IpV4 (of_nat (nat_be (take 4 (drop 20 (compact_node_bytes n))))))
       (of_nat (nat_be (drop 24 (compact_node_bytes n)))) = cn_addr n"
    by (simp_all add: compact_node_bytes_def octets_def byte_simps)
qed

lemma compact_node6:
  assumes "node_ok n" "is_ipv6 (cn_addr n)"
  shows "length (compact_node_bytes n) = 38" "take 20 (compact_node_bytes n) = cn_id n"
    "SocketAddr (IpV6 (of_nat (nat_be (take 16 (drop 20 (compact_node_bytes n))))))
       (of_nat (nat_be (drop 36 (compact_node_bytes n)))) = cn_addr n"
proof -
  obtain nid a p where n: "n = \<lparr>cn_id = nid, cn_addr = SocketAddr (IpV6 a) p\<rparr>" "length nid = 20"
    using assms by (cases n; cases "cn_addr n") (auto simp: node_ok_def is_ipv6_def split: ip_addr.splits)
  then show "length (compact_node_bytes n) = 38" "take 20 (compact_node_bytes n) = cn_id n"
    "SocketAddr (IpV6 (of_nat (nat_be (take 16 (drop 20 (compact_node_bytes n))))))
       (of_nat (nat_be (drop 36 (compact_node_bytes n)))) = cn_addr n"
    by (simp_all add: compact_node_bytes_def octets_def byte_simps)
qed

lemma parse_encode_nodes:
  assumes "list_all node_ok nodes"
  shows "parse_compact_nodes (encode_compact_nodes nodes) = Inr (filter (\<lambda>n. \<not> is_ipv6 (cn_addr n)) nodes)"
    "parse_compact_nodes6 (encode_compact_nodes6 nodes) = Inr (filter (\<lambda>n. is_ipv6 (cn_addr n)) nodes)"
proof -
  let ?v4 = "filter (\<lambda>n. \<not> is_ipv6 (cn_addr n)) nodes" and ?v6 = "filter (\<lambda>n. is_ipv6 (cn_addr n)) nodes"
  have ok: "\<forall>n\<in>set ?v4. node_ok n \<and> \<not> is_ipv6 (cn_addr n)" "\<forall>n\<in>set ?v6. node_ok n \<and> is_ipv6 (cn_addr n)"
    using assms by (auto simp: list_all_iff)
  have len: "\<forall>n\<in>set ?v4. length (compact_node_bytes n) = 26" "\<forall>n\<in>set ?v6. length (compact_node_bytes n) = 38"
    using ok compact_node4(1) compact_node6(1) by blast+
  show "parse_compact_nodes (encode_compact_nodes nodes) = Inr ?v4"
    using ok(1) length_concat_map [OF len(1)] chunks_concat_map [OF _ len(1)]
    by (auto simp: parse_compact_nodes_def encode_compact_nodes_def NODE4_LEN_def compact_node4 intro!: map_idI)
  show "parse_compact_nodes6 (encode_compact_nodes6 nodes) = Inr ?v6"
    using ok(2) length_concat_map [OF len(2)] chunks_concat_map [OF _ len(2)]
    by (auto simp: parse_compact_nodes6_def encode_compact_nodes6_def NODE6_LEN_def compact_node6 intro!: map_idI)
qed

lemma parse_encode_peer [simp]: "parse_compact_addr (encode_peer a) = Some a"
proof (cases a)
  case (SocketAddr ip p)
  then show ?thesis by (cases ip) (simp_all add: encode_peer_def octets_def parse_compact_addr_def byte_simps)
qed

lemma parse_encode_values: "parse_values (map (BBytes \<circ> encode_peer) vs) = filter (\<lambda>p. addr_port p \<noteq> 0) vs"
  by (simp add: parse_values_def map_filter_map_filter as_bytes_def comp_def List.map_filter_def)

section \<open>Messages read back\<close>

text \<open>What Rust's types and the depth limit of the codec admit.\<close>

definition value_ok :: "bencode \<Rightarrow> bool" where
  "value_ok v \<longleftrightarrow> wf_bencode v \<and> fits (MAX_DEPTH - 2) v"

definition mutable_ok :: "mutable_fields \<Rightarrow> bool" where
  "mutable_ok m \<longleftrightarrow> length (mf_k m) = 32 \<and> length (mf_sig m) = 64 \<and> i64_range (mf_seq m) \<and> opt_ok i64_range (mf_cas m)"

fun query_ok :: "query \<Rightarrow> bool" where
  "query_ok (Ping nid) \<longleftrightarrow> length nid = 20"
| "query_ok (FindNode nid target) \<longleftrightarrow> length nid = 20 \<and> length target = 20"
| "query_ok (GetPeers nid h) \<longleftrightarrow> length nid = 20 \<and> length h = 20"
| "query_ok (AnnouncePeer nid h port token implied) \<longleftrightarrow> length nid = 20 \<and> length h = 20"
| "query_ok (Get nid target seq) \<longleftrightarrow> length nid = 20 \<and> length target = 20 \<and> opt_ok i64_range seq"
| "query_ok (Put nid token item) \<longleftrightarrow> length nid = 20 \<and> value_ok (pi_v item) \<and> opt_ok mutable_ok (pi_mutable item)"

definition response_ok :: "response \<Rightarrow> bool" where
  "response_ok r \<longleftrightarrow> length (rs_id r) = 20 \<and> list_all node_ok (rs_nodes r) \<and> opt_ok value_ok (rs_v r) \<and>
     opt_ok (\<lambda>k. length k = 32) (rs_k r) \<and> opt_ok i64_range (rs_seq r) \<and> opt_ok (\<lambda>s. length s = 64) (rs_sig r)"

fun message_ok :: "krpc_message \<Rightarrow> bool" where
  "message_ok (Query t q) \<longleftrightarrow> query_ok q"
| "message_ok (Response t r) \<longleftrightarrow> response_ok r"
| "message_ok (Error t code message) \<longleftrightarrow> i64_range code \<and> valid_utf8 message"

text \<open>
  What a receiver sees of a message: the nodes of one family before those of the other, and
  no peers without a port.
\<close>

fun as_received :: "krpc_message \<Rightarrow> krpc_message" where
  "as_received (Response t r) = Response t
     (r\<lparr>rs_nodes := filter (\<lambda>n. \<not> is_ipv6 (cn_addr n)) (rs_nodes r) @ filter (\<lambda>n. is_ipv6 (cn_addr n)) (rs_nodes r),
        rs_values := filter (\<lambda>p. addr_port p \<noteq> 0) (rs_values r)\<rparr>)"
| "as_received m = m"

lemma depth [simp]: "MAX_DEPTH = Suc (Suc 98)"
  by (simp add: MAX_DEPTH_def)

lemma i64_small [simp]: "i64_range 0" "i64_range 1" "i64_range (uint (p :: u16))"
proof -
  have "uint p < 2 ^ 16" "0 \<le> uint p" using uint_lt2p [of p] by simp_all
  then have "uint p < 9223372036854775808" "- 9223372036854775808 \<le> uint p" using uint_ge_0 [of p] by (simp, linarith)
  then show "i64_range (uint p)" by (simp add: i64_range_def)
qed (simp_all add: i64_range_def)

lemma query_args_ok: "query_ok q \<Longrightarrow> sorted_keys (query_args q) \<and> values_ok 98 (query_args q)"
  by (cases q) (auto simp: Let_def value_ok_def mutable_ok_def split: option.splits)

lemma response_dict_ok: "response_ok r \<Longrightarrow> sorted_keys (response_dict r) \<and> values_ok 98 (response_dict r)"
  using fits.simps(4) [of 97] by (simp add: response_dict_def response_ok_def value_ok_def [abs_def] list_all_iff)

lemma message_dict_ok:
  assumes "message_ok m"
  shows "sorted_keys (message_dict ro m)" "wf_bencode (BDict (message_dict ro m)) \<and> fits MAX_DEPTH (BDict (message_dict ro m))"
proof -
  show s: "sorted_keys (message_dict ro m)" by (cases m) simp_all
  have "values_ok (Suc 98) (message_dict ro m)"
  proof (cases m)
    case (Query t q)
    with assms query_args_ok [of q] dict_ok [of "query_args q" 98] show ?thesis by auto
  next
    case (Response t r)
    with assms response_dict_ok [of r] dict_ok [of "response_dict r" 98] show ?thesis by auto
  next
    case (Error t code message)
    with assms show ?thesis by simp
  qed
  then show "wf_bencode (BDict (message_dict ro m)) \<and> fits MAX_DEPTH (BDict (message_dict ro m))"
    using dict_ok [OF s] by simp
qed

lemma decode_encoded:
  assumes "message_ok m" "length (encode_with ro m) < 2 ^ 63"
  shows "decode_lenient (encode_with ro m) = Inr (BDict (message_dict ro m))"
  using message_dict_ok(2) [OF assms(1)] assms(2) lenient_bencode.decode_encode
  by (simp add: encode_with_def wire_ok_def)

lemmas field_simps_krpc = field_bytes_def field_int_def as_bytes_def as_int_def as_list_def as_dict_def unwrap_or_def
  bytes20_def bytes32_def bytes64_def bytes_of_len_def of_len_def opt_ok_def

lemma decode_query_args:
  assumes "query_ok q"
  shows "bytes20 (map_of (query_args q) (lit ''id'')) ''a.id'' = Inr (sender_id q)"
    "decode_query (query_name q) (query_args q) (sender_id q) = Inr q"
  using assms
  by (cases q; auto simp: Let_def field_simps_krpc mutable_ok_def decode_query_def decode_mutable_def query_name_def split: option.splits)+

lemma encode_nodes_Nil:
  "list_all node_ok nodes \<Longrightarrow> encode_compact_nodes nodes = [] \<longleftrightarrow> filter (\<lambda>n. \<not> is_ipv6 (cn_addr n)) nodes = []"
  "list_all node_ok nodes \<Longrightarrow> encode_compact_nodes6 nodes = [] \<longleftrightarrow> filter (\<lambda>n. is_ipv6 (cn_addr n)) nodes = []"
  using compact_node4(1) compact_node6(1)
  by (fastforce simp: encode_compact_nodes_def encode_compact_nodes6_def filter_empty_conv list_all_iff)+

lemma decode_response_dict:
  assumes "response_ok r"
  shows "decode_response (message_dict ro (Response t r)) (response_dict r) =
    Inr (r\<lparr>rs_nodes := filter (\<lambda>n. \<not> is_ipv6 (cn_addr n)) (rs_nodes r) @ filter (\<lambda>n. is_ipv6 (cn_addr n)) (rs_nodes r),
           rs_values := filter (\<lambda>p. addr_port p \<noteq> 0) (rs_values r)\<rparr>)"
proof -
  let ?d = "response_dict r"
  have ok: "list_all node_ok (rs_nodes r)" "length (rs_id r) = 20" "opt_ok (\<lambda>k. length k = 32) (rs_k r)" "opt_ok (\<lambda>s. length s = 64) (rs_sig r)"
    using assms by (simp_all add: response_ok_def)
  have "(case field_bytes ?d ''nodes'' of None \<Rightarrow> Inr [] | Some raw \<Rightarrow> parse_compact_nodes raw) =
      Inr (filter (\<lambda>n. \<not> is_ipv6 (cn_addr n)) (rs_nodes r))"
    using parse_encode_nodes(1) [OF ok(1)] encode_nodes_Nil(1) [OF ok(1)]
    by (simp add: field_bytes_def response_dict_def nonempty_def as_bytes_def)
  moreover have "(case field_bytes ?d ''nodes6'' of None \<Rightarrow> Inr [] | Some raw \<Rightarrow> parse_compact_nodes6 raw) =
      Inr (filter (\<lambda>n. is_ipv6 (cn_addr n)) (rs_nodes r))"
    using parse_encode_nodes(2) [OF ok(1)] encode_nodes_Nil(2) [OF ok(1)]
    by (simp add: field_bytes_def response_dict_def nonempty_def as_bytes_def)
  moreover have "(case Option.bind (map_of ?d (lit ''values'')) as_list of None \<Rightarrow> [] | Some l \<Rightarrow> parse_values l) =
      filter (\<lambda>p. addr_port p \<noteq> 0) (rs_values r)"
    by (simp add: response_dict_def nonempty_def as_list_def parse_encode_values)
  moreover have "bytes20 (map_of ?d (lit ''id'')) ''r.id'' = Inr (rs_id r)"
    using ok(2) by (simp add: response_dict_def field_simps_krpc)
  moreover have "field_bytes ?d ''token'' = rs_token r" "map_of ?d (lit ''v'') = rs_v r" "field_int ?d ''seq'' = rs_seq r"
    "Option.bind (field_bytes ?d ''k'') (of_len 32) = rs_k r" "Option.bind (field_bytes ?d ''sig'') (of_len 64) = rs_sig r"
    "Option.bind (field_bytes (message_dict ro (Response t r)) ''ip'') parse_compact_addr = rs_ip r"
    using ok(3,4) by (auto simp: response_dict_def field_simps_krpc split: option.splits)
  ultimately show ?thesis by (simp only: decode_response_def and_then_simps) simp
qed

text \<open>
  C26: Every DHT message reads back. Whatever query, response or error this node encodes, of
  fields as long as their types say, is decoded by the receiver as the same message, up to
  the order of nodes of different address families and peers without a port, which the
  receiver drops; and the receiver sees the read-only mark exactly on a query sent with it.
\<close>

theorem krpc_roundtrip:
  assumes "message_ok m" "slice_ok (encode_with ro m)"
  shows "decode_message (encode_with ro m) = Inr (as_received m) \<and>
    (is_read_only (encode_with ro m) \<longleftrightarrow> ro \<and> (\<exists>t q. m = Query t q))"
proof -
  note d = decode_encoded [OF assms]
  have "is_read_only (encode_with ro m) \<longleftrightarrow> ro \<and> (\<exists>t q. m = Query t q)"
    unfolding is_read_only_def d by (cases m) (simp_all add: get_def as_dict_def as_int_def)
  moreover have "decode_message (encode_with ro m) = Inr (as_received m)"
  proof (cases m)
    case (Query t q)
    have "as_str (BBytes (query_name q)) = Some (query_name q)"
      by (cases q) (simp_all add: as_str_def as_bytes_def query_name_def lit_def utf8_cont_def)
    with Query assms(1) decode_query_args [of q] show ?thesis
      unfolding decode_message_def d by (simp add: field_bytes_def as_bytes_def as_dict_def)
  next
    case (Response t r)
    with assms(1) decode_response_dict [of r ro t] show ?thesis
      unfolding decode_message_def d by (simp add: field_bytes_def as_bytes_def as_dict_def)
  next
    case (Error t code message)
    with assms(1) show ?thesis
      unfolding decode_message_def d by (simp add: field_bytes_def as_bytes_def as_dict_def as_list_def as_int_def as_str_def unwrap_or_def)
  qed
  ultimately show ?thesis by simp
qed

definition sample_query :: krpc_message where
  "sample_query = Query [97, 97] (Ping (replicate 20 7))"

theorem krpc_roundtrip_witness:
  "message_ok sample_query \<and> decode_message (encode_with True sample_query) = Inr sample_query \<and>
   is_read_only (encode_with True sample_query)"
proof -
  have ok: "message_ok sample_query" by (simp add: sample_query_def)
  have "length (encode_with True sample_query) = 63" by code_simp
  then have "slice_ok (encode_with True sample_query)" by simp
  from krpc_roundtrip [OF ok this] ok show ?thesis by (simp add: sample_query_def)
qed

end
