(* ===== verification/Spec2Isabelle.thy ===== *)
theory Spec2Isabelle
  imports Bencode Wire Peer_State Hash_Source Assembler Work_Queue File_Spans Torrent Choker Peer_Pool Utp_Delivery Dht_Krpc
begin

text \<open>
  A verification library for the BitTorrent client whose Rust sources are under
  \<^verbatim>\<open>src/src\<close>. It models the parts of the client that decide: codecs, checks, queues and
  protocol state machines. What only moves bytes between those and the operating system
  (sockets, threads, terminals) is left out.

  \<^bold>\<open>How Rust is modelled.\<close> Machine integers are words of their width where wrapping matters
  and naturals with the code's own range checks elsewhere. \<open>Result\<close> is a sum, \<open>Inl\<close> the error;
  \<open>Option\<close> is \<open>option\<close>. An operation whose Rust code could panic (an index out of range, an
  arithmetic overflow as a checked build reports it, a division by zero) returns an \<open>outcome\<close>,
  \<open>Ret\<close> a value or \<open>Panic\<close>; that it does not panic is then something proved. A \<open>HashMap\<close> is
  an association list with distinct keys, a \<open>BTreeMap\<close> the list of its entries in order. A
  method that locks a mutex is one step. Times are naturals given by the caller. Code from
  crates is a parameter: SHA-1, random numbers. SHA-256 is the repository's own and is modelled.

  \<^bold>\<open>The theories.\<close>

  \<^item> \<open>Rust_Prelude\<close>, \<open>Rust_Std\<close>, \<open>Rust_F64\<close>: results and panics, byte conversions, decimal
    digits, UTF-8, slices and maps of the Rust library, integer helpers, and \<open>f64\<close> as rationals
    rounded to 53 bits. They declare the interfaces the components share: \<open>codec\<close>,
    \<open>canonical_codec\<close> and \<open>framed_codec\<close> for encodings, \<open>machine\<close> and \<open>growing_machine\<close> for
    invariants of operation sequences, \<open>incremental_hash\<close> for hashers; each is interpreted
    where a component provides it.
  \<^item> \<open>Bencode\<close> (\<^verbatim>\<open>bencode.rs\<close>): the decoder with its depth limit, strict and lenient, and the
    encoder. Encoding is read back; strict decoding accepts encodings and nothing else.
  \<^item> \<open>Wire\<close> (\<^verbatim>\<open>peer/message.rs\<close>, \<^verbatim>\<open>peer/handshake.rs\<close>, \<^verbatim>\<open>peer/holepunch.rs\<close>,
    \<^verbatim>\<open>bytes.rs\<close>): the peer protocol's messages, their framing in a stream, the handshake.
    A stream of messages is read back whatever follows it, and a frame never reads past its
    length or accepts one over the limit.
  \<^item> \<open>Peer_State\<close> (\<^verbatim>\<open>peer/state.rs\<close>): what is kept of a peer. It stays within the torrent's
    size whatever the peer sends, and its bitfield refines the set of pieces announced.
  \<^item> \<open>Sha256\<close> (\<^verbatim>\<open>sha256.rs\<close>): the compression function and the incremental hasher; feeding
    data in any pieces gives the digest of the whole.
  \<^item> \<open>Merkle\<close>, \<open>V2_Meta\<close>, \<open>Hash_Source\<close> (\<^verbatim>\<open>v2.rs\<close>, the hash requests of \<^verbatim>\<open>serving.rs\<close>,
    \<^verbatim>\<open>session/layers.rs\<close>): the trees of BitTorrent v2, the proofs that answer hash requests,
    the file tree and the piece layers, what a seeder answers requests from, and the fetching
    of layers from a peer. An answer accepted is the truth or shows a SHA-256 collision; a
    seeder's answers are accepted; fetching keeps only true layers from any peer, and gets
    them all from an honest one.
  \<^item> \<open>Torrent\<close> (\<^verbatim>\<open>torrent.rs\<close>): reading of .torrent files and info dictionaries. It does not
    panic on any input, and what it accepts is consistent: safe paths, sizes that do not
    overflow, as many hashes as pieces.
  \<^item> \<open>Assembler\<close> (\<^verbatim>\<open>downloader/piece_assembler.rs\<close>): requests for blocks and their recording,
    partial pieces, the final check. Only data with the right hash leaves it; blocks of the
    piece recorded in any order assemble it.
  \<^item> \<open>Work_Queue\<close> (\<^verbatim>\<open>downloader/queue.rs\<close>): the queue of pieces shared by the workers. It
    refines a pair of sets (to do, done), and draining it finishes.
  \<^item> \<open>File_Spans\<close> (\<^verbatim>\<open>downloader/file_writer.rs\<close>): pieces laid over files on a disk that is a
    map from paths to contents. Pieces saved in any order read back as the content.
  \<^item> \<open>Choker\<close> (\<^verbatim>\<open>choker.rs\<close>) and \<open>Peer_Pool\<close> (\<^verbatim>\<open>session/peer_pool.rs\<close>): who is served and
    who is dialled. The best are served within the slots and everyone interested gets the
    optimistic turn; a banned address is never dialled again and dials are bounded.
  \<^item> \<open>Utp_Packet\<close>, \<open>Utp_Conn\<close>, \<open>Utp_Safe\<close>, \<open>Utp_Run\<close>, \<open>Utp_Delivery\<close> (\<^verbatim>\<open>utp/packet.rs\<close>,
    \<^verbatim>\<open>utp/conn.rs\<close>): the packet format and the whole connection state machine. \<open>Utp_Safe\<close>
    proves the invariant of a connection for each operation, \<open>Utp_Run\<close> that no sequence of
    operations panics or breaks the bounds on buffers and windows, \<open>Utp_Delivery\<close> that what
    one end reads is a prefix of what the other wrote, whatever the network does.
  \<^item> \<open>Dht_Krpc\<close> (\<^verbatim>\<open>dht/krpc.rs\<close>): the messages of the DHT and their round trip.

  \<^bold>\<open>How the parts interact.\<close> \<open>Torrent\<close> uses \<open>Bencode\<close>, \<open>V2_Meta\<close> and \<open>File_Spans\<close>; the
  assembler checks pieces with \<open>Merkle\<close> and the queue keeps its partial pieces; \<open>Hash_Source\<close>
  joins the requester's and the seeder's side of hash requests through the messages of \<open>Wire\<close>;
  \<open>Dht_Krpc\<close> rests on \<open>Bencode\<close>.

  \<^bold>\<open>Bounds.\<close> Loops are total functions with termination proofs; only the reading loop of
  \<open>hash_file\<close> is a partial function, and it is proved to return. The results on uTP hold for
  fewer than \<open>2 ^ 31 - 1\<close> operations of a connection, since counters of 32 bits would overflow
  after that; delivery also bounds how old a packet of the network may be, in sequence
  numbers of 16 bits (\<open>timely\<close>). Encodings are assumed shorter than \<open>2 ^ 63\<close> bytes, as every
  slice is. Answers about the leaves of a file hold up to 64 TiB: above that the code shifts a
  \<open>u32\<close> by 32 or more.

  \<^bold>\<open>Not modelled.\<close> Sockets, threads, channels and clocks (\<^verbatim>\<open>session\<close>, \<^verbatim>\<open>seeder.rs\<close>,
  \<^verbatim>\<open>downloader/worker\<close>, \<^verbatim>\<open>dht/service.rs\<close>, \<^verbatim>\<open>dht/transport.rs\<close>, \<^verbatim>\<open>utp/socket.rs\<close>,
  \<^verbatim>\<open>daemon\<close>), requests to trackers and web seeds, port mapping and local discovery, the
  encrypted handshake (\<^verbatim>\<open>peer/mse.rs\<close>), whose point is cryptographic, resume files, creating
  torrents, magnet links, configuration, JSON output and the user interface. Texts of errors
  are not modelled anywhere.
\<close>

end
